(* ===== verification/Prelude.thy ===== *)
theory Prelude
  imports Main "HOL-Library.Word"
begin

unbundle bit_operations_syntax

text \<open>
  What every component shares: the fixed-width integer types of
  \<^verbatim>\<open>kernel/types.h\<close>, the result type in which a kernel \<^verbatim>\<open>panic\<close> is a value,
  byte-addressed memory with little-endian loads and stores, and generic facts
  about them and about scans of arrays.
\<close>

named_theorems mem_simps \<open>rewriting of loads and stores on byte memory\<close>
named_theorems page_simps \<open>arithmetic of page-aligned addresses\<close>

section \<open>Machine integers\<close>

type_synonym u8 = "8 word"
type_synonym u16 = "16 word"
type_synonym u32 = "32 word"
type_synonym u64 = "64 word"

section \<open>Results: a value or a kernel panic\<close>

text \<open>
  \<^verbatim>\<open>panic(s)\<close> never returns, so a C function that may panic is a function into
  \<open>'a res\<close>; \<open>and_then\<close> is C's sequencing, which stops at the first panic.
\<close>

datatype 'a res = Ok 'a | Panic string

fun and_then :: "'a res \<Rightarrow> ('a \<Rightarrow> 'b res) \<Rightarrow> 'b res" where
  "and_then (Ok x) f = f x"
| "and_then (Panic e) f = Panic e"

lemma and_then_Ok_iff [simp]:
  "and_then r f = Ok y \<longleftrightarrow> (\<exists>x. r = Ok x \<and> f x = Ok y)"
  by (cases r) auto

lemma and_then_Panic_iff:
  "and_then r f = Panic e \<longleftrightarrow> r = Panic e \<or> (\<exists>x. r = Ok x \<and> f x = Panic e)"
  by (cases r) auto

lemma and_then_assoc: "and_then (and_then r f) g = and_then r (\<lambda>x. and_then (f x) g)"
  by (cases r) auto

section \<open>Byte memory\<close>

text \<open>
  RISC-V is little-endian and byte-addressed. \<open>ld k m a\<close> reads the unsigned number
  stored in the \<open>k\<close> bytes at \<open>a\<close>, \<open>st k m a v\<close> writes the low \<open>k\<close> bytes
  of \<open>v\<close> there; addresses wrap at \<open>2 ^ 64\<close> as the machine's do.
\<close>

type_synonym mem = "u64 \<Rightarrow> u8"

primrec ld :: "nat \<Rightarrow> mem \<Rightarrow> u64 \<Rightarrow> nat" where
  "ld 0 m a = 0"
| "ld (Suc k) m a = unat (m a) + 256 * ld k m (a + 1)"

primrec st :: "nat \<Rightarrow> mem \<Rightarrow> u64 \<Rightarrow> nat \<Rightarrow> mem" where
  "st 0 m a v = m"
| "st (Suc k) m a v = (st k m (a + 1) (v div 256))(a := of_nat v)"

definition ld64 :: "mem \<Rightarrow> u64 \<Rightarrow> u64" where
  "ld64 m a = of_nat (ld 8 m a)"

definition st64 :: "mem \<Rightarrow> u64 \<Rightarrow> u64 \<Rightarrow> mem" where
  "st64 m a v = st 8 m a (unat v)"

lemma u8_bound: "unat (x :: u8) < 256"
  using unsigned_less [of x, where 'a = nat] by simp

lemma u64_bound: "unat (x :: u64) < 2 ^ 64"
  using unsigned_less [of x, where 'a = nat] by simp

lemma unat_minus_1_u64: "unat (- 1 :: u64) = 2 ^ 64 - 1"
  by (simp add: unsigned_minus_1_eq_mask mask_eq_exp_minus_1)

lemma add_eq_0_u64:
  fixes a b :: u64
  assumes "a + b = 0" "unat a + unat b < 2 ^ 64"
  shows "b = 0"
proof -
  have "unat (a + b) = unat a + unat b" using assms(2) by (simp add: unat_word_ariths)
  with assms(1) have "unat b = 0" by simp
  then show ?thesis by (simp add: unat_eq_zero)
qed

lemma rev_index_u64:
  fixes k y :: u64
  assumes "unat k = n - 1" "0 < n"
  shows "unat (k - y) < n \<longleftrightarrow> unat y < n"
  using assms u64_bound [of y] by (auto simp: unat_sub_if')

lemma unat_of_nat_u64: "n < 2 ^ 64 \<Longrightarrow> unat (of_nat n :: u64) = n"
  by (simp add: unat_of_nat)

lemma of_nat_neq_0_u64: "0 < n \<Longrightarrow> n < 2 ^ 64 \<Longrightarrow> (of_nat n :: u64) \<noteq> 0"
  using of_nat_neq_0 [where 'a = 64, of n] by simp

lemma unat_minus_Suc:
  fixes x a :: u64
  assumes "x \<noteq> a"
  shows "unat (x - (a + 1)) = unat (x - a) - 1"
proof -
  have "x - a \<noteq> 0" using assms by simp
  then have "unat (x - a - 1) = unat (x - a) - 1" by (rule unat_minus_one)
  then show ?thesis by (simp add: diff_diff_eq)
qed

lemma st_outside: "k \<le> unat (x - a) \<Longrightarrow> st k m a v x = m x"
proof (induction k arbitrary: a v)
  case 0
  then show ?case by simp
next
  case (Suc k)
  then have ne: "x \<noteq> a" by auto
  with Suc.prems have "k \<le> unat (x - (a + 1))" by (simp add: unat_minus_Suc)
  with Suc.IH ne show ?case by simp
qed

lemma ld_cong:
  "(\<And>i. i < k \<Longrightarrow> m (a + of_nat i) = m' (a + of_nat i)) \<Longrightarrow> ld k m a = ld k m' a"
proof (induction k arbitrary: a)
  case 0
  then show ?case by simp
next
  case (Suc k)
  have "m a = m' a" using Suc.prems [of 0] by simp
  moreover have "ld k m (a + 1) = ld k m' (a + 1)"
    by (rule Suc.IH) (use Suc.prems [of "Suc _"] in \<open>simp add: add.assoc\<close>)
  ultimately show ?case by simp
qed

lemma ld_bound: "ld k m a < 256 ^ k"
proof (induction k arbitrary: a)
  case (Suc k)
  have "unat (m a) < 256" by (rule u8_bound)
  with Suc [of "a + 1"] show ?case by (simp)
qed simp

lemma ld_st_same: "k \<le> 2 ^ 64 \<Longrightarrow> ld k (st k m a v) a = v mod 256 ^ k"
proof (induction k arbitrary: a v)
  case 0
  then show ?case by simp
next
  case (Suc k)
  let ?m = "st k m (a + 1) (v div 256)"
  have "ld k (?m(a := of_nat v)) (a + 1) = ld k ?m (a + 1)"
  proof (rule ld_cong)
    fix i assume "i < k"
    then have "(of_nat (Suc i) :: u64) \<noteq> 0"
      using Suc.prems by (intro of_nat_neq_0_u64) auto
    then have "a + 1 + of_nat i \<noteq> a" by (simp add: add.assoc)
    then show "(?m(a := of_nat v)) (a + 1 + of_nat i) = ?m (a + 1 + of_nat i)" by simp
  qed
  also have "\<dots> = v div 256 mod 256 ^ k" using Suc by simp
  finally have *: "ld k (?m(a := of_nat v)) (a + 1) = v div 256 mod 256 ^ k" .
  have "unat (of_nat v :: u8) = v mod 256" by (simp add: unat_of_nat)
  with * show ?case
    by (simp add: mod_mult2_eq fun_upd_same del: fun_upd_apply)
qed

lemma ld_st_disjoint:
  assumes "\<And>i. i < k \<Longrightarrow> j \<le> unat (b + of_nat i - a)"
  shows "ld k (st j m a v) b = ld k m b"
  by (rule ld_cong) (simp add: st_outside assms)

lemma ld64_st64_same [simp]: "ld64 (st64 m a v) a = v"
proof -
  have "unat v < 256 ^ 8" using u64_bound [of v] by simp
  then show ?thesis by (simp add: ld64_def st64_def ld_st_same del: ld.simps st.simps)
qed

section \<open>Pages of memory\<close>

text \<open>
  \<open>pgof a\<close> is the base of the 4096-byte page that holds \<open>a\<close>
  (\<^verbatim>\<open>PGROUNDDOWN\<close> of \<^verbatim>\<open>kernel/riscv.h\<close>).
\<close>

definition pgof :: "u64 \<Rightarrow> u64" where
  "pgof a = a AND NOT 4095"

lemma pgof_push: "pgof a = push_bit 12 (drop_bit 12 a)"
proof -
  have m: "(4095 :: u64) = mask 12" by (simp add: mask_eq_exp_minus_1)
  show ?thesis
    unfolding pgof_def m by (rule bit_eqI) (auto simp: bit_simps)
qed

lemma pgof_eq: "pgof a = of_nat (unat a div 4096 * 4096)"
proof -
  have "drop_bit 12 a = of_nat (unat a div 4096)"
    by (simp add: drop_bit_eq_div word_arith_nat_div)
  then show ?thesis
    by (simp add: pgof_push push_bit_eq_mult mult.commute)
qed

lemma unat_pgof: "unat (pgof a) = unat a div 4096 * 4096"
  unfolding pgof_eq by (rule le_unat_uoi [of _ a]) simp

definition aligned :: "u64 \<Rightarrow> bool" where
  "aligned a \<longleftrightarrow> unat a mod 4096 = 0"

lemma aligned_pgof [simp]: "aligned (pgof a)"
  by (simp add: aligned_def unat_pgof)

lemma pgof_aligned [simp]: "aligned a \<Longrightarrow> pgof a = a"
  by (rule word_unat_eq_iff [THEN iffD2]) (auto simp: unat_pgof aligned_def)

lemma alignedE:
  assumes "aligned a"
  obtains k where "unat a = 4096 * k" "k < 2 ^ 52"
proof -
  from assms have "unat a = 4096 * (unat a div 4096)"
    unfolding aligned_def by (metis dvd_mult_div_cancel mod_0_imp_dvd)
  moreover have "unat a div 4096 < 2 ^ 52" using u64_bound [of a] by simp
  ultimately show ?thesis by (rule that)
qed

lemma unat_page_add:
  assumes "aligned p" "n < 4096"
  shows "unat (p + of_nat n) = unat p + n"
proof -
  obtain k where k: "unat p = 4096 * k" "k < 2 ^ 52" using alignedE [OF assms(1)] .
  then have "unat p + n < 2 ^ 64" using assms by simp
  moreover from this have "n < 2 ^ 64" by simp
  ultimately show ?thesis by (simp add: unat_word_ariths unat_of_nat)
qed

lemma pgof_add:
  assumes "aligned p" "n < 4096"
  shows "pgof (p + of_nat n) = p"
proof (rule word_unat_eq_iff [THEN iffD2])
  obtain k where k: "unat p = 4096 * k" using alignedE [OF assms(1)] .
  show "unat (pgof (p + of_nat n)) = unat p"
    using assms(2) unfolding unat_pgof unat_page_add [OF assms] k by simp
qed

lemma pgof_iff:
  assumes "aligned p"
  shows "pgof x = p \<longleftrightarrow> unat (x - p) < 4096"
proof
  assume "pgof x = p"
  then have p: "unat p = unat x div 4096 * 4096" using unat_pgof by metis
  then have "p \<le> x" by (simp add: word_le_nat_alt)
  moreover have "unat x - unat p < 4096" unfolding p by (simp add: minus_div_mult_eq_mod)
  ultimately show "unat (x - p) < 4096" by (simp add: unat_sub)
next
  assume "unat (x - p) < 4096"
  from pgof_add [OF assms this] show "pgof x = p" by simp
qed

section \<open>Arrays\<close>

text \<open>A C loop that updates every element of an array in place, independently.\<close>

definition upd_all :: "(nat \<Rightarrow> 'a \<Rightarrow> 'a) \<Rightarrow> 'a list \<Rightarrow> 'a list" where
  "upd_all f xs = map (\<lambda>i. f i (xs ! i)) [0..<length xs]"

lemma length_upd_all [simp]: "length (upd_all f xs) = length xs"
  by (simp add: upd_all_def)

lemma nth_upd_all [simp]: "i < length xs \<Longrightarrow> upd_all f xs ! i = f i (xs ! i)"
  by (simp add: upd_all_def)

text \<open>The object representation of an integer: its \<open>k\<close> low bytes, least significant first.\<close>

primrec le_bytes :: "nat \<Rightarrow> nat \<Rightarrow> u8 list" where
  "le_bytes 0 v = []"
| "le_bytes (Suc k) v = of_nat v # le_bytes k (v div 256)"

fun of_le_bytes :: "u8 list \<Rightarrow> nat" where
  "of_le_bytes [] = 0"
| "of_le_bytes (b # bs) = unat b + 256 * of_le_bytes bs"

lemma length_le_bytes [simp]: "length (le_bytes k v) = k"
  by (induction k arbitrary: v) auto

lemma of_le_bytes_le_bytes: "of_le_bytes (le_bytes k v) = v mod 256 ^ k"
proof (induction k arbitrary: v)
  case (Suc k)
  have "unat (of_nat v :: u8) = v mod 256" by (simp add: unat_of_nat)
  with Suc show ?case by (simp add: mod_mult2_eq)
qed simp

definition bytes64 :: "u64 \<Rightarrow> u8 list" where
  "bytes64 x = le_bytes 8 (unat x)"

definition bytes32 :: "int \<Rightarrow> u8 list" where
  "bytes32 x = le_bytes 4 (unat (of_int x :: u32))"

section \<open>Blocking calls\<close>

text \<open>
  A kernel routine that may call \<^verbatim>\<open>sleep\<close> runs until it returns (\<open>Returns\<close>) or until it
  has put the process to sleep (\<open>Sleeps\<close>, with what it needs to go on when it is woken).
\<close>

datatype ('a, 'l) run = Returns 'a | Sleeps 'l

end
