(* ===== verification/KString.thy ===== *)
theory KString
  imports Prelude
begin

text \<open>
  \<^verbatim>\<open>kernel/string.c\<close>. \<open>memset\<close>, \<open>memmove\<close> and \<open>memcpy\<close> work on byte
  memory; the comparison functions read through a pointer, which is given by the
  characters found from it on (\<open>nat \<Rightarrow> u8\<close>); \<open>strncpy\<close> and \<open>safestrcpy\<close>
  fill a character array (\<open>u8 list\<close>), which their callers never overlap with the source.
\<close>

section \<open>The C routines\<close>

definition memset :: "mem \<Rightarrow> u64 \<Rightarrow> u8 \<Rightarrow> nat \<Rightarrow> mem" where
  "memset m dst c n = fold (\<lambda>i m. m(dst + of_nat i := c)) [0..<n] m"

fun memcmp_at :: "(nat \<Rightarrow> u8) \<Rightarrow> (nat \<Rightarrow> u8) \<Rightarrow> nat \<Rightarrow> nat \<Rightarrow> int" where
  "memcmp_at s1 s2 i 0 = 0"
| "memcmp_at s1 s2 i (Suc n) =
     (if s1 i \<noteq> s2 i then int (unat (s1 i)) - int (unat (s2 i)) else memcmp_at s1 s2 (Suc i) n)"

definition memcmp :: "(nat \<Rightarrow> u8) \<Rightarrow> (nat \<Rightarrow> u8) \<Rightarrow> nat \<Rightarrow> int" where
  "memcmp s1 s2 n = memcmp_at s1 s2 0 n"

primrec copy_fwd :: "mem \<Rightarrow> u64 \<Rightarrow> u64 \<Rightarrow> nat \<Rightarrow> mem" where
  "copy_fwd m d s 0 = m"
| "copy_fwd m d s (Suc n) = copy_fwd (m(d := m s)) (d + 1) (s + 1) n"

primrec copy_bwd :: "mem \<Rightarrow> u64 \<Rightarrow> u64 \<Rightarrow> nat \<Rightarrow> mem" where
  "copy_bwd m d s 0 = m"
| "copy_bwd m d s (Suc n) = copy_bwd (m(d - 1 := m (s - 1))) (d - 1) (s - 1) n"

definition memmove :: "mem \<Rightarrow> u64 \<Rightarrow> u64 \<Rightarrow> nat \<Rightarrow> mem" where
  "memmove m dst src n =
     (if n = 0 then m
      else if src < dst \<and> src + of_nat n > dst
      then copy_bwd m (dst + of_nat n) (src + of_nat n) n
      else copy_fwd m dst src n)"

definition memcpy :: "mem \<Rightarrow> u64 \<Rightarrow> u64 \<Rightarrow> nat \<Rightarrow> mem" where
  "memcpy m dst src n = memmove m dst src n"

fun strncmp_at :: "(nat \<Rightarrow> u8) \<Rightarrow> (nat \<Rightarrow> u8) \<Rightarrow> nat \<Rightarrow> nat \<Rightarrow> int" where
  "strncmp_at p q i 0 = 0"
| "strncmp_at p q i (Suc n) =
     (if p i \<noteq> 0 \<and> p i = q i then strncmp_at p q (Suc i) n
      else int (unat (p i)) - int (unat (q i)))"

definition strncmp :: "(nat \<Rightarrow> u8) \<Rightarrow> (nat \<Rightarrow> u8) \<Rightarrow> nat \<Rightarrow> int" where
  "strncmp p q n = strncmp_at p q 0 n"

primrec strncpy_pad :: "u8 list \<Rightarrow> nat \<Rightarrow> nat \<Rightarrow> u8 list" where
  "strncpy_pad s i 0 = s"
| "strncpy_pad s i (Suc n) = strncpy_pad (s[i := 0]) (Suc i) n"

primrec strncpy_at :: "u8 list \<Rightarrow> (nat \<Rightarrow> u8) \<Rightarrow> nat \<Rightarrow> nat \<Rightarrow> u8 list" where
  "strncpy_at s t i 0 = s"
| "strncpy_at s t i (Suc n) =
     (if t i \<noteq> 0 then strncpy_at (s[i := t i]) t (Suc i) n
      else strncpy_pad (s[i := t i]) (Suc i) n)"

definition strncpy :: "u8 list \<Rightarrow> (nat \<Rightarrow> u8) \<Rightarrow> nat \<Rightarrow> u8 list" where
  "strncpy s t n = strncpy_at s t 0 n"

primrec safestrcpy_at :: "u8 list \<Rightarrow> (nat \<Rightarrow> u8) \<Rightarrow> nat \<Rightarrow> nat \<Rightarrow> u8 list" where
  "safestrcpy_at s t i 0 = s[i := 0]"
| "safestrcpy_at s t i (Suc n) =
     (if t i \<noteq> 0 then safestrcpy_at (s[i := t i]) t (Suc i) n
      else (s[i := t i])[Suc i := 0])"

definition safestrcpy :: "u8 list \<Rightarrow> (nat \<Rightarrow> u8) \<Rightarrow> int \<Rightarrow> u8 list" where
  "safestrcpy s t n = (if n \<le> 0 then s else safestrcpy_at s t 0 (nat (n - 1)))"

partial_function (option) strlen_at :: "(nat \<Rightarrow> u8) \<Rightarrow> nat \<Rightarrow> nat option" where
  "strlen_at s n = (if s n \<noteq> 0 then strlen_at s (Suc n) else Some n)"

definition strlen :: "(nat \<Rightarrow> u8) \<Rightarrow> nat option" where
  "strlen s = strlen_at s 0"

text \<open>The string a buffer of \<open>n\<close> bytes holds: its bytes up to the first NUL.\<close>

definition cstr :: "(nat \<Rightarrow> u8) \<Rightarrow> nat \<Rightarrow> u8 list" where
  "cstr p n = takeWhile (\<lambda>c. c \<noteq> 0) (map p [0..<n])"

section \<open>Memory routines\<close>

lemma memset_apply:
  assumes "n \<le> 2 ^ 64"
  shows "memset m dst c n x = (if unat (x - dst) < n then c else m x)"
  using assms
proof (induction n)
  case 0
  then show ?case by (simp add: memset_def)
next
  case (Suc n)
  have "x = dst + of_nat n \<longleftrightarrow> unat (x - dst) = n"
  proof
    assume "x = dst + of_nat n"
    then have "x - dst = of_nat n" by simp
    then show "unat (x - dst) = n" using Suc.prems by (simp add: unat_of_nat)
  next
    assume "unat (x - dst) = n"
    then have "x - dst = of_nat n" by auto
    then show "x = dst + of_nat n" by (simp add: algebra_simps)
  qed
  moreover have "memset m dst c (Suc n) = (memset m dst c n)(dst + of_nat n := c)"
    by (simp add: memset_def)
  ultimately show ?case using Suc by auto
qed

lemma memset_page [mem_simps]:
  "aligned p \<Longrightarrow> memset m p c 4096 x = (if pgof x = p then c else m x)"
  by (simp add: memset_apply pgof_iff)

lemma copy_fwd_apply:
  assumes "unat (s - d) + n \<le> 2 ^ 64"
  shows "copy_fwd m d s n x = (if unat (x - d) < n then m (s + (x - d)) else m x)"
  using assms
proof (induction n arbitrary: m d s)
  case 0
  then show ?case by simp
next
  case (Suc n)
  define m' where "m' = m(d := m s)"
  have "unat (s + 1 - (d + 1)) + n \<le> 2 ^ 64" using Suc.prems by simp
  from Suc.IH [OF this, of m']
  have IH: "copy_fwd m' (d + 1) (s + 1) n x =
      (if unat (x - (d + 1)) < n then m' (s + (x - d)) else m' x)" by simp
  show ?case
  proof (cases "x = d")
    case True
    with Suc.prems have "\<not> unat (x - (d + 1)) < n" by (simp add: unat_minus_1_u64)
    with True IH show ?thesis by (simp add: m'_def)
  next
    case False
    then have x: "unat (x - (d + 1)) = unat (x - d) - 1" "0 < unat (x - d)"
      by (simp_all add: unat_minus_Suc unat_gt_0)
    have "s + (x - d) \<noteq> d" if "unat (x - d) < Suc n"
    proof
      assume "s + (x - d) = d"
      then have "(s - d) + (x - d) = 0" by (simp add: algebra_simps)
      moreover have "unat (s - d) + unat (x - d) < 2 ^ 64" using that Suc.prems by linarith
      ultimately have "x - d = 0" by (rule add_eq_0_u64)
      then show False using False by simp
    qed
    with x False have "m' (s + (x - d)) = m (s + (x - d))" "m' x = m x"
      if "unat (x - d) < Suc n" using that by (simp_all add: m'_def)
    with x False IH show ?thesis by (auto simp: m'_def)
  qed
qed


lemma copy_bwd_apply:
  assumes "unat (d - s) + n \<le> 2 ^ 64"
  shows "copy_bwd m d s n x = (if unat (d - 1 - x) < n then m (s - (d - x)) else m x)"
  using assms
proof (induction n arbitrary: m d s)
  case 0
  then show ?case by simp
next
  case (Suc n)
  define m' where "m' = m(d - 1 := m (s - 1))"
  have "unat (d - 1 - (s - 1)) + n \<le> 2 ^ 64" using Suc.prems by simp
  from Suc.IH [OF this, of m']
  have IH: "copy_bwd m' (d - 1) (s - 1) n x =
      (if unat (d - 1 - x - 1) < n then m' (s - (d - x)) else m' x)"
    by (simp add: algebra_simps)
  let ?y = "d - 1 - x"
  show ?case
  proof (cases "?y = 0")
    case True
    then have x: "x = d - 1" by simp
    with Suc.prems have "\<not> unat (?y - 1) < n" by (simp add: unat_minus_1_u64)
    with x IH show ?thesis by (simp add: m'_def)
  next
    case False
    then have y: "unat (?y - 1) = unat ?y - 1" by (rule unat_minus_one)
    have y0: "0 < unat ?y" using False unat_gt_0 [of ?y] by blast
    have x: "x \<noteq> d - 1" using False by auto
    have "s - (d - x) \<noteq> d - 1" if "unat ?y < Suc n"
    proof
      assume "s - (d - x) = d - 1"
      then have "(d - s) + ?y = 0" by (simp add: algebra_simps)
      moreover have "unat (d - s) + unat ?y < 2 ^ 64" using that Suc.prems by linarith
      ultimately have "?y = 0" by (rule add_eq_0_u64)
      then show False using False by simp
    qed
    with y y0 x IH show ?thesis by (auto simp: m'_def)
  qed
qed

text \<open>
  \<open>memmove\<close> copies the bytes that were in the source before the call, whether or not
  the two ranges overlap, and writes nothing else.
\<close>

lemma memmove_apply:
  assumes "unat src + n < 2 ^ 64" "unat dst + n \<le> 2 ^ 64"
  shows "memmove m dst src n x = (if unat (x - dst) < n then m (src + (x - dst)) else m x)"
proof (cases "n = 0")
  case True
  then show ?thesis by (simp add: memmove_def)
next
  case False
  have n: "unat (of_nat n :: u64) = n" "unat (src + of_nat n) = unat src + n"
    using assms(1) by (simp_all add: unat_of_nat unat_word_ariths)
  show ?thesis
  proof (cases "src < dst \<and> src + of_nat n > dst")
    case True
    then have "unat src \<le> unat dst" by (simp add: word_less_nat_alt)
    then have "unat (dst - src) \<le> unat dst" by (simp add: unat_sub_if')
    then have "unat (dst - src) + n \<le> 2 ^ 64" using assms(2) by linarith
    then have "unat (dst + of_nat n - (src + of_nat n)) + n \<le> 2 ^ 64" by simp
    note * = copy_bwd_apply [OF this, of m x]
    have "of_nat n \<noteq> (0 :: u64)" using \<open>n \<noteq> 0\<close> n by auto
    then have "unat (of_nat n - 1 :: u64) = n - 1" using n by (simp add: unat_minus_one)
    then have "unat (of_nat n - 1 - (x - dst)) < n \<longleftrightarrow> unat (x - dst) < n"
      using \<open>n \<noteq> 0\<close> by (intro rev_index_u64) simp_all
    then show ?thesis using True \<open>n \<noteq> 0\<close> * by (simp add: memmove_def algebra_simps)
  next
    case c: False
    then have "unat dst \<le> unat src \<or> unat src + n \<le> unat dst"
      unfolding word_less_nat_alt n by auto
    then have "unat (src - dst) + n \<le> 2 ^ 64"
      using assms u64_bound [of dst] by (auto simp: unat_sub_if')
    then show ?thesis using c \<open>n \<noteq> 0\<close> by (auto simp: memmove_def copy_fwd_apply)
  qed
qed

section \<open>String routines\<close>

lemma cstr_0 [simp]: "cstr p 0 = []"
  by (simp add: cstr_def)

lemma cstr_Suc: "cstr p (Suc n) = (if p 0 = 0 then [] else p 0 # cstr (\<lambda>i. p (Suc i)) n)"
  by (simp add: cstr_def upt_conv_Cons map_Suc_upt [symmetric] comp_def del: upt_Suc)

lemma strncmp_at_shift: "strncmp_at p q (i + k) n = strncmp_at (\<lambda>j. p (j + k)) (\<lambda>j. q (j + k)) i n"
  by (induction n arbitrary: i) (simp_all, metis add_Suc)

lemma strncmp_Suc:
  "strncmp p q (Suc n) =
     (if p 0 \<noteq> 0 \<and> p 0 = q 0 then strncmp (\<lambda>i. p (Suc i)) (\<lambda>i. q (Suc i)) n
      else int (unat (p 0)) - int (unat (q 0)))"
  using strncmp_at_shift [of p q 0 1 n] by (simp add: strncmp_def)

lemma strncmp_eq_0_iff: "strncmp p q n = 0 \<longleftrightarrow> cstr p n = cstr q n"
proof (induction n arbitrary: p q)
  case 0
  then show ?case by (simp add: strncmp_def)
next
  case (Suc n)
  then show ?case by (auto simp: strncmp_Suc cstr_Suc word_uint_eq_iff)
qed

lemma strlen_at_eq:
  assumes "\<And>i. i < k \<Longrightarrow> s (n + i) \<noteq> 0" "s (n + k) = 0"
  shows "strlen_at s n = Some (n + k)"
  using assms
proof (induction k arbitrary: n)
  case 0
  then show ?case by (subst strlen_at.simps) simp
next
  case (Suc k)
  have "strlen_at s (Suc n) = Some (Suc n + k)"
    by (rule Suc.IH) (use Suc.prems(1) [of "Suc _"] Suc.prems(2) in simp_all)
  moreover have "s n \<noteq> 0" using Suc.prems(1) [of 0] by simp
  ultimately show ?case by (subst strlen_at.simps) simp
qed

lemma safestrcpy_at_length [simp]: "length (safestrcpy_at s t i n) = length s"
  by (induction n arbitrary: s i) auto

lemma safestrcpy_at_other: "j < i \<or> i + n < j \<Longrightarrow> safestrcpy_at s t i n ! j = s ! j"
  by (induction n arbitrary: s i) auto

lemma safestrcpy_at_cstr:
  assumes "i + n < length s"
  shows "takeWhile (\<lambda>c. c \<noteq> 0) (drop i (safestrcpy_at s t i n)) = cstr (\<lambda>j. t (i + j)) n"
  using assms
proof (induction n arbitrary: s i)
  case 0
  then have "drop i (s[i := 0]) = 0 # drop (Suc i) s"
    by (simp add: Cons_nth_drop_Suc [symmetric])
  then show ?case by simp
next
  case (Suc n)
  let ?r = "safestrcpy_at s t i (Suc n)"
  have "?r ! i = t i"
    using Suc.prems by (simp add: safestrcpy_at_other)
  then have d: "drop i ?r = t i # drop (Suc i) ?r"
    using Suc.prems by (metis Cons_nth_drop_Suc Suc_lessD add_lessD1 safestrcpy_at_length)
  show ?case
  proof (cases "t i = 0")
    case True
    with d show ?thesis by (simp add: cstr_Suc)
  next
    case False
    have "takeWhile (\<lambda>c. c \<noteq> 0) (drop (Suc i) (safestrcpy_at (s[i := t i]) t (Suc i) n)) =
        cstr (\<lambda>j. t (Suc i + j)) n"
      by (rule Suc.IH) (use Suc.prems in simp)
    with d False show ?thesis by (simp add: cstr_Suc)
  qed
qed

text \<open>
  \<open>safestrcpy\<close> stores the longest prefix of the source string that fits with its
  terminating NUL.
\<close>

lemma safestrcpy_cstr:
  assumes "0 < n" "nat n \<le> length s"
  shows "takeWhile (\<lambda>c. c \<noteq> 0) (safestrcpy s t n) = cstr t (nat (n - 1))"
  using safestrcpy_at_cstr [of 0 "nat (n - 1)" s t] assms
  by (simp add: safestrcpy_def nat_less_iff le_nat_iff)

lemma safestrcpy_length [simp]: "length (safestrcpy s t n) = length s"
  by (simp add: safestrcpy_def)

end
