(* ===== verification/Kalloc.thy ===== *)
theory Kalloc
  imports KString
begin

text \<open>
  \<^verbatim>\<open>kernel/kalloc.c\<close>: the physical page allocator. The free list is kept as the code
  keeps it, a chain of \<^verbatim>\<open>struct run\<close> whose \<^verbatim>\<open>next\<close> pointers are the first eight bytes
  of the free pages. Each routine holds \<^verbatim>\<open>kmem.lock\<close> around its list operations, so a
  call is one step of the model.
\<close>

section \<open>State and constants\<close>

text \<open>
  \<open>pm\<close> is physical memory, \<open>freelist\<close> is \<^verbatim>\<open>kmem.freelist\<close>, and \<open>kend\<close> is the
  address of the linker symbol \<^verbatim>\<open>end\<close>, which no routine changes.
\<close>

record machine =
  pm :: mem
  freelist :: u64
  kend :: u64

definition PGSIZE :: u64 where "PGSIZE = 4096"

definition KERNBASE :: u64 where "KERNBASE = 0x80000000"

definition PHYSTOP :: u64 where "PHYSTOP = KERNBASE + 128 * 1024 * 1024"

definition PGROUNDUP :: "u64 \<Rightarrow> u64" where
  "PGROUNDUP sz = (sz + PGSIZE - 1) AND NOT (PGSIZE - 1)"

definition PGROUNDDOWN :: "u64 \<Rightarrow> u64" where
  "PGROUNDDOWN a = a AND NOT (PGSIZE - 1)"

section \<open>Operations\<close>

definition kfree :: "machine \<Rightarrow> u64 \<Rightarrow> machine res" where
  "kfree s pa =
     (if pa mod PGSIZE \<noteq> 0 \<or> pa < kend s \<or> PHYSTOP \<le> pa then Panic ''kfree''
      else Ok (s\<lparr>pm := st64 (memset (pm s) pa 1 (unat PGSIZE)) pa (freelist s),
                 freelist := pa\<rparr>))"

definition kalloc :: "machine \<Rightarrow> u64 \<times> machine" where
  "kalloc s =
     (let r = freelist s in
      if r \<noteq> 0
      then (r, s\<lparr>freelist := ld64 (pm s) r, pm := memset (pm s) r 5 (unat PGSIZE)\<rparr>)
      else (0, s))"

lemma kfree_Ok_below: "kfree s p = Ok s' \<Longrightarrow> p < PHYSTOP"
  by (auto simp: kfree_def split: if_splits)

text \<open>
  The loop of \<^verbatim>\<open>freerange\<close>: a round that does not panic has freed a page below
  \<^verbatim>\<open>PHYSTOP\<close>, so the pointer cannot wrap and the loop ends.
\<close>

function freerange_loop :: "machine \<Rightarrow> u64 \<Rightarrow> u64 \<Rightarrow> machine res" where
  "freerange_loop s p pa_end =
     (if p + PGSIZE \<le> pa_end
      then (case kfree s p of Panic e \<Rightarrow> Panic e
            | Ok s' \<Rightarrow> freerange_loop s' (p + PGSIZE) pa_end)
      else Ok s)"
  by pat_completeness auto
termination
proof (relation "measure (\<lambda>(s, p, pa_end). unat PHYSTOP - unat p)")
  fix s p pa_end s'
  assume "kfree s p = Ok s'"
  then have "unat p < unat PHYSTOP" using kfree_Ok_below word_less_nat_alt by blast
  moreover have "unat PHYSTOP < 2 ^ 32" by (simp add: PHYSTOP_def KERNBASE_def)
  ultimately have "unat (p + PGSIZE) = unat p + 4096"
    by (simp add: PGSIZE_def unat_word_ariths)
  with \<open>unat p < unat PHYSTOP\<close>
  show "((s', p + PGSIZE, pa_end), s, p, pa_end) \<in> measure (\<lambda>(s, p, pa_end). unat PHYSTOP - unat p)"
    by simp
qed simp

definition freerange :: "machine \<Rightarrow> u64 \<Rightarrow> u64 \<Rightarrow> machine res" where
  "freerange s pa_start pa_end = freerange_loop s (PGROUNDUP pa_start) pa_end"

definition kinit :: "machine \<Rightarrow> machine res" where
  "kinit s = freerange s (kend s) PHYSTOP"

partial_function (option) memfree_loop :: "mem \<Rightarrow> u64 \<Rightarrow> u64 \<Rightarrow> u64 option" where
  "memfree_loop m r count =
     (if r \<noteq> 0 then memfree_loop m (ld64 m r) (count + PGSIZE) else Some count)"

definition memfree :: "machine \<Rightarrow> u64 option" where
  "memfree s = memfree_loop (pm s) (freelist s) 0"

section \<open>The free list as a list of pages\<close>

fun free_list :: "mem \<Rightarrow> u64 \<Rightarrow> u64 list \<Rightarrow> bool" where
  "free_list m r [] \<longleftrightarrow> r = 0"
| "free_list m r (p # ps) \<longleftrightarrow> r = p \<and> p \<noteq> 0 \<and> free_list m (ld64 m p) ps"

definition valid_page :: "machine \<Rightarrow> u64 \<Rightarrow> bool" where
  "valid_page s p \<longleftrightarrow> aligned p \<and> p \<noteq> 0 \<and> kend s \<le> p \<and> p < PHYSTOP"

definition kmem_inv :: "machine \<Rightarrow> u64 list \<Rightarrow> bool" where
  "kmem_inv s ps \<longleftrightarrow> free_list (pm s) (freelist s) ps \<and> distinct ps \<and>
     (\<forall>p \<in> set ps. valid_page s p) \<and> kend s \<noteq> 0"

lemma aligned_mod_PGSIZE: "pa mod PGSIZE = 0 \<longleftrightarrow> aligned pa"
proof -
  have "unat (pa mod PGSIZE) = unat pa mod 4096" by (simp add: PGSIZE_def unat_mod)
  then show ?thesis unfolding aligned_def by (metis unat_eq_zero)
qed

lemma unat_PGSIZE [simp]: "unat PGSIZE = 4096"
  by (simp add: PGSIZE_def)

lemma kfree_eq:
  "kend s \<noteq> 0 \<Longrightarrow> kfree s pa =
     (if valid_page s pa
      then Ok (s\<lparr>pm := st64 (memset (pm s) pa 1 4096) pa (freelist s), freelist := pa\<rparr>)
      else Panic ''kfree'')"
  by (auto simp: kfree_def valid_page_def aligned_mod_PGSIZE not_less not_le)

lemma ld64_cong:
  assumes "aligned p" "j < 512" "\<And>x. pgof x = p \<Longrightarrow> m x = m' x"
  shows "ld64 m (p + of_nat (8 * j)) = ld64 m' (p + of_nat (8 * j))"
proof -
  have "ld 8 m (p + of_nat (8 * j)) = ld 8 m' (p + of_nat (8 * j))"
  proof (rule ld_cong)
    fix i :: nat assume "i < 8"
    then have "pgof (p + of_nat (8 * j + i)) = p" using assms by (intro pgof_add) auto
    then show "m (p + of_nat (8 * j) + of_nat i) = m' (p + of_nat (8 * j) + of_nat i)"
      using assms(3) by (simp add: add.assoc)
  qed
  then show ?thesis by (simp add: ld64_def)
qed

lemma ld64_page_cong:
  assumes "aligned p" "\<And>x. pgof x = p \<Longrightarrow> m x = m' x"
  shows "ld64 m p = ld64 m' p"
  using ld64_cong [of p 0 m m'] assms by simp

lemma free_list_cong:
  assumes "\<And>p. p \<in> set ps \<Longrightarrow> aligned p"
    and "\<And>x. pgof x \<in> set ps \<Longrightarrow> m x = m' x"
  shows "free_list m r ps \<longleftrightarrow> free_list m' r ps"
  using assms
proof (induction ps arbitrary: r)
  case Nil
  then show ?case by simp
next
  case (Cons p ps)
  have "ld64 m p = ld64 m' p" using Cons.prems by (intro ld64_page_cong) auto
  moreover have "free_list m r ps \<longleftrightarrow> free_list m' r ps" for r
    using Cons.prems by (intro Cons.IH) auto
  ultimately show ?case by simp
qed

lemma valid_page_simps [simp]:
  "valid_page (s\<lparr>pm := m\<rparr>) p = valid_page s p"
  "valid_page (s\<lparr>freelist := r\<rparr>) p = valid_page s p"
  by (simp_all add: valid_page_def)

text \<open>The only bytes \<open>st64\<close> and \<open>memset\<close> of a page change are that page's.\<close>

lemma st64_other_page:
  assumes "aligned p" "j < 512" "pgof x \<noteq> p"
  shows "st64 m (p + of_nat (8 * j)) v x = m x"
proof -
  let ?a = "p + of_nat (8 * j)"
  have "8 \<le> unat (x - ?a)"
  proof (rule ccontr)
    assume "\<not> 8 \<le> unat (x - ?a)"
    then have "8 * j + unat (x - ?a) < 4096" using assms(2) by simp
    then have "pgof (p + of_nat (8 * j + unat (x - ?a))) = p" by (rule pgof_add [OF assms(1)])
    then have "pgof x = p" by simp
    with assms(3) show False ..
  qed
  then show ?thesis by (simp only: st64_def st_outside)
qed

lemma st64_base_other_page: "aligned p \<Longrightarrow> pgof x \<noteq> p \<Longrightarrow> st64 m p v x = m x"
  using st64_other_page [of p 0 x m v] by simp

lemma ld64_st64_other_page:
  "aligned p \<Longrightarrow> aligned q \<Longrightarrow> p \<noteq> q \<Longrightarrow> ld64 (st64 m p v) q = ld64 m q"
  by (rule ld64_page_cong) (auto simp: st64_base_other_page)

section \<open>What the routines do\<close>

lemma kalloc_empty: "kmem_inv s [] \<Longrightarrow> kalloc s = (0, s)"
  by (simp add: kmem_inv_def kalloc_def)

lemma kalloc_Cons:
  assumes "kmem_inv s (p # ps)"
  shows "kalloc s = (p, s\<lparr>pm := memset (pm s) p 5 4096, freelist := ld64 (pm s) p\<rparr>)"
  using assms by (auto simp: kmem_inv_def kalloc_def Let_def)

lemma kalloc_inv:
  assumes "kmem_inv s (p # ps)"
  shows "kmem_inv (snd (kalloc s)) ps"
proof -
  have al: "aligned q" if "q \<in> set (p # ps)" for q
    using assms that by (auto simp: kmem_inv_def valid_page_def)
  have "free_list (pm s) (ld64 (pm s) p) ps" "p \<notin> set ps"
    using assms by (auto simp: kmem_inv_def)
  moreover have "memset (pm s) p 5 4096 x = pm s x" if "pgof x \<in> set ps" for x
    using that al [of p] \<open>p \<notin> set ps\<close> by (auto simp: memset_page)
  ultimately have "free_list (memset (pm s) p 5 4096) (ld64 (pm s) p) ps"
    using free_list_cong [of ps "memset (pm s) p 5 4096" "pm s"] al by auto
  then show ?thesis
    using assms by (simp add: kalloc_Cons) (simp add: kmem_inv_def valid_page_def)
qed

lemma kalloc_mem:
  assumes "kmem_inv s ps" "kalloc s = (p, s')" "p \<noteq> 0"
  shows "pm s' x = (if pgof x = p then 5 else pm s x)"
proof (cases ps)
  case Nil
  with assms show ?thesis by (simp add: kalloc_empty)
next
  case (Cons q qs)
  with assms have "p = q" and s': "s' = s\<lparr>pm := memset (pm s) p 5 4096, freelist := ld64 (pm s) p\<rparr>"
    by (auto simp: kalloc_Cons)
  moreover have "aligned p"
    using assms(1) Cons \<open>p = q\<close> by (auto simp: kmem_inv_def valid_page_def)
  ultimately show ?thesis by (simp add: memset_page)
qed

lemma kfree_inv:
  assumes "kmem_inv s ps" "valid_page s p" "p \<notin> set ps"
  shows "\<exists>s'. kfree s p = Ok s' \<and> kmem_inv s' (p # ps) \<and> kend s' = kend s \<and>
     (\<forall>x. pgof x \<noteq> p \<longrightarrow> pm s' x = pm s x)"
proof -
  let ?m = "st64 (memset (pm s) p 1 4096) p (freelist s)"
  have al: "aligned p" "\<And>q. q \<in> set ps \<Longrightarrow> aligned q"
    using assms by (auto simp: kmem_inv_def valid_page_def)
  have frame: "?m x = pm s x" if "pgof x \<noteq> p" for x
    using that al by (simp add: st64_base_other_page memset_page)
  have "free_list ?m (freelist s) ps \<longleftrightarrow> free_list (pm s) (freelist s) ps"
  proof (rule free_list_cong)
    show "?m x = pm s x" if "pgof x \<in> set ps" for x
      using that assms(3) by (intro frame) auto
  qed (rule al)
  then show ?thesis
    using assms frame
    by (auto simp: kfree_eq kmem_inv_def valid_page_def)
qed

lemma kfree_invalid: "kend s \<noteq> 0 \<Longrightarrow> \<not> valid_page s p \<Longrightarrow> kfree s p = Panic ''kfree''"
  by (simp add: kfree_eq)

lemma memfree_loop_eq:
  assumes "free_list m r ps"
  shows "memfree_loop m r c = Some (c + 4096 * of_nat (length ps))"
  using assms
proof (induction ps arbitrary: r c)
  case Nil
  then show ?case by (subst memfree_loop.simps) simp
next
  case (Cons p ps)
  then show ?case
    by (subst memfree_loop.simps) (simp add: PGSIZE_def algebra_simps)
qed

section \<open>The interface of the allocator\<close>

text \<open>
  What the clients of the allocator (page tables, processes, pipes) rely on, over the set
  \<open>F\<close> of free pages: an allocation takes one page out of \<open>F\<close> and writes nothing outside
  it, freeing puts one back.
\<close>

locale page_allocator =
  fixes alloc :: "'s \<Rightarrow> u64 \<times> 's"
    and free :: "'s \<Rightarrow> u64 \<Rightarrow> 's res"
    and mem :: "'s \<Rightarrow> mem"
    and page_ok :: "'s \<Rightarrow> u64 \<Rightarrow> bool"
    and inv :: "'s \<Rightarrow> u64 set \<Rightarrow> bool"
  assumes alloc_none: "inv s {} \<Longrightarrow> alloc s = (0, s)"
    and alloc_some: "inv s F \<Longrightarrow> F \<noteq> {} \<Longrightarrow> \<exists>p s'. alloc s = (p, s') \<and> p \<in> F \<and>
      inv s' (F - {p}) \<and> page_ok s' = page_ok s \<and> (\<forall>x. pgof x \<noteq> p \<longrightarrow> mem s' x = mem s x)"
    and free_some: "inv s F \<Longrightarrow> page_ok s p \<Longrightarrow> p \<notin> F \<Longrightarrow> \<exists>s'. free s p = Ok s' \<and>
      inv s' (insert p F) \<and> page_ok s' = page_ok s \<and> (\<forall>x. pgof x \<noteq> p \<longrightarrow> mem s' x = mem s x)"
    and page_inv: "inv s F \<Longrightarrow> p \<in> F \<Longrightarrow> page_ok s p"
    and page_nonzero: "page_ok s p \<Longrightarrow> p \<noteq> 0 \<and> aligned p"
    and free_finite: "inv s F \<Longrightarrow> finite F"
begin

lemma alloc_cases:
  assumes "inv s F" "alloc s = (p, s')"
  shows "p = 0 \<and> F = {} \<and> s' = s \<or>
    p \<noteq> 0 \<and> aligned p \<and> page_ok s p \<and> p \<in> F \<and> inv s' (F - {p}) \<and> page_ok s' = page_ok s \<and>
    (\<forall>x. pgof x \<noteq> p \<longrightarrow> mem s' x = mem s x)"
proof (cases "F = {}")
  case True
  with assms alloc_none show ?thesis by auto
next
  case False
  from alloc_some [OF assms(1) False] assms
  have "p \<in> F" "inv s' (F - {p})" "page_ok s' = page_ok s" "\<forall>x. pgof x \<noteq> p \<longrightarrow> mem s' x = mem s x"
    by auto
  moreover from this have "page_ok s p" using page_inv assms(1) by blast
  ultimately show ?thesis using page_nonzero by blast
qed

lemma alloc_zero_iff: "inv s F \<Longrightarrow> fst (alloc s) = 0 \<longleftrightarrow> F = {}"
  using alloc_cases [of s F "fst (alloc s)" "snd (alloc s)"] by auto

text \<open>An allocated page can be freed, and that restores the set of free pages.\<close>

lemma alloc_free:
  assumes "inv s F" "alloc s = (p, s')" "p \<noteq> 0"
  shows "\<exists>s''. free s' p = Ok s'' \<and> inv s'' F"
proof -
  from alloc_cases [OF assms(1,2)] assms(3)
  have p: "p \<in> F" "inv s' (F - {p})" "page_ok s' p" by auto
  from free_some [OF p(2,3)] obtain s'' where "free s' p = Ok s''" "inv s'' (insert p (F - {p}))"
    by auto
  with p(1) show ?thesis by (auto simp: insert_absorb)
qed

end

definition kinv :: "machine \<Rightarrow> u64 set \<Rightarrow> bool" where
  "kinv s F \<longleftrightarrow> (\<exists>ps. kmem_inv s ps \<and> set ps = F)"

interpretation kmem: page_allocator kalloc kfree pm valid_page kinv
proof unfold_locales
  fix s F assume "kinv s F" and ne: "F \<noteq> {}"
  then obtain p ps where inv: "kmem_inv s (p # ps)" and F: "F = set (p # ps)"
    unfolding kinv_def by (metis list.set_cases list.set(1) neq_Nil_conv)
  obtain s' where k: "kalloc s = (p, s')" and s': "kmem_inv s' ps" "kend s' = kend s"
    using kalloc_Cons [OF inv] kalloc_inv [OF inv] by auto
  have "p \<notin> set ps" "p \<noteq> 0" using inv by (auto simp: kmem_inv_def)
  then have "kinv s' (F - {p})" using s' F by (auto simp: kinv_def)
  moreover have "\<forall>x. pgof x \<noteq> p \<longrightarrow> pm s' x = pm s x"
    using kalloc_mem [OF inv k] \<open>p \<noteq> 0\<close> by simp
  ultimately show "\<exists>p s'. kalloc s = (p, s') \<and> p \<in> F \<and> kinv s' (F - {p}) \<and>
      valid_page s' = valid_page s \<and> (\<forall>x. pgof x \<noteq> p \<longrightarrow> pm s' x = pm s x)"
    using k F s'(2) by (auto simp: valid_page_def fun_eq_iff)
next
  fix s F p assume "kinv s F" "valid_page s p" "p \<notin> F"
  then obtain ps s' where "set ps = F" "kfree s p = Ok s'" "kmem_inv s' (p # ps)" "kend s' = kend s"
      "\<forall>x. pgof x \<noteq> p \<longrightarrow> pm s' x = pm s x"
    using kfree_inv unfolding kinv_def by blast
  then show "\<exists>s'. kfree s p = Ok s' \<and> kinv s' (insert p F) \<and> valid_page s' = valid_page s \<and>
      (\<forall>x. pgof x \<noteq> p \<longrightarrow> pm s' x = pm s x)"
    by (auto simp: kinv_def valid_page_def fun_eq_iff intro!: exI [of _ "p # ps"])
qed (auto simp: kinv_def kalloc_empty kmem_inv_def valid_page_def)

section \<open>Initialisation\<close>

lemma unat_PHYSTOP: "unat PHYSTOP = 2281701376"
  by (simp add: PHYSTOP_def KERNBASE_def)

lemma aligned_PHYSTOP [simp]: "aligned PHYSTOP"
  by (simp add: aligned_def unat_PHYSTOP)

lemma unat_add_PGSIZE: "p < PHYSTOP \<Longrightarrow> unat (p + PGSIZE) = unat p + 4096"
  by (simp add: word_less_nat_alt unat_PHYSTOP unat_word_ariths)

lemma aligned_le_iff:
  assumes "aligned p" "aligned q"
  shows "unat p < unat q \<longleftrightarrow> unat p + 4096 \<le> unat q"
proof -
  obtain k l where "unat p = 4096 * k" "unat q = 4096 * l"
    using alignedE assms by metis
  then show ?thesis by auto
qed

lemma freerange_loop_inv:
  assumes "kinv s F" "aligned p" "kend s \<le> p" "p \<le> PHYSTOP" "p \<noteq> 0" "\<forall>q \<in> F. q < p"
  shows "\<exists>s'. freerange_loop s p PHYSTOP = Ok s' \<and> kend s' = kend s \<and>
    kinv s' (F \<union> {q. aligned q \<and> p \<le> q \<and> q < PHYSTOP})"
  using assms
proof (induction s p PHYSTOP arbitrary: F rule: freerange_loop.induct)
  case (1 s p)
  show ?case
  proof (cases "p < PHYSTOP")
    case True
    then have up: "unat (p + PGSIZE) = unat p + 4096" by (rule unat_add_PGSIZE)
    have al: "aligned (p + PGSIZE)" using \<open>aligned p\<close> unfolding aligned_def up by simp
    have step: "p + PGSIZE \<le> PHYSTOP"
      using True aligned_le_iff [of p PHYSTOP] \<open>aligned p\<close>
      by (simp add: word_le_nat_alt word_less_nat_alt up)
    have v: "valid_page s p" using "1.prems" True by (simp add: valid_page_def)
    from kmem.free_some [OF \<open>kinv s F\<close> v] "1.prems"(6)
    obtain s1 where s1: "kfree s p = Ok s1" "kinv s1 (insert p F)" "valid_page s1 = valid_page s"
      by blast
    then have ke: "kend s1 = kend s" by (auto simp: kfree_def split: if_splits)
    have lt: "p < p + PGSIZE" by (simp add: word_less_nat_alt up)
    have "\<exists>s'. freerange_loop s1 (p + PGSIZE) PHYSTOP = Ok s' \<and> kend s' = kend s1 \<and>
        kinv s' (insert p F \<union> {q. aligned q \<and> p + PGSIZE \<le> q \<and> q < PHYSTOP})"
    proof (rule "1.hyps" [OF step s1(1,2) al _ step])
      show "kend s1 \<le> p + PGSIZE" using ke lt \<open>kend s \<le> p\<close> by simp
      show "p + PGSIZE \<noteq> 0" using up by (metis add_is_0 unat_0 zero_neq_numeral)
      show "\<forall>q\<in>insert p F. q < p + PGSIZE" using lt "1.prems"(6) by (auto dest: order.strict_trans)
    qed
    moreover have "insert p F \<union> {q. aligned q \<and> p + PGSIZE \<le> q \<and> q < PHYSTOP} =
        F \<union> {q. aligned q \<and> p \<le> q \<and> q < PHYSTOP}"
      using True \<open>aligned p\<close> lt aligned_le_iff [of p]
      by (auto simp: word_le_nat_alt word_less_nat_alt up le_less word_unat_eq_iff)
    ultimately show ?thesis using step s1(1) ke by (simp add: freerange_loop.simps [of s p])
  next
    case False
    with \<open>p \<le> PHYSTOP\<close> have "p = PHYSTOP" by simp
    then have "\<not> p + PGSIZE \<le> PHYSTOP" by (simp add: PGSIZE_def PHYSTOP_def KERNBASE_def)
    moreover have "F \<union> {q. aligned q \<and> p \<le> q \<and> q < PHYSTOP} = F" using \<open>p = PHYSTOP\<close> by auto
    ultimately show ?thesis using \<open>kinv s F\<close> by (simp add: freerange_loop.simps [of s p])
  qed
qed

lemma PGROUNDUP_eq: "PGROUNDUP sz = pgof (sz + 4095)"
  by (simp add: PGROUNDUP_def pgof_def PGSIZE_def add_diff_eq [symmetric])

lemma unat_PGROUNDUP:
  assumes "unat sz + 4095 < 2 ^ 64"
  shows "unat (PGROUNDUP sz) = (unat sz + 4095) div 4096 * 4096"
  using assms by (simp add: PGROUNDUP_eq unat_pgof unat_word_ariths)

text \<open>C8: \<open>kinit\<close> on a kernel image that ends inside RAM never panics and leaves exactly the
  page-aligned addresses from \<^verbatim>\<open>end\<close> up to \<^verbatim>\<open>PHYSTOP\<close> free.
\<close>

theorem kinit_frees_all_pages:
  assumes "freelist s = 0" "kend s \<noteq> 0" "kend s \<le> PHYSTOP"
  shows "\<exists>s'. kinit s = Ok s' \<and> kinv s' {q. aligned q \<and> kend s \<le> q \<and> q < PHYSTOP}"
proof -
  let ?p = "PGROUNDUP (kend s)"
  have bound: "unat (kend s) + 4095 < 2 ^ 64"
    using assms(3) by (simp add: word_le_nat_alt unat_PHYSTOP)
  note up = unat_PGROUNDUP [OF bound]
  have al: "aligned ?p" by (simp add: PGROUNDUP_eq)
  have lo: "unat (kend s) \<le> unat ?p" unfolding up by linarith
  have le: "unat ?p \<le> unat PHYSTOP"
  proof -
    have "(unat (kend s) + 4095) div 4096 \<le> (2281701376 + 4095) div 4096"
      using assms(3) by (intro div_le_mono) (simp add: word_le_nat_alt unat_PHYSTOP)
    then show ?thesis unfolding up unat_PHYSTOP by simp
  qed
  have "kinv s {}" using assms by (auto simp: kinv_def kmem_inv_def intro!: exI [of _ "[]"])
  moreover have "?p \<noteq> 0" using lo assms(2) by (metis le_zero_eq unat_0 unat_eq_zero)
  ultimately obtain s' where s': "kinit s = Ok s'"
      "kinv s' {q. aligned q \<and> ?p \<le> q \<and> q < PHYSTOP}"
    using freerange_loop_inv [of s "{}" ?p] al lo le
    by (auto simp: kinit_def freerange_def word_le_nat_alt)
  have "?p \<le> q \<longleftrightarrow> kend s \<le> q" if q: "aligned q" for q
  proof -
    obtain k where "unat q = 4096 * k" using alignedE [OF q] .
    moreover have "(n + 4095) div 4096 \<le> k \<longleftrightarrow> n \<le> 4096 * k" for n
      by (subst less_Suc_eq_le [symmetric], subst div_less_iff_less_mult) auto
    ultimately show ?thesis unfolding word_le_nat_alt up by simp
  qed
  then have "{q. aligned q \<and> ?p \<le> q \<and> q < PHYSTOP} = {q. aligned q \<and> kend s \<le> q \<and> q < PHYSTOP}"
    by auto
  with s' show ?thesis by simp
qed


lemma kinit_frees_all_pages_witness:
  "\<exists>s'. kinit \<lparr>pm = (\<lambda>_. 0), freelist = 0, kend = 0x80021000\<rparr> = Ok s' \<and>
     kinv s' {q. aligned q \<and> 0x80021000 \<le> q \<and> q < PHYSTOP}"
  using kinit_frees_all_pages [of "\<lparr>pm = (\<lambda>_. 0), freelist = 0, kend = 0x80021000\<rparr>"]
  by (simp add: PHYSTOP_def KERNBASE_def)

text \<open>C9: \<open>memfree\<close> walks the free list to its end and returns 4096 times its length: the
  number that \<^verbatim>\<open>sysinfo\<close> reports as free memory.
\<close>

theorem memfree_counts_pages:
  assumes "kinv s F"
  shows "memfree s = Some (4096 * of_nat (card F))"
proof -
  from assms obtain ps where "free_list (pm s) (freelist s) ps" "distinct ps" "set ps = F"
    by (auto simp: kinv_def kmem_inv_def)
  moreover from this have "length ps = card F" by (auto simp: distinct_card)
  ultimately show ?thesis by (simp add: memfree_def memfree_loop_eq)
qed

definition two_pages :: machine where
  "two_pages = \<lparr>pm = st64 (st64 (\<lambda>_. 0) 0x80022000 0) 0x80021000 0x80022000,
     freelist = 0x80021000, kend = 0x80021000\<rparr>"

lemma two_pages_inv: "kinv two_pages {0x80021000, 0x80022000}"
proof -
  have "ld64 (pm two_pages) 0x80022000 = 0"
    by (simp add: two_pages_def ld64_st64_other_page aligned_def)
  moreover have "ld64 (pm two_pages) 0x80021000 = 0x80022000"
    by (simp add: two_pages_def)
  ultimately have "kmem_inv two_pages [0x80021000, 0x80022000]"
    by (simp add: kmem_inv_def valid_page_def aligned_def two_pages_def PHYSTOP_def KERNBASE_def)
  then show ?thesis by (auto simp: kinv_def)
qed


lemma memfree_counts_pages_witness:
  "kinv two_pages {0x80021000, 0x80022000} \<and> memfree two_pages = Some 8192"
  using memfree_counts_pages [OF two_pages_inv] two_pages_inv by simp

section \<open>The allocator under use\<close>

text \<open>
  Everything the kernel does with the allocator: it allocates, it writes to pages it
  holds, it frees pages it holds. \<open>held\<close> is the set of pages handed out.
\<close>

inductive kmem_reach :: "machine \<Rightarrow> machine \<Rightarrow> u64 set \<Rightarrow> bool" for s0 where
  k_start: "kmem_reach s0 s0 {}"
| k_alloc: "kmem_reach s0 s held \<Longrightarrow> kalloc s = (p, s') \<Longrightarrow> p \<noteq> 0 \<Longrightarrow>
    kmem_reach s0 s' (insert p held)"
| k_write: "kmem_reach s0 s held \<Longrightarrow> (\<And>x. pgof x \<notin> held \<Longrightarrow> m x = pm s x) \<Longrightarrow>
    kmem_reach s0 (s\<lparr>pm := m\<rparr>) held"
| k_free: "kmem_reach s0 s held \<Longrightarrow> p \<in> held \<Longrightarrow> kfree s p = Ok s' \<Longrightarrow>
    kmem_reach s0 s' (held - {p})"

lemma kinv_frame:
  assumes "kinv s F" "\<And>x. pgof x \<in> F \<Longrightarrow> m x = pm s x"
  shows "kinv (s\<lparr>pm := m\<rparr>) F"
proof -
  obtain ps where ps: "kmem_inv s ps" "set ps = F" using assms(1) by (auto simp: kinv_def)
  then have "free_list m (freelist s) ps \<longleftrightarrow> free_list (pm s) (freelist s) ps"
    using assms(2) by (intro free_list_cong) (auto simp: kmem_inv_def valid_page_def)
  with ps have "kmem_inv (s\<lparr>pm := m\<rparr>) ps" by (simp add: kmem_inv_def)
  with ps(2) show ?thesis by (auto simp: kinv_def)
qed

lemma kmem_reach_inv:
  assumes "kmem_reach s0 s held" "kinv s0 F"
  shows "held \<subseteq> F \<and> kinv s (F - held) \<and> valid_page s = valid_page s0"
  using assms
proof (induction rule: kmem_reach.induct)
  case k_start
  then show ?case by simp
next
  case (k_alloc s held p s')
  then have IH: "held \<subseteq> F" "kinv s (F - held)" "valid_page s = valid_page s0" by auto
  from kmem.alloc_cases [OF IH(2) k_alloc.hyps(2)] k_alloc.hyps(3)
  have p: "p \<in> F - held" "kinv s' (F - held - {p})" "valid_page s' = valid_page s" by auto
  moreover have "F - held - {p} = F - insert p held" by auto
  ultimately show ?case using IH by auto
next
  case (k_write s held m)
  then have "kinv s (F - held)" by auto
  then have "kinv (s\<lparr>pm := m\<rparr>) (F - held)" by (rule kinv_frame) (use k_write.hyps in auto)
  with k_write show ?case by (auto simp: valid_page_def fun_eq_iff)
next
  case (k_free s held p s')
  then have IH: "held \<subseteq> F" "kinv s (F - held)" "valid_page s = valid_page s0" by auto
  have "valid_page s p" using IH k_free.hyps(2) k_free.prems kmem.page_inv by auto
  from kmem.free_some [OF IH(2) this] k_free.hyps
  have "kinv s' (insert p (F - held))" "valid_page s' = valid_page s" by auto
  moreover have "insert p (F - held) = F - (held - {p})" using k_free.hyps(2) IH(1) by auto
  ultimately show ?case using IH by auto
qed

text \<open>C1: However the kernel interleaves allocation, use and freeing of pages, no page is lost
  and none is ever both handed out and free: the free list holds exactly the pages not
  handed out, the next \<open>kalloc\<close> returns a page that nobody holds (or 0 when every page
  is held), and \<open>kfree\<close> of a held page does not panic.
\<close>

theorem kmem_no_page_lost_or_shared:
  assumes "kinv s0 F" "kmem_reach s0 s held"
  shows "held \<subseteq> F \<and> kinv s (F - held) \<and>
    (fst (kalloc s) = 0 \<longleftrightarrow> held = F) \<and> fst (kalloc s) \<notin> held \<and>
    (\<forall>p \<in> held. \<exists>s'. kfree s p = Ok s')"
proof -
  from kmem_reach_inv [OF assms(2,1)]
  have inv: "held \<subseteq> F" "kinv s (F - held)" "valid_page s = valid_page s0" by auto
  have "0 \<notin> F" using assms(1) kmem.page_inv kmem.page_nonzero by blast
  then have "fst (kalloc s) \<notin> held"
    using kmem.alloc_cases [OF inv(2), of "fst (kalloc s)" "snd (kalloc s)"] inv(1) by auto
  moreover have "\<exists>s'. kfree s p = Ok s'" if "p \<in> held" for p
  proof -
    have "valid_page s p" using that inv assms(1) kmem.page_inv by auto
    from kmem.free_some [OF inv(2) this] that show ?thesis by auto
  qed
  ultimately show ?thesis using inv kmem.alloc_zero_iff [OF inv(2)] by auto
qed

lemma kmem_no_page_lost_or_shared_witness:
  "\<exists>s. kmem_reach two_pages s {0x80021000} \<and> kinv s {0x80022000} \<and> fst (kalloc s) \<noteq> 0"
proof -
  obtain s where s: "kalloc two_pages = (0x80021000, s)"
    by (simp add: kalloc_def two_pages_def)
  have r: "kmem_reach two_pages s (insert 0x80021000 {})"
    by (rule kmem_reach.k_alloc [OF kmem_reach.k_start s]) simp
  have "{0x80021000, 0x80022000} - {0x80021000 :: u64} = {0x80022000}" by auto
  with kmem_no_page_lost_or_shared [OF two_pages_inv r] r show ?thesis by auto
qed

end
