(* ===== verification/Vm.thy ===== *)
theory Vm
  imports Kalloc
begin

text \<open>
  \<^verbatim>\<open>kernel/vm.c\<close> and the paging macros of \<^verbatim>\<open>kernel/riscv.h\<close>: Sv39 page tables, kept
  where the hardware reads them, in pages of physical memory. This theory holds the
  routines; \<open>Vm_Walk\<close> and \<open>Vm_User\<close> prove what they do. A function that the C code
  declares \<^verbatim>\<open>int\<close> returns an \<open>int\<close>, a pointer result is an address with 0 for null.
\<close>

section \<open>Page table entries\<close>

definition PTE_V :: u64 where "PTE_V = push_bit 0 1"
definition PTE_R :: u64 where "PTE_R = push_bit 1 1"
definition PTE_W :: u64 where "PTE_W = push_bit 2 1"
definition PTE_X :: u64 where "PTE_X = push_bit 3 1"
definition PTE_U :: u64 where "PTE_U = push_bit 4 1"

definition PA2PTE :: "u64 \<Rightarrow> u64" where
  "PA2PTE pa = push_bit 10 (drop_bit 12 pa)"

definition PTE2PA :: "u64 \<Rightarrow> u64" where
  "PTE2PA pte = push_bit 12 (drop_bit 10 pte)"

definition PTE_FLAGS :: "u64 \<Rightarrow> u64" where
  "PTE_FLAGS pte = pte AND 0x3FF"

definition PX :: "nat \<Rightarrow> u64 \<Rightarrow> u64" where
  "PX level va = drop_bit (12 + 9 * level) va AND 0x1FF"

definition MAXVA :: u64 where
  "MAXVA = push_bit (9 + 9 + 9 + 12 - 1) 1"

definition TRAMPOLINE :: u64 where "TRAMPOLINE = MAXVA - PGSIZE"

definition TRAPFRAME :: u64 where "TRAPFRAME = TRAMPOLINE - PGSIZE"

definition KSTACK :: "nat \<Rightarrow> u64" where
  "KSTACK p = TRAMPOLINE - (of_nat p + 1) * 2 * PGSIZE"

section \<open>Walking and changing a page table\<close>

fun walk_level :: "machine \<Rightarrow> u64 \<Rightarrow> u64 \<Rightarrow> bool \<Rightarrow> nat \<Rightarrow> u64 \<times> machine" where
  "walk_level s pagetable va alloc 0 = (pagetable + 8 * PX 0 va, s)"
| "walk_level s pagetable va alloc (Suc l) =
     (let pte = pagetable + 8 * PX (Suc l) va in
      if ld64 (pm s) pte AND PTE_V \<noteq> 0
      then walk_level s (PTE2PA (ld64 (pm s) pte)) va alloc l
      else if \<not> alloc then (0, s)
      else
        (let (np, s1) = kalloc s in
         if np = 0 then (0, s1)
         else walk_level
                (s1\<lparr>pm := st64 (memset (pm s1) np 0 (unat PGSIZE)) pte (PA2PTE np OR PTE_V)\<rparr>)
                np va alloc l))"

definition walk :: "machine \<Rightarrow> u64 \<Rightarrow> u64 \<Rightarrow> bool \<Rightarrow> (u64 \<times> machine) res" where
  "walk s pagetable va alloc =
     (if MAXVA \<le> va then Panic ''walk'' else Ok (walk_level s pagetable va alloc 2))"

definition walkaddr :: "machine \<Rightarrow> u64 \<Rightarrow> u64 \<Rightarrow> u64 res" where
  "walkaddr s pagetable va =
     (if MAXVA \<le> va then Ok 0
      else and_then (walk s pagetable va False) (\<lambda>(pte, s1).
        if pte = 0 then Ok 0
        else if ld64 (pm s1) pte AND PTE_V = 0 then Ok 0
        else if ld64 (pm s1) pte AND PTE_U = 0 then Ok 0
        else Ok (PTE2PA (ld64 (pm s1) pte))))"

lemma walk_Ok_below: "walk s pt va al = Ok r \<Longrightarrow> va < MAXVA"
  by (auto simp: walk_def split: if_splits)

lemma unat_MAXVA: "unat MAXVA = 2 ^ 38"
  by (simp add: MAXVA_def push_bit_eq_mult)

lemma unat_add_PGSIZE_va: "va < MAXVA \<Longrightarrow> unat (va + PGSIZE) = unat va + 4096"
  by (simp add: word_less_nat_alt unat_MAXVA unat_word_ariths)

text \<open>
  The loops over a range of addresses stop because \<open>walk\<close> panics at \<^verbatim>\<open>MAXVA\<close>.
\<close>

lemma va_step_decreases: "va < MAXVA \<Longrightarrow> unat MAXVA - unat (va + PGSIZE) < unat MAXVA - unat va"
  by (simp add: unat_add_PGSIZE_va word_less_nat_alt)

function mappages_loop :: "machine \<Rightarrow> u64 \<Rightarrow> u64 \<Rightarrow> u64 \<Rightarrow> u64 \<Rightarrow> u64 \<Rightarrow> (int \<times> machine) res" where
  "mappages_loop s pagetable a end_va pa perm =
     (case walk s pagetable a True of
        Panic e \<Rightarrow> Panic e
      | Ok (pte, s1) \<Rightarrow>
          if pte = 0 then Ok (-1, s1)
          else if ld64 (pm s1) pte AND PTE_V \<noteq> 0 then Panic ''mappages: remap''
          else
            (let s2 = s1\<lparr>pm := st64 (pm s1) pte (PA2PTE pa OR perm OR PTE_V)\<rparr> in
             if a = end_va then Ok (0, s2)
             else mappages_loop s2 pagetable (a + PGSIZE) end_va (pa + PGSIZE) perm))"
  by pat_completeness auto
termination
  by (relation "measure (\<lambda>(s, pt, a, l, pa, perm). unat MAXVA - unat a)")
    (auto dest!: walk_Ok_below intro: va_step_decreases)

definition mappages ::
  "machine \<Rightarrow> u64 \<Rightarrow> u64 \<Rightarrow> u64 \<Rightarrow> u64 \<Rightarrow> u64 \<Rightarrow> (int \<times> machine) res" where
  "mappages s pagetable va sz pa perm =
     (if va mod PGSIZE \<noteq> 0 then Panic ''mappages: va not aligned''
      else if sz mod PGSIZE \<noteq> 0 then Panic ''mappages: size not aligned''
      else if sz = 0 then Panic ''mappages: size''
      else mappages_loop s pagetable va (va + sz - PGSIZE) pa perm)"

definition kvmmap :: "machine \<Rightarrow> u64 \<Rightarrow> u64 \<Rightarrow> u64 \<Rightarrow> u64 \<Rightarrow> u64 \<Rightarrow> machine res" where
  "kvmmap s kpgtbl va pa sz perm =
     and_then (mappages s kpgtbl va sz pa perm) (\<lambda>(r, s1).
       if r \<noteq> 0 then Panic ''kvmmap'' else Ok s1)"

function uvmunmap_loop :: "machine \<Rightarrow> u64 \<Rightarrow> u64 \<Rightarrow> u64 \<Rightarrow> bool \<Rightarrow> machine res" where
  "uvmunmap_loop s pagetable a stop do_free =
     (if a < stop
      then (case walk s pagetable a False of
          Panic e \<Rightarrow> Panic e
        | Ok (pte, s1) \<Rightarrow>
            if pte = 0 then Panic ''uvmunmap: walk''
            else if ld64 (pm s1) pte AND PTE_V = 0 then Panic ''uvmunmap: not mapped''
            else if PTE_FLAGS (ld64 (pm s1) pte) = PTE_V then Panic ''uvmunmap: not a leaf''
            else (case (if do_free then kfree s1 (PTE2PA (ld64 (pm s1) pte)) else Ok s1) of
                Panic e \<Rightarrow> Panic e
              | Ok s2 \<Rightarrow>
                  uvmunmap_loop (s2\<lparr>pm := st64 (pm s2) pte 0\<rparr>) pagetable (a + PGSIZE) stop do_free))
      else Ok s)"
  by pat_completeness auto
termination
  by (relation "measure (\<lambda>(s, pt, a, e, f). unat MAXVA - unat a)")
    (auto dest!: walk_Ok_below intro: va_step_decreases)

definition uvmunmap :: "machine \<Rightarrow> u64 \<Rightarrow> u64 \<Rightarrow> u64 \<Rightarrow> bool \<Rightarrow> machine res" where
  "uvmunmap s pagetable va npages do_free =
     (if va mod PGSIZE \<noteq> 0 then Panic ''uvmunmap: not aligned''
      else uvmunmap_loop s pagetable va (va + npages * PGSIZE) do_free)"

section \<open>User address spaces\<close>

definition uvmcreate :: "machine \<Rightarrow> u64 \<times> machine" where
  "uvmcreate s =
     (let (pagetable, s1) = kalloc s in
      if pagetable = 0 then (0, s1)
      else (pagetable, s1\<lparr>pm := memset (pm s1) pagetable 0 (unat PGSIZE)\<rparr>))"

text \<open>
  A copy between kernel data and physical memory: \<open>write_bytes\<close> is \<^verbatim>\<open>memmove\<close> from a
  kernel buffer, \<open>read_bytes\<close> is \<^verbatim>\<open>memmove\<close> into one.
\<close>

primrec write_bytes :: "mem \<Rightarrow> u64 \<Rightarrow> u8 list \<Rightarrow> mem" where
  "write_bytes m a [] = m"
| "write_bytes m a (b # bs) = write_bytes (m(a := b)) (a + 1) bs"

primrec read_bytes :: "mem \<Rightarrow> u64 \<Rightarrow> nat \<Rightarrow> u8 list" where
  "read_bytes m a 0 = []"
| "read_bytes m a (Suc n) = m a # read_bytes m (a + 1) n"

definition uvmfirst :: "machine \<Rightarrow> u64 \<Rightarrow> u8 list \<Rightarrow> machine res" where
  "uvmfirst s pagetable src =
     (if length src \<ge> unat PGSIZE then Panic ''uvmfirst: more than a page''
      else (let (mem, s1) = kalloc s;
                s2 = s1\<lparr>pm := memset (pm s1) mem 0 (unat PGSIZE)\<rparr> in
        and_then (mappages s2 pagetable 0 PGSIZE mem (PTE_W OR PTE_R OR PTE_X OR PTE_U)) (\<lambda>(r, s3).
          Ok (s3\<lparr>pm := write_bytes (pm s3) mem src\<rparr>))))"

text \<open>A \<^verbatim>\<open>uint64\<close> kept in an \<^verbatim>\<open>int\<close> and passed on as a \<^verbatim>\<open>uint64\<close>.\<close>

definition through_int :: "u64 \<Rightarrow> u64" where
  "through_int x = scast (ucast x :: 32 word)"

definition uvmdealloc :: "machine \<Rightarrow> u64 \<Rightarrow> u64 \<Rightarrow> u64 \<Rightarrow> (u64 \<times> machine) res" where
  "uvmdealloc s pagetable oldsz newsz =
     (if newsz \<ge> oldsz then Ok (oldsz, s)
      else if PGROUNDUP newsz < PGROUNDUP oldsz
      then and_then
             (uvmunmap s pagetable (PGROUNDUP newsz)
               (through_int ((PGROUNDUP oldsz - PGROUNDUP newsz) div PGSIZE)) True)
             (\<lambda>s1. Ok (newsz, s1))
      else Ok (newsz, s))"

lemma mappages_Ok_below: "mappages s pt va sz pa perm = Ok r \<Longrightarrow> va < MAXVA"
  by (auto simp: mappages_def mappages_loop.simps split: if_splits res.splits dest: walk_Ok_below)

function uvmalloc_loop ::
  "machine \<Rightarrow> u64 \<Rightarrow> u64 \<Rightarrow> u64 \<Rightarrow> u64 \<Rightarrow> u64 \<Rightarrow> (u64 \<times> machine) res" where
  "uvmalloc_loop s pagetable oldsz a newsz xperm =
     (if a < newsz
      then (let (mem, s1) = kalloc s in
        if mem = 0
        then and_then (uvmdealloc s1 pagetable a oldsz) (\<lambda>(_, s2). Ok (0, s2))
        else (case mappages (s1\<lparr>pm := memset (pm s1) mem 0 (unat PGSIZE)\<rparr>) pagetable a PGSIZE mem
                     (PTE_R OR PTE_U OR xperm) of
            Panic e \<Rightarrow> Panic e
          | Ok (r, s2) \<Rightarrow>
              if r \<noteq> 0
              then and_then (kfree s2 mem) (\<lambda>s3.
                   and_then (uvmdealloc s3 pagetable a oldsz) (\<lambda>(_, s4). Ok (0, s4)))
              else uvmalloc_loop s2 pagetable oldsz (a + PGSIZE) newsz xperm))
      else Ok (newsz, s))"
  by pat_completeness auto
termination
  by (relation "measure (\<lambda>(s, pt, os, a, ns, x). unat MAXVA - unat a)")
    (auto dest!: mappages_Ok_below intro: va_step_decreases)

definition uvmalloc :: "machine \<Rightarrow> u64 \<Rightarrow> u64 \<Rightarrow> u64 \<Rightarrow> u64 \<Rightarrow> (u64 \<times> machine) res" where
  "uvmalloc s pagetable oldsz newsz xperm =
     (if newsz < oldsz then Ok (oldsz, s)
      else uvmalloc_loop s pagetable (PGROUNDUP oldsz) (PGROUNDUP oldsz) newsz xperm)"

text \<open>
  \<open>freewalk\<close> recurses into whatever the entries point to; \<open>fuel\<close> bounds the depth, and
  \<open>None\<close> is a recursion that goes deeper. Three levels are enough for every table that
  \<open>walk\<close> builds.
\<close>

fun freewalk :: "nat \<Rightarrow> machine \<Rightarrow> u64 \<Rightarrow> machine res option"
  and freewalk_entries :: "nat \<Rightarrow> machine \<Rightarrow> u64 \<Rightarrow> nat list \<Rightarrow> machine res option" where
  "freewalk 0 s pagetable = None"
| "freewalk (Suc fuel) s pagetable =
     (case freewalk_entries fuel s pagetable [0..<512] of
        None \<Rightarrow> None
      | Some (Panic e) \<Rightarrow> Some (Panic e)
      | Some (Ok s1) \<Rightarrow> Some (kfree s1 pagetable))"
| "freewalk_entries fuel s pagetable [] = Some (Ok s)"
| "freewalk_entries fuel s pagetable (i # is) =
     (let ea = pagetable + of_nat (8 * i); pte = ld64 (pm s) ea in
      if pte AND PTE_V \<noteq> 0 \<and> pte AND (PTE_R OR PTE_W OR PTE_X) = 0
      then (case freewalk fuel s (PTE2PA pte) of
          None \<Rightarrow> None
        | Some (Panic e) \<Rightarrow> Some (Panic e)
        | Some (Ok s1) \<Rightarrow> freewalk_entries fuel (s1\<lparr>pm := st64 (pm s1) ea 0\<rparr>) pagetable is)
      else if pte AND PTE_V \<noteq> 0 then Some (Panic ''freewalk: leaf'')
      else freewalk_entries fuel s pagetable is)"

definition uvmfree :: "nat \<Rightarrow> machine \<Rightarrow> u64 \<Rightarrow> u64 \<Rightarrow> machine res option" where
  "uvmfree fuel s pagetable sz =
     (if sz > 0
      then (case uvmunmap s pagetable 0 (PGROUNDUP sz div PGSIZE) True of
          Panic e \<Rightarrow> Some (Panic e)
        | Ok s1 \<Rightarrow> freewalk fuel s1 pagetable)
      else freewalk fuel s pagetable)"

function uvmcopy_loop :: "machine \<Rightarrow> u64 \<Rightarrow> u64 \<Rightarrow> u64 \<Rightarrow> u64 \<Rightarrow> (int \<times> machine) res" where
  "uvmcopy_loop s old new i sz =
     (if i < sz
      then (case walk s old i False of
          Panic e \<Rightarrow> Panic e
        | Ok (pte, s0) \<Rightarrow>
            if pte = 0 then Panic ''uvmcopy: pte should exist''
            else if ld64 (pm s0) pte AND PTE_V = 0 then Panic ''uvmcopy: page not present''
            else
              (let pa = PTE2PA (ld64 (pm s0) pte); flags = PTE_FLAGS (ld64 (pm s0) pte);
                   (mem, s1) = kalloc s0;
                   err = (\<lambda>s'. and_then (uvmunmap s' new 0 (i div PGSIZE) True) (\<lambda>s''. Ok (-1, s''))) in
               if mem = 0 then err s1
               else (case mappages (s1\<lparr>pm := memmove (pm s1) mem pa (unat PGSIZE)\<rparr>)
                            new i PGSIZE mem flags of
                   Panic e \<Rightarrow> Panic e
                 | Ok (r, s2) \<Rightarrow>
                     if r \<noteq> 0 then and_then (kfree s2 mem) err
                     else uvmcopy_loop s2 old new (i + PGSIZE) sz)))
      else Ok (0, s))"
  by pat_completeness auto
termination
  by (relation "measure (\<lambda>(s, old, new, i, sz). unat MAXVA - unat i)")
    (auto dest!: walk_Ok_below intro: va_step_decreases)

definition uvmcopy :: "machine \<Rightarrow> u64 \<Rightarrow> u64 \<Rightarrow> u64 \<Rightarrow> (int \<times> machine) res" where
  "uvmcopy s old new sz = uvmcopy_loop s old new 0 sz"

definition uvmclear :: "machine \<Rightarrow> u64 \<Rightarrow> u64 \<Rightarrow> machine res" where
  "uvmclear s pagetable va =
     and_then (walk s pagetable va False) (\<lambda>(pte, s1).
       if pte = 0 then Panic ''uvmclear''
       else Ok (s1\<lparr>pm := st64 (pm s1) pte (ld64 (pm s1) pte AND NOT PTE_U)\<rparr>))"

section \<open>Copies between kernel and user memory\<close>

lemma pgof_offset: "unat (x - pgof x) < 4096"
  using pgof_iff [of "pgof x" x] by simp

lemma PGROUNDDOWN_eq: "PGROUNDDOWN a = pgof a"
  by (simp add: PGROUNDDOWN_def pgof_def PGSIZE_def)

text \<open>
  \<open>chunk\<close> is \<^verbatim>\<open>n\<close> of the three copy loops: what is left of the page that holds the user
  address, and at most what is left to copy.
\<close>

definition chunk :: "u64 \<Rightarrow> nat \<Rightarrow> nat" where
  "chunk va len = min (unat (PGSIZE - (va - PGROUNDDOWN va))) len"

lemma chunk_pos: "0 < len \<Longrightarrow> 0 < chunk va len"
  using pgof_offset [of va]
  by (simp add: chunk_def PGROUNDDOWN_eq unat_sub word_le_nat_alt)

lemma chunk_le: "chunk va len \<le> len"
  by (simp add: chunk_def)

function copyout :: "machine \<Rightarrow> u64 \<Rightarrow> u64 \<Rightarrow> u8 list \<Rightarrow> (int \<times> machine) res" where
  "copyout s pagetable dstva src =
     (if src = [] then Ok (0, s)
      else
        (let va0 = PGROUNDDOWN dstva in
         if MAXVA \<le> va0 then Ok (-1, s)
         else (case walk s pagetable va0 False of
             Panic e \<Rightarrow> Panic e
           | Ok (pte, s1) \<Rightarrow>
               if pte = 0 \<or> ld64 (pm s1) pte AND PTE_V = 0 \<or> ld64 (pm s1) pte AND PTE_U = 0 \<or>
                  ld64 (pm s1) pte AND PTE_W = 0
               then Ok (-1, s1)
               else
                 (let pa0 = PTE2PA (ld64 (pm s1) pte); n = chunk dstva (length src) in
                  copyout (s1\<lparr>pm := write_bytes (pm s1) (pa0 + (dstva - va0)) (take n src)\<rparr>)
                    pagetable (va0 + PGSIZE) (drop n src)))))"
  by pat_completeness auto
termination
  by (relation "measure (\<lambda>(s, pt, va, src). length src)") (auto simp: chunk_pos)

text \<open>
  \<open>copyin\<close> returns the C result and the bytes it has stored at \<^verbatim>\<open>dst\<close> so far, which on
  failure are the ones before the first page that is not accessible.
\<close>

function copyin :: "machine \<Rightarrow> u64 \<Rightarrow> u64 \<Rightarrow> nat \<Rightarrow> (int \<times> u8 list) res" where
  "copyin s pagetable srcva len =
     (if len = 0 then Ok (0, [])
      else
        (let va0 = PGROUNDDOWN srcva in
         case walkaddr s pagetable va0 of
           Panic e \<Rightarrow> Panic e
         | Ok pa0 \<Rightarrow>
             if pa0 = 0 then Ok (-1, [])
             else
               (let n = chunk srcva len in
                and_then (copyin s pagetable (va0 + PGSIZE) (len - n)) (\<lambda>(r, bs).
                  Ok (r, read_bytes (pm s) (pa0 + (srcva - va0)) n @ bs)))))"
  by pat_completeness auto
termination
  by (relation "measure (\<lambda>(s, pt, va, len). len)") (auto simp: chunk_pos)

text \<open>
  The inner loop of \<open>copyinstr\<close>: copy up to \<open>n\<close> bytes or to a NUL, which is copied too;
  the flag is \<^verbatim>\<open>got_null\<close>.
\<close>

primrec copystr :: "mem \<Rightarrow> u64 \<Rightarrow> nat \<Rightarrow> bool \<times> u8 list" where
  "copystr m p 0 = (False, [])"
| "copystr m p (Suc n) =
     (if m p = 0 then (True, [0]) else (let (g, bs) = copystr m (p + 1) n in (g, m p # bs)))"

function copyinstr :: "machine \<Rightarrow> u64 \<Rightarrow> u64 \<Rightarrow> nat \<Rightarrow> (int \<times> u8 list) res" where
  "copyinstr s pagetable srcva maxlen =
     (if maxlen = 0 then Ok (-1, [])
      else
        (let va0 = PGROUNDDOWN srcva in
         case walkaddr s pagetable va0 of
           Panic e \<Rightarrow> Panic e
         | Ok pa0 \<Rightarrow>
             if pa0 = 0 then Ok (-1, [])
             else
               (let n = chunk srcva maxlen; (got_null, bs) = copystr (pm s) (pa0 + (srcva - va0)) n in
                if got_null then Ok (0, bs)
                else and_then (copyinstr s pagetable (va0 + PGSIZE) (maxlen - n)) (\<lambda>(r, bs').
                  Ok (r, bs @ bs')))))"
  by pat_completeness auto
termination
  by (relation "measure (\<lambda>(s, pt, va, m). m)") (auto simp: chunk_pos)

declare mappages_loop.simps [simp del] uvmunmap_loop.simps [simp del] uvmalloc_loop.simps [simp del]
  uvmcopy_loop.simps [simp del] copyout.simps [simp del] copyin.simps [simp del]
  copyinstr.simps [simp del]

end
