(* ===== verification/Vm_Walk.thy ===== *)
theory Vm_Walk
  imports Vm
begin

text \<open>
  What \<open>walk\<close> and \<open>mappages\<close> do to a page table. A table is seen as a partial map from
  virtual addresses to entries (\<open>pte_at\<close>); the invariant \<open>wf_table\<close> says that the pages
  that make up the table form a tree of pages that the allocator does not own.
\<close>

section \<open>Bit fields\<close>

lemma aligned_bit: "aligned a \<Longrightarrow> bit a n \<Longrightarrow> 12 \<le> n"
proof (rule ccontr)
  assume "aligned a" "bit a n" "\<not> 12 \<le> n"
  moreover from \<open>aligned a\<close> have "a = push_bit 12 (drop_bit 12 a)"
    using pgof_aligned pgof_push by metis
  ultimately show False by (metis bit_push_bit_iff)
qed

lemma aligned_push_12: "aligned (push_bit 12 (x :: u64))"
proof -
  have "pgof (push_bit 12 x) = push_bit 12 x"
    unfolding pgof_push by (rule bit_eqI) (auto simp: bit_simps)
  then show ?thesis by (metis aligned_pgof)
qed

lemma aligned_PTE2PA [simp]: "aligned (PTE2PA pte)"
  by (simp add: PTE2PA_def aligned_push_12)

definition flag_bits :: "u64 \<Rightarrow> bool" where
  "flag_bits f \<longleftrightarrow> PTE_FLAGS f = f"

lemma mask_10: "(0x3FF :: u64) = mask 10"
  by (simp add: mask_eq_exp_minus_1)

lemma flag_bits_bit: "flag_bits f \<Longrightarrow> bit f n \<Longrightarrow> n < 10"
  unfolding flag_bits_def PTE_FLAGS_def mask_10 by (metis bit_and_iff bit_mask_iff)

lemma PTE2PA_PA2PTE:
  assumes "aligned pa" "flag_bits f"
  shows "PTE2PA (PA2PTE pa OR f) = pa"
proof (rule bit_eqI)
  fix n assume "possible_bit TYPE(64 word) n"
  then have n: "n < 64" by simp
  show "bit (PTE2PA (PA2PTE pa OR f)) n \<longleftrightarrow> bit pa n"
  proof (cases "12 \<le> n")
    case True
    then obtain k where k: "n = 12 + k" using le_Suc_ex by blast
    have "\<not> bit f (10 + k)" using flag_bits_bit [OF assms(2)] by fastforce
    then show ?thesis using n k by (simp add: PTE2PA_def PA2PTE_def bit_simps)
  next
    case False
    then show ?thesis using aligned_bit [OF assms(1)] by (auto simp: PTE2PA_def bit_simps)
  qed
qed

lemma PTE_FLAGS_PA2PTE:
  assumes "flag_bits f"
  shows "PTE_FLAGS (PA2PTE pa OR f) = f"
proof (rule bit_eqI)
  fix n assume "possible_bit TYPE(64 word) n"
  then show "bit (PTE_FLAGS (PA2PTE pa OR f)) n \<longleftrightarrow> bit f n"
    using flag_bits_bit [OF assms]
    by (auto simp: PTE_FLAGS_def PA2PTE_def mask_10 bit_simps)
qed

lemma flag_bits_or: "flag_bits f \<Longrightarrow> flag_bits g \<Longrightarrow> flag_bits (f OR g)"
  unfolding flag_bits_def PTE_FLAGS_def by (simp add: bit.conj_disj_distrib2)

lemma flag_bits_consts [simp]:
  "flag_bits PTE_V" "flag_bits PTE_R" "flag_bits PTE_W" "flag_bits PTE_X" "flag_bits PTE_U"
  by (simp_all add: flag_bits_def PTE_FLAGS_def PTE_V_def PTE_R_def PTE_W_def PTE_X_def PTE_U_def)

lemma flag_bits_PTE_FLAGS [simp]: "flag_bits (PTE_FLAGS x)"
  by (simp add: flag_bits_def PTE_FLAGS_def)

text \<open>A one-bit flag is tested by \<open>x AND PTE_V \<noteq> 0\<close>.\<close>

lemma and_flag: "(x :: u64) AND push_bit k 1 \<noteq> 0 \<longleftrightarrow> bit x k \<and> k < 64"
proof -
  have "x AND push_bit k 1 = (if bit x k then push_bit k 1 else 0)"
    by (rule bit_eqI) (auto simp: bit_simps)
  then show ?thesis by auto
qed

lemma PTE_V_set [simp]: "(x OR PTE_V) AND PTE_V \<noteq> 0"
  unfolding PTE_V_def and_flag by (simp add: bit_simps)

lemma PTE_V_nonzero [simp]: "PTE_V \<noteq> 0"
  by (simp add: PTE_V_def)

section \<open>Virtual addresses as indices\<close>

definition pxn :: "nat \<Rightarrow> u64 \<Rightarrow> nat" where
  "pxn level va = unat (PX level va)"

lemma pxn_eq: "pxn level va = unat va div 2 ^ (12 + 9 * level) mod 512"
proof -
  have "(0x1FF :: u64) = mask 9" by (simp add: mask_eq_exp_minus_1)
  then have "PX level va = take_bit 9 (drop_bit (12 + 9 * level) va)"
    by (simp add: PX_def take_bit_eq_mask)
  then show ?thesis
    by (simp only: pxn_def unsigned_take_bit_eq unat_drop_bit_eq)
      (simp add: take_bit_eq_mod drop_bit_eq_div)
qed

lemma pxn_bound [simp]: "pxn level va < 512"
  by (simp add: pxn_eq)

definition ea :: "u64 \<Rightarrow> nat \<Rightarrow> u64" where
  "ea p i = p + of_nat (8 * i)"

lemma ea_PX: "p + 8 * PX level va = ea p (pxn level va)"
  by (simp add: ea_def pxn_def)

text \<open>Below \<^verbatim>\<open>MAXVA\<close> the three indices determine the page of the address.\<close>

lemma va_indices:
  assumes "va < MAXVA"
  shows "unat va div 4096 = pxn 0 va + 512 * pxn 1 va + 512 * 512 * pxn 2 va"
proof -
  let ?n = "unat va div 4096"
  have "unat va < 2 ^ 38" using assms by (simp add: word_less_nat_alt unat_MAXVA)
  then have "?n < 2 ^ 26" by simp
  then have n: "?n div 512 div 512 < 512" by simp
  have "pxn 0 va = ?n mod 512" "pxn 1 va = ?n div 512 mod 512" "pxn 2 va = ?n div 512 div 512 mod 512"
    by (simp_all add: pxn_eq div_mult2_eq [symmetric])
  moreover have "?n = 512 * (?n div 512) + ?n mod 512"
    "?n div 512 = 512 * (?n div 512 div 512) + ?n div 512 mod 512"
    by (rule mult_div_mod_eq [symmetric])+
  ultimately show ?thesis using n by (simp only: mod_less)
qed

lemma pgof_eq_iff: "pgof a = pgof b \<longleftrightarrow> unat a div 4096 = unat b div 4096"
  unfolding word_unat_eq_iff unat_pgof by simp

lemma same_page_iff:
  assumes "va < MAXVA" "vb < MAXVA"
  shows "pgof va = pgof vb \<longleftrightarrow> pxn 2 va = pxn 2 vb \<and> pxn 1 va = pxn 1 vb \<and> pxn 0 va = pxn 0 vb"
proof
  assume "pgof va = pgof vb"
  then have "unat va div 4096 = unat vb div 4096" by (simp add: pgof_eq_iff)
  then have "unat va div 4096 div 2 ^ (9 * l) = unat vb div 4096 div 2 ^ (9 * l)" for l by simp
  then have "pxn l va = pxn l vb" for l
    by (simp add: pxn_eq div_mult2_eq [symmetric] power_add)
  then show "pxn 2 va = pxn 2 vb \<and> pxn 1 va = pxn 1 vb \<and> pxn 0 va = pxn 0 vb" by simp
next
  assume "pxn 2 va = pxn 2 vb \<and> pxn 1 va = pxn 1 vb \<and> pxn 0 va = pxn 0 vb"
  then show "pgof va = pgof vb" using va_indices assms by (simp add: pgof_eq_iff)
qed

section \<open>Entries of a table page\<close>

lemma pgof_ea: "aligned p \<Longrightarrow> i < 512 \<Longrightarrow> pgof (ea p i) = p"
  unfolding ea_def by (rule pgof_add) auto

lemma ld64_ea_cong:
  "aligned p \<Longrightarrow> i < 512 \<Longrightarrow> (\<And>x. pgof x = p \<Longrightarrow> m x = m' x) \<Longrightarrow> ld64 m (ea p i) = ld64 m' (ea p i)"
  unfolding ea_def by (rule ld64_cong)

lemma st64_ea_other: "aligned p \<Longrightarrow> i < 512 \<Longrightarrow> pgof x \<noteq> p \<Longrightarrow> st64 m (ea p i) v x = m x"
  unfolding ea_def by (rule st64_other_page)

lemma ld64_st64_ea:
  assumes "aligned p" "aligned q" "i < 512" "j < 512"
  shows "ld64 (st64 m (ea q j) v) (ea p i) = (if p = q \<and> i = j then v else ld64 m (ea p i))"
proof (cases "p = q")
  case False
  have "ld64 (st64 m (ea q j) v) (ea p i) = ld64 m (ea p i)"
    by (rule ld64_ea_cong) (use assms False in \<open>auto simp: st64_ea_other\<close>)
  then show ?thesis using False by simp
next
  case True
  show ?thesis
  proof (cases "i = j")
    case True
    with \<open>p = q\<close> show ?thesis by simp
  next
    case False
    have "ld 8 (st 8 m (ea q j) (unat v)) (ea p i) = ld 8 m (ea p i)"
    proof (rule ld_st_disjoint)
      fix k :: nat assume k: "k < 8"
      let ?x = "of_nat (8 * i + k) :: u64" and ?y = "of_nat (8 * j) :: u64"
      have u: "unat ?x = 8 * i + k" "unat ?y = 8 * j" using assms k by (intro unat_of_nat_u64; simp)+
      have "8 * i + k < 4096" "8 * j < 4096" using assms k by auto
      moreover have "8 * j + 8 \<le> 8 * i + k \<or> 8 * i + k < 8 * j" using False k by auto
      ultimately have "8 \<le> unat (?x - ?y)"
        unfolding unat_sub_if' u by auto
      moreover have "ea p i + of_nat k - ea q j = ?x - ?y" using True by (simp add: ea_def)
      ultimately show "8 \<le> unat (ea p i + of_nat k - ea q j)" by (simp only:)
    qed
    then show ?thesis using True False by (simp add: ld64_def st64_def)
  qed
qed

section \<open>The tree of table pages\<close>

text \<open>
  \<open>node m p is\<close> follows the entries with indices \<open>is\<close> down from the table page \<open>p\<close>.
  The index list of an address has the level-2 and the level-1 index; the level-0 index
  selects the leaf entry in the page reached.
\<close>

fun node :: "mem \<Rightarrow> u64 \<Rightarrow> nat list \<Rightarrow> u64 option" where
  "node m p [] = Some p"
| "node m p (i # is) =
     (if ld64 m (ea p i) AND PTE_V \<noteq> 0 then node m (PTE2PA (ld64 m (ea p i))) is else None)"

primrec path :: "nat \<Rightarrow> u64 \<Rightarrow> nat list" where
  "path 0 va = []"
| "path (Suc l) va = pxn (Suc l) va # path l va"

definition idx_ok :: "nat list \<Rightarrow> bool" where
  "idx_ok is \<longleftrightarrow> length is \<le> 2 \<and> (\<forall>i \<in> set is. i < 512)"

definition table_pages :: "mem \<Rightarrow> u64 \<Rightarrow> u64 set" where
  "table_pages m pt = {p. \<exists>is. idx_ok is \<and> node m pt is = Some p}"

definition pte_at :: "mem \<Rightarrow> u64 \<Rightarrow> u64 \<Rightarrow> u64" where
  "pte_at m pt va =
     (case node m pt (path 2 va) of None \<Rightarrow> 0 | Some p \<Rightarrow> ld64 m (ea p (pxn 0 va)))"

definition wf_table :: "machine \<Rightarrow> u64 \<Rightarrow> u64 set \<Rightarrow> bool" where
  "wf_table s pt F \<longleftrightarrow>
     (\<forall>is js p. idx_ok is \<longrightarrow> idx_ok js \<longrightarrow> node (pm s) pt is = Some p \<longrightarrow>
        node (pm s) pt js = Some p \<longrightarrow> is = js) \<and>
     (\<forall>p \<in> table_pages (pm s) pt. valid_page s p \<and> p \<notin> F)"

lemma idx_ok_path [simp]: "idx_ok (path 2 va)"
  by (simp add: idx_ok_def numeral_2_eq_2)

lemma idx_ok_prefix: "idx_ok (xs @ ys) \<Longrightarrow> idx_ok xs"
  by (auto simp: idx_ok_def)

lemma wf_tableD:
  assumes "wf_table s pt F" "idx_ok is" "node (pm s) pt is = Some p"
  shows "valid_page s p" "p \<notin> F" "aligned p" "p \<noteq> 0" "p \<in> table_pages (pm s) pt"
  using assms by (auto simp: wf_table_def table_pages_def valid_page_def)

lemma wf_table_inj:
  assumes "wf_table s pt F" "idx_ok is" "idx_ok js"
    "node (pm s) pt is = Some p" "node (pm s) pt js = Some p"
  shows "is = js"
  using assms by (auto simp: wf_table_def)

lemma node_append: "node m p (is @ js) = Option.bind (node m p is) (\<lambda>q. node m q js)"
  by (induction "is" arbitrary: p) auto

lemma node_aligned: "aligned p \<Longrightarrow> node m p is = Some q \<Longrightarrow> aligned q"
  by (induction "is" arbitrary: p) (auto split: if_splits intro: aligned_PTE2PA)

lemma wf_table_root:
  assumes "wf_table s pt F"
  shows "valid_page s pt" "pt \<notin> F" "aligned pt" "pt \<noteq> 0"
  using wf_tableD [OF assms, of "[]" pt] by (simp_all add: idx_ok_def)

lemma node_cong:
  assumes "aligned p" "\<forall>i \<in> set is. i < 512"
    and "\<And>ks i rest q. is = ks @ i # rest \<Longrightarrow> node m p ks = Some q \<Longrightarrow>
      ld64 m' (ea q i) = ld64 m (ea q i)"
  shows "node m' p is = node m p is"
  using assms
proof (induction "is" arbitrary: p)
  case Nil
  then show ?case by simp
next
  case (Cons i "is")
  let ?e = "ld64 m (ea p i)"
  have e: "ld64 m' (ea p i) = ?e" using Cons.prems(3) [of "[]" i "is" p] by simp
  show ?case
  proof (cases "?e AND PTE_V = 0")
    case True
    with e show ?thesis by simp
  next
    case False
    have "node m' (PTE2PA ?e) is = node m (PTE2PA ?e) is"
    proof (rule Cons.IH)
      fix ks k rest q
      assume "is = ks @ k # rest" "node m (PTE2PA ?e) ks = Some q"
      then show "ld64 m' (ea q k) = ld64 m (ea q k)"
        using Cons.prems(3) [of "i # ks" k rest q] False by simp
    qed (use Cons.prems in auto)
    with e False show ?thesis by simp
  qed
qed

text \<open>Writes outside the pages of a table do not change it.\<close>

lemma node_frame:
  assumes "wf_table s pt F" "idx_ok is" "\<And>x. pgof x \<in> table_pages (pm s) pt \<Longrightarrow> m' x = pm s x"
  shows "node m' pt is = node (pm s) pt is"
proof (rule node_cong)
  show "aligned pt" by (rule wf_table_root [OF assms(1)])
  fix ks i rest q
  assume k: "is = ks @ i # rest" "node (pm s) pt ks = Some q"
  then have "idx_ok ks" "i < 512" using assms(2) by (auto simp: idx_ok_def)
  note q = wf_tableD [OF assms(1) this(1) k(2)]
  show "ld64 m' (ea q i) = ld64 (pm s) (ea q i)"
    by (rule ld64_ea_cong) (use q \<open>i < 512\<close> assms(3) in auto)
qed (use assms(2) in \<open>auto simp: idx_ok_def\<close>)

text \<open>
  Writing entry \<open>j\<close> of the page reached by \<open>js\<close> changes only the paths through that entry.
\<close>

lemma node_upd:
  assumes wf: "wf_table s pt F" and "idx_ok js" "node (pm s) pt js = Some q" "j < 512"
    and "idx_ok is" "\<not> (\<exists>rest. is = js @ j # rest)"
  shows "node (st64 (pm s) (ea q j) v) pt is = node (pm s) pt is"
proof (rule node_cong)
  show "aligned pt" by (rule wf_table_root [OF assms(1)])
  fix ks i rest p
  assume k: "is = ks @ i # rest" "node (pm s) pt ks = Some p"
  then have i: "idx_ok ks" "i < 512" using assms(5) by (auto simp: idx_ok_def)
  have "\<not> (p = q \<and> i = j)"
    using wf_table_inj [OF wf i(1) assms(2) k(2)] assms(3,6) k(1) by blast
  then show "ld64 (st64 (pm s) (ea q j) v) (ea p i) = ld64 (pm s) (ea p i)"
    using wf_tableD(3) [OF wf i(1) k(2)] wf_tableD(3) [OF wf assms(2,3)] i(2) assms(4)
    by (auto simp: ld64_st64_ea)
qed (use assms(5) in \<open>auto simp: idx_ok_def\<close>)

lemma walk_level_lookup:
  "walk_level s p va False l =
     (case node (pm s) p (path l va) of None \<Rightarrow> 0 | Some q \<Rightarrow> ea q (pxn 0 va), s)"
  by (induction l arbitrary: p) (simp_all add: ea_PX Let_def)

lemma walk_level_present:
  "node (pm s) p (path l va) = Some q \<Longrightarrow> walk_level s p va alloc l = (ea q (pxn 0 va), s)"
  by (induction l arbitrary: p) (auto simp: ea_PX Let_def split: if_splits)

lemma walk_lookup:
  "va < MAXVA \<Longrightarrow> walk s pt va False =
     Ok (case node (pm s) pt (path 2 va) of None \<Rightarrow> 0 | Some q \<Rightarrow> ea q (pxn 0 va), s)"
  by (simp add: walk_def walk_level_lookup)

lemma ea_nonzero: "aligned p \<Longrightarrow> p \<noteq> 0 \<Longrightarrow> i < 512 \<Longrightarrow> ea p i \<noteq> 0"
proof
  assume "aligned p" "p \<noteq> 0" "i < 512" "ea p i = 0"
  then have "pgof 0 = p" using pgof_ea by metis
  moreover have "pgof 0 = 0" by (simp add: pgof_def)
  ultimately show False using \<open>p \<noteq> 0\<close> by simp
qed

section \<open>Growing a table\<close>

text \<open>
  \<open>remaps pt s F s' F' f\<close>: from \<open>s\<close> to \<open>s'\<close> the table may have taken pages out of the free
  set, nothing but its own pages and the pages it took has been written, and its leaf
  entries are now those of \<open>f\<close>. When it \<open>grows\<close> it maps every address as before.
\<close>

definition remaps :: "u64 \<Rightarrow> machine \<Rightarrow> u64 set \<Rightarrow> machine \<Rightarrow> u64 set \<Rightarrow> (u64 \<Rightarrow> u64) \<Rightarrow> bool" where
  "remaps pt s F s' F' f \<longleftrightarrow> F' \<subseteq> F \<and> kinv s' F' \<and> wf_table s' pt F' \<and>
     kend s' = kend s \<and> (\<forall>va < MAXVA. pte_at (pm s') pt va = f va) \<and>
     table_pages (pm s') pt = table_pages (pm s) pt \<union> (F - F') \<and>
     (\<forall>x. pgof x \<notin> table_pages (pm s) pt \<union> (F - F') \<longrightarrow> pm s' x = pm s x)"

abbreviation grows :: "u64 \<Rightarrow> machine \<Rightarrow> u64 set \<Rightarrow> machine \<Rightarrow> u64 set \<Rightarrow> bool" where
  "grows pt s F s' F' \<equiv> remaps pt s F s' F' (pte_at (pm s) pt)"

lemma ld_zero [simp]: "ld k (\<lambda>_. 0) a = 0"
  by (induction k arbitrary: a) auto

lemma ld64_zeroed_page: "aligned p \<Longrightarrow> i < 512 \<Longrightarrow> ld64 (memset m p 0 4096) (ea p i) = 0"
proof -
  assume "aligned p" "i < 512"
  then have "ld64 (memset m p 0 4096) (ea p i) = ld64 (\<lambda>_. 0) (ea p i)"
    by (intro ld64_ea_cong) (auto simp: memset_page)
  then show ?thesis by (simp add: ld64_def del: ld.simps)
qed

lemma wf_table_frame:
  assumes "wf_table s pt F" "\<And>x. pgof x \<in> table_pages (pm s) pt \<Longrightarrow> pm s' x = pm s x"
    and "kend s' = kend s" "F' \<inter> table_pages (pm s) pt = {}"
  shows "wf_table s' pt F'" "table_pages (pm s') pt = table_pages (pm s) pt"
    "pte_at (pm s') pt va = pte_at (pm s) pt va"
proof -
  have n: "node (pm s') pt is = node (pm s) pt is" if "idx_ok is" for "is"
    using node_frame [OF assms(1) that] assms(2) by blast
  then show t: "table_pages (pm s') pt = table_pages (pm s) pt"
    by (auto simp: table_pages_def)
  have "valid_page s' = valid_page s" using assms(3) by (simp add: valid_page_def fun_eq_iff)
  then show "wf_table s' pt F'"
    using assms(1,4) n t unfolding wf_table_def by auto
  show "pte_at (pm s') pt va = pte_at (pm s) pt va"
  proof (cases "node (pm s) pt (path 2 va)")
    case None
    then show ?thesis by (simp add: pte_at_def n)
  next
    case (Some p)
    note p = wf_tableD [OF assms(1) idx_ok_path Some]
    have "ld64 (pm s') (ea p (pxn 0 va)) = ld64 (pm s) (ea p (pxn 0 va))"
      by (rule ld64_ea_cong) (use p assms(2) in auto)
    then show ?thesis using Some by (simp add: pte_at_def n)
  qed
qed

lemma idx_ok_no_ext: "idx_ok (js @ [j]) \<Longrightarrow> path 2 va \<noteq> js"
  by (auto simp: idx_ok_def numeral_2_eq_2)

lemma grow_node:
  assumes wf: "wf_table s pt F" and js: "idx_ok (js @ [j])" "node (pm s) pt js = Some q"
    and inv: "ld64 (pm s) (ea q j) AND PTE_V = 0"
    and np: "np \<in> F" "aligned np" and m1: "\<And>x. pgof x \<noteq> np \<Longrightarrow> m1 x = pm s x"
    and i: "idx_ok is"
  shows "node (st64 (memset m1 np 0 4096) (ea q j) (PA2PTE np OR PTE_V)) pt is =
    (if \<exists>rest. is = js @ j # rest then if is = js @ [j] then Some np else None
     else node (pm s) pt is)"
proof -
  let ?m2 = "memset m1 np 0 4096" let ?v = "PA2PTE np OR PTE_V"
  let ?m3 = "st64 ?m2 (ea q j) ?v"
  have np_out: "np \<notin> table_pages (pm s) pt" using wf np(1) by (auto simp: wf_table_def)
  have m2: "?m2 x = pm s x" if "pgof x \<noteq> np" for x using that np(2) m1 by (simp add: memset_page)
  define s2 where "s2 = s\<lparr>pm := ?m2\<rparr>"
  have wf2: "wf_table s2 pt F" and n2: "\<And>is. idx_ok is \<Longrightarrow> node ?m2 pt is = node (pm s) pt is"
  proof -
    have eq: "?m2 x = pm s x" if "pgof x \<in> table_pages (pm s) pt" for x
      using that np_out by (intro m2) auto
    show "wf_table s2 pt F"
      by (rule wf_table_frame [OF wf]) (use eq wf in \<open>auto simp: s2_def wf_table_def\<close>)
    show "idx_ok is \<Longrightarrow> node ?m2 pt is = node (pm s) pt is" for "is"
      by (rule node_frame [OF wf]) (use eq in auto)
  qed
  have jok: "idx_ok js" "j < 512" using js(1) by (auto simp: idx_ok_def)
  have q: "aligned q" "q \<noteq> np" using wf_tableD [OF wf jok(1) js(2)] np(1) by auto
  have other: "node ?m3 pt is = node (pm s) pt is" if "idx_ok is" "\<not> (\<exists>rest. is = js @ j # rest)" for "is"
    using node_upd [OF wf2 jok(1) _ jok(2) that, of q ?v] n2 that(1) jok(1) js(2)
    by (simp add: s2_def)
  have "node ?m3 pt (js @ j # rest) = (if rest = [] then Some np else None)"
    if "idx_ok (js @ j # rest)" for rest
  proof -
    have "node ?m3 pt js = Some q" using other [OF jok(1)] js(2) by simp
    moreover have "ld64 ?m3 (ea q j) = ?v" by simp
    moreover have "PTE2PA ?v = np" using np(2) by (simp add: PTE2PA_PA2PTE)
    ultimately have "node ?m3 pt (js @ j # rest) = node ?m3 np rest" by (simp add: node_append)
    moreover have "node ?m3 np (k # r) = None" if "k < 512" for k r
    proof -
      have "ld64 ?m3 (ea np k) = 0"
        using q np(2) that jok(2) by (simp add: ld64_st64_ea ld64_zeroed_page)
      then show ?thesis by simp
    qed
    ultimately show ?thesis using that by (cases rest) (auto simp: idx_ok_def)
  qed
  then show ?thesis using i other by (auto split: if_splits)
qed

lemma kalloc_kend [simp]: "kend (snd (kalloc s)) = kend s"
  by (auto simp: kalloc_def Let_def)

lemma kalloc_kinv:
  assumes "kinv s F" "kalloc s = (np, s1)" "np \<noteq> 0"
  shows "np \<in> F \<and> kinv s1 (F - {np}) \<and> kend s1 = kend s \<and> valid_page s np \<and>
    (\<forall>x. pgof x \<noteq> np \<longrightarrow> pm s1 x = pm s x)"
  using kmem.alloc_cases [OF assms(1,2)] kalloc_kend [of s] assms(2,3) by auto

lemma grow_pte_at:
  assumes wf: "wf_table s pt F" and js: "idx_ok (js @ [j])" "node (pm s) pt js = Some q"
    and N: "\<And>is. idx_ok is \<Longrightarrow> node (st64 (memset m1 np 0 4096) (ea q j) v) pt is =
      (if \<exists>rest. is = js @ j # rest then if is = js @ [j] then Some np else None
       else node (pm s) pt is)"
    and np: "aligned np" "q \<noteq> np" "np \<notin> table_pages (pm s) pt"
    and m1: "\<And>x. pgof x \<noteq> np \<Longrightarrow> m1 x = pm s x"
    and inv: "ld64 (pm s) (ea q j) AND PTE_V = 0"
  shows "pte_at (st64 (memset m1 np 0 4096) (ea q j) v) pt va = pte_at (pm s) pt va"
proof -
  let ?m2 = "memset m1 np 0 4096" and ?is = "path 2 va" and ?k = "pxn 0 va"
  let ?m3 = "st64 ?m2 (ea q j) v"
  have jok: "idx_ok js" "j < 512" using js(1) by (auto simp: idx_ok_def)
  note q = wf_tableD [OF wf jok(1) js(2)]
  have ext: "node (pm s) pt (js @ j # rest) = None" for rest
    using js(2) inv by (simp add: node_append)
  show ?thesis
  proof (cases "\<exists>rest. ?is = js @ j # rest")
    case True
    have "pte_at (pm s) pt va = 0" using True ext by (auto simp: pte_at_def)
    moreover have "ld64 ?m3 (ea np ?k) = 0"
      using q np jok(2) by (simp add: ld64_st64_ea ld64_zeroed_page)
    ultimately show ?thesis using True by (simp add: pte_at_def N)
  next
    case False
    then have n: "node ?m3 pt ?is = node (pm s) pt ?is" by (simp add: N)
    show ?thesis
    proof (cases "node (pm s) pt ?is")
      case None
      with n show ?thesis by (simp add: pte_at_def)
    next
      case (Some p)
      note p = wf_tableD [OF wf idx_ok_path Some]
      have "p \<noteq> q"
        using wf_table_inj [OF wf idx_ok_path jok(1) Some] js idx_ok_no_ext [OF js(1)] by blast
      then have "ld64 ?m3 (ea p ?k) = ld64 ?m2 (ea p ?k)"
        using p q jok(2) by (simp add: ld64_st64_ea)
      also have "\<dots> = ld64 (pm s) (ea p ?k)"
      proof (rule ld64_ea_cong)
        fix x assume "pgof x = p"
        then have "pgof x \<noteq> np" using p np(3) by auto
        then show "?m2 x = pm s x" using np(1) m1 by (simp add: memset_page)
      qed (use p in auto)
      finally show ?thesis using Some n by (simp add: pte_at_def)
    qed
  qed
qed

lemma grow_step:
  assumes wf: "wf_table s pt F" and kin: "kinv s F"
    and js: "idx_ok (js @ [j])" "node (pm s) pt js = Some q"
    and inv: "ld64 (pm s) (ea q j) AND PTE_V = 0"
    and ka: "kalloc s = (np, s1)" "np \<noteq> 0"
  defines "s2 \<equiv> s1\<lparr>pm := st64 (memset (pm s1) np 0 4096) (ea q j) (PA2PTE np OR PTE_V)\<rparr>"
  shows "grows pt s F s2 (F - {np})" "node (pm s2) pt (js @ [j]) = Some np" "np \<in> F"
proof -
  obtain np_in: "np \<in> F" and k1: "kinv s1 (F - {np})" and ke: "kend s1 = kend s"
    and m1: "\<And>x. pgof x \<noteq> np \<Longrightarrow> pm s1 x = pm s x" and vp: "valid_page s np"
    using kalloc_kinv [OF kin ka] by blast
  have al: "aligned np" using vp by (simp add: valid_page_def)
  let ?m2 = "memset (pm s1) np 0 4096"
  have N: "node (pm s2) pt is =
    (if \<exists>rest. is = js @ j # rest then if is = js @ [j] then Some np else None
     else node (pm s) pt is)" if "idx_ok is" for "is"
    using grow_node [OF wf js inv np_in al m1 that] by (simp add: s2_def)
  show nd: "node (pm s2) pt (js @ [j]) = Some np" using N [OF js(1)] by simp
  show "np \<in> F" by (rule np_in)
  have jok: "idx_ok js" "j < 512" using js(1) by (auto simp: idx_ok_def)
  note q = wf_tableD [OF wf jok(1) js(2)]
  have "q \<noteq> np" using q np_in by auto
  have ext: "node (pm s) pt (js @ j # rest) = None" for rest
    using js(2) inv by (simp add: node_append)
  have M: "pm s2 x = pm s x" if "pgof x \<noteq> np" "pgof x \<noteq> q" for x
    using that al q(3) jok(2) m1 by (simp add: s2_def st64_ea_other memset_page)
  have T: "table_pages (pm s2) pt = insert np (table_pages (pm s) pt)"
  proof (rule set_eqI)
    fix p
    show "p \<in> table_pages (pm s2) pt \<longleftrightarrow> p \<in> insert np (table_pages (pm s) pt)"
      using N ext nd js(1) unfolding table_pages_def
      by (auto split: if_splits) (metis option.distinct(1))+
  qed
  have np_out: "np \<notin> table_pages (pm s) pt" using wf np_in by (auto simp: wf_table_def)
  have I: "is = is'" if "idx_ok is" "idx_ok is'" "node (pm s2) pt is = Some p"
    "node (pm s2) pt is' = Some p" for "is" is' p
  proof -
    have "node (pm s) pt k = Some np \<Longrightarrow> idx_ok k \<Longrightarrow> False" for k
      using np_out by (auto simp: table_pages_def)
    then show ?thesis
      using that wf_table_inj [OF wf that(1,2)] by (auto simp: N split: if_splits)
  qed
  have vpe: "valid_page s2 = valid_page s" by (auto simp: valid_page_def fun_eq_iff s2_def ke)
  have W: "wf_table s2 pt (F - {np})"
    using I wf vp unfolding wf_table_def T vpe by blast
  have K: "kinv s2 (F - {np})"
    unfolding s2_def
  proof (rule kinv_frame [OF k1])
    fix x assume x: "pgof x \<in> F - {np}"
    then have "pgof x \<noteq> q" using q(2) by auto
    then show "st64 ?m2 (ea q j) (PA2PTE np OR PTE_V) x = pm s1 x"
      using x q(3) al jok(2) by (simp add: st64_ea_other memset_page)
  qed
  have P: "pte_at (pm s2) pt va = pte_at (pm s) pt va" for va
    using grow_pte_at [OF wf js grow_node [OF wf js inv np_in al m1] al \<open>q \<noteq> np\<close> np_out m1 inv]
    by (simp add: s2_def)
  have D: "F - (F - {np}) = {np}" using np_in by auto
  have M': "pm s2 x = pm s x" if "pgof x \<notin> table_pages (pm s) pt \<union> {np}" for x
    using that q(5) by (intro M) auto
  have "kend s2 = kend s" by (simp add: s2_def ke)
  then show "grows pt s F s2 (F - {np})"
    using K W P T M' unfolding remaps_def D by blast
qed

lemma grows_refl: "kinv s F \<Longrightarrow> wf_table s pt F \<Longrightarrow> grows pt s F s F"
  by (simp add: remaps_def)

lemma remapsD:
  assumes "remaps pt s F s' F' f"
  shows "wf_table s' pt F'" "kinv s' F'" "F' \<subseteq> F" "kend s' = kend s"
    and "va < MAXVA \<Longrightarrow> pte_at (pm s') pt va = f va"
    and "table_pages (pm s') pt = table_pages (pm s) pt \<union> (F - F')"
    and "pgof x \<notin> table_pages (pm s) pt \<union> (F - F') \<Longrightarrow> pm s' x = pm s x"
  using assms unfolding remaps_def by blast+

lemma remaps_trans:
  assumes "remaps pt s F s1 F1 f" "remaps pt s1 F1 s2 F2 g"
  shows "remaps pt s F s2 F2 g"
  using assms unfolding remaps_def by (auto simp: subset_iff)

lemma grows_trans: "grows pt s F s1 F1 \<Longrightarrow> grows pt s1 F1 s2 F2 \<Longrightarrow> grows pt s F s2 F2"
  by (auto simp: remaps_def subset_iff)

lemma remaps_cong:
  assumes "remaps pt s F s' F' f" "\<And>va. va < MAXVA \<Longrightarrow> f va = g va"
  shows "remaps pt s F s' F' g"
  using assms by (simp add: remaps_def)

lemma walk_level_alloc:
  assumes "wf_table s pt F" "kinv s F" "node (pm s) pt js = Some q" "js @ path l va = path 2 va"
    and "walk_level s q va True l = (a, s')"
  shows "\<exists>F'. grows pt s F s' F' \<and>
    (a = 0 \<and> F' = {} \<or>
     (\<exists>p. node (pm s') pt (path 2 va) = Some p \<and> a = ea p (pxn 0 va)))"
  using assms
proof (induction l arbitrary: s F js q)
  case 0
  then show ?case by (auto simp: ea_PX intro!: exI [of _ F] grows_refl)
next
  case (Suc l)
  let ?j = "pxn (Suc l) va" and ?e = "ld64 (pm s) (ea q (pxn (Suc l) va))"
  have path: "(js @ [?j]) @ path l va = path 2 va" using Suc.prems(4) by simp
  then have ok: "idx_ok (js @ [?j])" using idx_ok_prefix idx_ok_path by metis
  show ?case
  proof (cases "?e AND PTE_V = 0")
    case False
    have "node (pm s) pt (js @ [?j]) = Some (PTE2PA ?e)"
      using Suc.prems(3) False by (simp add: node_append)
    from Suc.IH [OF Suc.prems(1,2) this path] Suc.prems(5) False show ?thesis
      by (simp add: ea_PX Let_def)
  next
    case inv: True
    obtain np s1 where ka: "kalloc s = (np, s1)" by force
    show ?thesis
    proof (cases "np = 0")
      case True
      from kmem.alloc_cases [OF Suc.prems(2) ka] True have "F = {}" "s1 = s" by auto
      with Suc.prems inv ka True show ?thesis
        by (auto simp: ea_PX Let_def intro!: exI [of _ "{}"] grows_refl)
    next
      case False
      let ?s2 = "s1\<lparr>pm := st64 (memset (pm s1) np 0 4096) (ea q ?j) (PA2PTE np OR PTE_V)\<rparr>"
      note g = grow_step [OF Suc.prems(1,2) ok Suc.prems(3) inv ka False]
      have "walk_level ?s2 np va True l = (a, s')"
        using Suc.prems(5) inv ka False by (simp add: ea_PX Let_def)
      from Suc.IH [OF remapsD(1,2) [OF g(1)] g(2) path this] show ?thesis
        using grows_trans [OF g(1)] by blast
    qed
  qed
qed

text \<open>
  \<^verbatim>\<open>walk\<close> with \<open>alloc\<close> set: it ends in the leaf entry of the address, all translations
  are as before, and it returns null only when the allocator has run out.
\<close>

lemma walk_alloc:
  assumes "wf_table s pt F" "kinv s F" "walk s pt va True = Ok (a, s')"
  shows "\<exists>F'. grows pt s F s' F' \<and>
    (a = 0 \<and> F' = {} \<or>
     (\<exists>p. node (pm s') pt (path 2 va) = Some p \<and> a = ea p (pxn 0 va)))"
  using assms walk_level_alloc [OF assms(1,2), of "[]" pt 2 va a s']
  by (simp add: walk_def split: if_splits)

section \<open>Writing leaf entries\<close>

lemma same_page_path:
  "va < MAXVA \<Longrightarrow> vb < MAXVA \<Longrightarrow> pgof va = pgof vb \<longleftrightarrow> path 2 va = path 2 vb \<and> pxn 0 va = pxn 0 vb"
  by (simp add: same_page_iff numeral_2_eq_2)

lemma pgof_le: "pgof a \<le> a"
  unfolding word_le_nat_alt unat_pgof by simp

lemma pgof_pgof [simp]: "pgof (pgof a) = pgof a"
  by simp

lemma pte_at_pgof: "va < MAXVA \<Longrightarrow> pte_at m pt (pgof va) = pte_at m pt va"
  using same_page_path [of "pgof va" va] order.strict_trans1 [OF pgof_le]
  by (auto simp: pte_at_def split: option.split)

lemma leaf_store:
  assumes wf: "wf_table s pt F" and kin: "kinv s F"
    and p: "node (pm s) pt (path 2 va) = Some p" and va: "va < MAXVA"
  shows "remaps pt s F (s\<lparr>pm := st64 (pm s) (ea p (pxn 0 va)) v\<rparr>) F
    ((pte_at (pm s) pt)(pgof va := v) \<circ> pgof)"
proof -
  let ?m = "st64 (pm s) (ea p (pxn 0 va)) v" let ?s = "s\<lparr>pm := ?m\<rparr>"
  note pp = wf_tableD [OF wf idx_ok_path p]
  have n: "node ?m pt is = node (pm s) pt is" if "idx_ok is" for "is"
    using that by (intro node_upd [OF wf idx_ok_path p pxn_bound]) (auto simp: idx_ok_def numeral_2_eq_2)
  have t: "table_pages ?m pt = table_pages (pm s) pt" by (auto simp: table_pages_def n)
  have "valid_page ?s = valid_page s" by (simp add: valid_page_def fun_eq_iff)
  then have w: "wf_table ?s pt F" using wf n by (auto simp: wf_table_def t)
  have o: "?m x = pm s x" if "pgof x \<notin> table_pages (pm s) pt" for x
    using that pp by (intro st64_ea_other) auto
  have k: "kinv ?s F"
    using wf by (intro kinv_frame [OF kin] o) (auto simp: wf_table_def)
  have e: "pte_at ?m pt v' = ((pte_at (pm s) pt)(pgof va := v) \<circ> pgof) v'" if v': "v' < MAXVA" for v'
  proof (cases "pgof v' = pgof va")
    case True
    then have "path 2 v' = path 2 va" "pxn 0 v' = pxn 0 va"
      using same_page_path [OF v' va] by auto
    then show ?thesis using True p by (simp add: pte_at_def n)
  next
    case False
    have pg: "pte_at (pm s) pt (pgof v') = pte_at (pm s) pt v'" by (rule pte_at_pgof [OF v'])
    show ?thesis
    proof (cases "node (pm s) pt (path 2 v')")
      case None
      then show ?thesis using False pg by (simp add: pte_at_def n)
    next
      case (Some p')
      note pp' = wf_tableD [OF wf idx_ok_path Some]
      have "\<not> (p' = p \<and> pxn 0 v' = pxn 0 va)"
        using wf_table_inj [OF wf idx_ok_path idx_ok_path Some] p False same_page_path [OF v' va] by blast
      then have "ld64 ?m (ea p' (pxn 0 v')) = ld64 (pm s) (ea p' (pxn 0 v'))"
        using pp pp' by (auto simp: ld64_st64_ea)
      then show ?thesis using False pg Some by (simp add: pte_at_def n)
    qed
  qed
  show ?thesis using k w t o e by (simp add: remaps_def)
qed

text \<open>\<open>n\<close> pages from \<open>a\<close> mapped to consecutive frames from \<open>pa\<close>.\<close>

definition mapped_range :: "(u64 \<Rightarrow> u64) \<Rightarrow> u64 \<Rightarrow> nat \<Rightarrow> u64 \<Rightarrow> u64 \<Rightarrow> u64 \<Rightarrow> u64" where
  "mapped_range f a n pa perm va =
     (if unat a \<le> unat va \<and> unat va < unat a + 4096 * n
      then PA2PTE (pa + (pgof va - a)) OR perm OR PTE_V else f va)"

lemma mapped_range_0 [simp]: "mapped_range f a 0 pa perm = f"
  by (auto simp: mapped_range_def fun_eq_iff)

lemma mapped_range_cong: "f va = g va \<Longrightarrow> mapped_range f a n pa perm va = mapped_range g a n pa perm va"
  by (simp add: mapped_range_def)

lemma in_page_iff: "aligned a \<Longrightarrow> pgof va = a \<longleftrightarrow> unat a \<le> unat va \<and> unat va < unat a + 4096"
  by (auto simp: word_unat_eq_iff unat_pgof elim!: alignedE)

lemma mapped_range_Suc:
  assumes "aligned a" "unat a + 4096 < 2 ^ 64" "\<And>v. v < MAXVA \<Longrightarrow> f (pgof v) = f v" "va < MAXVA"
  shows "mapped_range (f(a := PA2PTE pa OR perm OR PTE_V) \<circ> pgof) (a + PGSIZE) n (pa + PGSIZE) perm va
    = mapped_range f a (Suc n) pa perm va"
proof -
  have u: "unat (a + PGSIZE) = unat a + 4096" using assms(2) by (simp add: unat_word_ariths)
  show ?thesis
    using in_page_iff [OF assms(1), of va] assms(3) [OF assms(4)] unfolding mapped_range_def u
    by auto
qed

lemma aligned_end:
  assumes "aligned a" "unat a + 4096 * n < 2 ^ 38"
  shows "unat a + 4096 * Suc n \<le> 2 ^ 38"
proof -
  obtain k where k: "unat a = 4096 * k" using assms(1) by (auto elim: alignedE)
  then have "4096 * (k + n) < 4096 * 2 ^ 26" using assms(2) by simp
  then have "Suc (k + n) \<le> 2 ^ 26" by simp
  then have "4096 * Suc (k + n) \<le> 4096 * 2 ^ 26" by (rule mult_le_mono2)
  then show ?thesis using k by simp
qed

lemma map_step:
  assumes "wf_table s pt F" "kinv s F" "aligned a" "a < MAXVA" "pte_at (pm s) pt a AND PTE_V = 0"
  obtains s1 where "walk s pt a True = Ok (0, s1)" "grows pt s F s1 {}"
  | pte s1 F1 where "walk s pt a True = Ok (pte, s1)" "pte \<noteq> 0" "ld64 (pm s1) pte AND PTE_V = 0"
      "\<And>v. remaps pt s F (s1\<lparr>pm := st64 (pm s1) pte v\<rparr>) F1 ((pte_at (pm s) pt)(a := v) \<circ> pgof)"
proof -
  obtain pte s1 where w: "walk s pt a True = Ok (pte, s1)"
    using assms(4) by (cases "walk_level s pt a True 2") (simp add: walk_def linorder_not_le [symmetric])
  from walk_alloc [OF assms(1,2) w] obtain F1 where g: "grows pt s F s1 F1"
    and c: "pte = 0 \<and> F1 = {} \<or> (\<exists>p. node (pm s1) pt (path 2 a) = Some p \<and> pte = ea p (pxn 0 a))"
    by blast
  from c show thesis
  proof
    assume "pte = 0 \<and> F1 = {}"
    then show thesis using that(1) w g by blast
  next
    assume "\<exists>p. node (pm s1) pt (path 2 a) = Some p \<and> pte = ea p (pxn 0 a)"
    then obtain p where p: "node (pm s1) pt (path 2 a) = Some p" "pte = ea p (pxn 0 a)" by blast
    note wf1 = remapsD(1) [OF g]
    have "pte \<noteq> 0" using wf_tableD [OF wf1 idx_ok_path p(1)] p(2) by (simp add: ea_nonzero)
    moreover have "ld64 (pm s1) pte AND PTE_V = 0"
      using remapsD(5) [OF g assms(4)] assms(5) p by (simp add: pte_at_def)
    moreover have "remaps pt s F (s1\<lparr>pm := st64 (pm s1) pte v\<rparr>) F1 ((pte_at (pm s) pt)(a := v) \<circ> pgof)" for v
    proof -
      have "remaps pt s F (s1\<lparr>pm := st64 (pm s1) pte v\<rparr>) F1 ((pte_at (pm s1) pt)(pgof a := v) \<circ> pgof)"
        unfolding p(2) by (rule remaps_trans [OF g leaf_store [OF wf1 remapsD(2) [OF g] p(1) assms(4)]])
      then show ?thesis
      proof (rule remaps_cong)
        fix va assume "va < MAXVA"
        then have "pgof va < MAXVA" using order.strict_trans1 [OF pgof_le] by blast
        then show "((pte_at (pm s1) pt)(pgof a := v) \<circ> pgof) va = ((pte_at (pm s) pt)(a := v) \<circ> pgof) va"
          using remapsD(5) [OF g] assms(3) by simp
      qed
    qed
    ultimately show thesis using that(2) w by blast
  qed
qed

lemma mappages_loop_spec:
  assumes "wf_table s pt F" "kinv s F" "aligned a" "unat a + 4096 * n < 2 ^ 38"
    and "\<And>va. unat a \<le> unat va \<Longrightarrow> unat va < unat a + 4096 * Suc n \<Longrightarrow> pte_at (pm s) pt va AND PTE_V = 0"
  shows "\<exists>r s' F' k. mappages_loop s pt a (a + of_nat (4096 * n)) pa perm = Ok (r, s') \<and>
    remaps pt s F s' F' (mapped_range (pte_at (pm s) pt) a k pa perm) \<and>
    (r = 0 \<and> k = Suc n \<or> r = -1 \<and> k \<le> n \<and> F' = {})"
  using assms
proof (induction n arbitrary: s F a pa)
  case (0 s F a pa)
  let ?f = "pte_at (pm s) pt" and ?v = "PA2PTE pa OR perm OR PTE_V"
  have a: "a < MAXVA" using 0(4) by (simp add: word_less_nat_alt unat_MAXVA)
  have "?f a AND PTE_V = 0" using 0(5) [of a] by simp
  from 0(1-3) a this show ?case
  proof (cases rule: map_step)
    case (1 s1)
    then show ?thesis by (intro exI [of _ "-1"] exI [of _ s1] exI [of _ "{}"] exI [of _ 0])
        (simp add: mappages_loop.simps [of s])
  next
    case (2 pte s1 F1)
    have "remaps pt s F (s1\<lparr>pm := st64 (pm s1) pte ?v\<rparr>) F1 (mapped_range ?f a 1 pa perm)"
      using mapped_range_Suc [OF 0(3), of ?f _ pa perm 0] 0(4) pte_at_pgof
      by (intro remaps_cong [OF 2(4)]) auto
    then show ?thesis using 2(1-3) by (auto simp: Let_def mappages_loop.simps [of s])
  qed
next
  case (Suc n s F a pa)
  let ?f = "pte_at (pm s) pt" and ?v = "PA2PTE pa OR perm OR PTE_V"
  have a: "a < MAXVA" using Suc.prems(4) by (simp add: word_less_nat_alt unat_MAXVA)
  have u: "unat (a + PGSIZE) = unat a + 4096" by (rule unat_add_PGSIZE_va [OF a])
  have "?f a AND PTE_V = 0" using Suc.prems(5) [of a] by simp
  from Suc.prems(1-3) a this show ?case
  proof (cases rule: map_step)
    case (1 s1)
    then show ?thesis by (intro exI [of _ "-1"] exI [of _ s1] exI [of _ "{}"] exI [of _ 0])
        (simp add: mappages_loop.simps [of s])
  next
    case (2 pte s1 F1)
    let ?s2 = "s1\<lparr>pm := st64 (pm s1) pte ?v\<rparr>"
    note R = 2(4) [of ?v]
    have e: "a + PGSIZE + of_nat (4096 * n) = a + of_nat (4096 * Suc n)" by (simp add: PGSIZE_def)
    have ne: "a \<noteq> a + of_nat (4096 * Suc n)"
      using of_nat_neq_0_u64 [of "4096 * Suc n"] Suc.prems(4) by (simp del: of_nat_mult of_nat_Suc)
    have "aligned (a + PGSIZE)" using Suc.prems(3) u by (simp add: aligned_def)
    moreover have "pte_at (pm ?s2) pt va AND PTE_V = 0"
      if "unat (a + PGSIZE) \<le> unat va" "unat va < unat (a + PGSIZE) + 4096 * Suc n" for va
    proof -
      have va: "va < MAXVA"
        using that(2) aligned_end [OF Suc.prems(3,4)] u by (simp add: word_less_nat_alt unat_MAXVA)
      have "pgof va \<noteq> a" using in_page_iff [OF Suc.prems(3), of va] that(1) u by auto
      then have "pte_at (pm ?s2) pt va = ?f va"
        using remapsD(5) [OF R va] pte_at_pgof [OF va] by simp
      then show ?thesis using Suc.prems(5) [of va] that u by simp
    qed
    ultimately have "\<exists>r s' F' k. mappages_loop ?s2 pt (a + PGSIZE) (a + of_nat (4096 * Suc n)) (pa + PGSIZE) perm = Ok (r, s') \<and>
        remaps pt ?s2 F1 s' F' (mapped_range (pte_at (pm ?s2) pt) (a + PGSIZE) k (pa + PGSIZE) perm) \<and>
        (r = 0 \<and> k = Suc n \<or> r = -1 \<and> k \<le> n \<and> F' = {})"
      using Suc.IH [of ?s2 F1 "a + PGSIZE"] remapsD(1,2) [OF R] Suc.prems(4) u unfolding e by auto
    then obtain r s' F' k where L: "mappages_loop ?s2 pt (a + PGSIZE) (a + of_nat (4096 * Suc n)) (pa + PGSIZE) perm = Ok (r, s')"
      "remaps pt ?s2 F1 s' F' (mapped_range (pte_at (pm ?s2) pt) (a + PGSIZE) k (pa + PGSIZE) perm)"
      "r = 0 \<and> k = Suc n \<or> r = -1 \<and> k \<le> n \<and> F' = {}" by blast
    have "mappages_loop s pt a (a + of_nat (4096 * Suc n)) pa perm = Ok (r, s')"
      using 2(1-3) ne L(1) by (simp add: Let_def mappages_loop.simps [of s] del: of_nat_Suc of_nat_mult)
    moreover have "remaps pt s F s' F' (mapped_range ?f a (Suc k) pa perm)"
    proof (rule remaps_cong [OF remaps_trans [OF R L(2)]])
      fix va assume va: "va < MAXVA"
      show "mapped_range (pte_at (pm ?s2) pt) (a + PGSIZE) k (pa + PGSIZE) perm va = mapped_range ?f a (Suc k) pa perm va"
        by (rule trans [OF mapped_range_cong mapped_range_Suc])
          (use remapsD(5) [OF R va] Suc.prems(3,4) pte_at_pgof va in auto)
    qed
    ultimately show ?thesis using L(3) by auto
  qed
qed

lemma mappages_spec:
  assumes "wf_table s pt F" "kinv s F" "aligned va" "0 < n" "unat va + 4096 * n \<le> 2 ^ 38"
    and "\<And>v. unat va \<le> unat v \<Longrightarrow> unat v < unat va + 4096 * n \<Longrightarrow> pte_at (pm s) pt v AND PTE_V = 0"
  shows "\<exists>r s' F' k. mappages s pt va (of_nat (4096 * n)) pa perm = Ok (r, s') \<and>
    remaps pt s F s' F' (mapped_range (pte_at (pm s) pt) va k pa perm) \<and>
    (r = 0 \<and> k = n \<or> r = -1 \<and> k < n \<and> F' = {})"
proof -
  obtain n' where n: "n = Suc n'" using assms(4) gr0_implies_Suc by blast
  have u: "unat (of_nat (4096 * n) :: u64) = 4096 * n" using assms(5) by (intro unat_of_nat_u64) simp
  have "va mod PGSIZE = 0" using assms(3) by (simp add: aligned_mod_PGSIZE)
  moreover have "(of_nat (4096 * n) :: u64) mod PGSIZE = 0"
    unfolding aligned_mod_PGSIZE aligned_def u by simp
  moreover have "(of_nat (4096 * n) :: u64) \<noteq> 0" using u n by (metis unat_0 mult_eq_0_iff zero_neq_numeral nat.distinct(1))
  moreover have "va + of_nat (4096 * n) - PGSIZE = va + of_nat (4096 * n')" by (simp add: n PGSIZE_def)
  ultimately have "mappages s pt va (of_nat (4096 * n)) pa perm =
      mappages_loop s pt va (va + of_nat (4096 * n')) pa perm"
    unfolding mappages_def by (simp only: if_False simp_thms)
  moreover note mappages_loop_spec [OF assms(1-3), of n' pa perm]
  ultimately show ?thesis using assms(5,6) unfolding n by (auto simp: less_Suc_eq_le)
qed

text \<open>What \<^verbatim>\<open>walkaddr\<close> reads off the leaf entry.\<close>

lemma walkaddr_eq:
  assumes "wf_table s pt F" "va < MAXVA"
  shows "walkaddr s pt va = Ok (let e = pte_at (pm s) pt va in
    if e AND PTE_V = 0 \<or> e AND PTE_U = 0 then 0 else PTE2PA e)"
proof (cases "node (pm s) pt (path 2 va)")
  case None
  then show ?thesis
    using assms(2) by (simp add: walkaddr_def walk_lookup pte_at_def linorder_not_le [symmetric])
next
  case (Some p)
  then have "ea p (pxn 0 va) \<noteq> 0" using wf_tableD [OF assms(1) idx_ok_path Some] by (simp add: ea_nonzero)
  then show ?thesis
    using assms(2) Some by (simp add: walkaddr_def walk_lookup pte_at_def Let_def linorder_not_le [symmetric])
qed

lemma aligned_add: "aligned a \<Longrightarrow> aligned b \<Longrightarrow> aligned (a + b)"
proof -
  assume "aligned a" "aligned b"
  then have "(unat a + unat b) mod 2 ^ 64 mod 4096 = 0"
    by (subst mod_mod_cancel) (auto simp: aligned_def)
  then show ?thesis by (simp add: aligned_def unat_word_ariths)
qed

lemma aligned_diff: "aligned a \<Longrightarrow> aligned b \<Longrightarrow> b \<le> a \<Longrightarrow> aligned (a - b)"
  by (simp add: aligned_def unat_sub mod_eq_0_iff_dvd)

lemma flag_or: "x AND PTE_U \<noteq> 0 \<Longrightarrow> (y OR x OR z) AND PTE_U \<noteq> 0"
  unfolding PTE_U_def and_flag by (simp add: bit_simps)

lemma walkaddr_mapped:
  assumes "wf_table s pt F" "v < MAXVA" "pte_at (pm s) pt v = mapped_range f va n pa perm v"
    and "aligned va" "aligned pa" "flag_bits perm" "perm AND PTE_U \<noteq> 0"
    and "unat va \<le> unat v" "unat v < unat va + 4096 * n"
  shows "walkaddr s pt v = Ok (pa + (pgof v - va))"
proof -
  let ?fr = "pa + (pgof v - va)"
  have e: "pte_at (pm s) pt v = PA2PTE ?fr OR (perm OR PTE_V)"
    using assms(3,8,9) by (simp add: mapped_range_def)
  have "va \<le> pgof v"
    using assms(4,8) by (auto simp: word_le_nat_alt unat_pgof elim!: alignedE)
  then have "aligned ?fr" using assms(4,5) by (intro aligned_add aligned_diff) auto
  then have "PTE2PA (PA2PTE ?fr OR (perm OR PTE_V)) = ?fr"
    using assms(6) by (intro PTE2PA_PA2PTE flag_bits_or) auto
  moreover have "(PA2PTE ?fr OR (perm OR PTE_V)) AND PTE_V \<noteq> 0"
    using PTE_V_set [of "PA2PTE ?fr OR perm"] unfolding or.assoc .
  moreover have "(PA2PTE ?fr OR (perm OR PTE_V)) AND PTE_U \<noteq> 0"
    using flag_or [OF assms(7)] by simp
  ultimately show ?thesis unfolding walkaddr_eq [OF assms(1,2)] e Let_def by simp
qed

section \<open>The empty table\<close>

lemma node_zero_page:
  assumes "aligned pt" "\<And>x. pgof x = pt \<Longrightarrow> m x = 0" "idx_ok is" "is \<noteq> []"
  shows "node m pt is = None"
proof -
  obtain i js where i: "is = i # js" "i < 512" using assms(3,4) by (cases "is") (auto simp: idx_ok_def)
  have "ld64 m (ea pt i) = ld64 (\<lambda>_. 0) (ea pt i)"
    by (rule ld64_ea_cong) (use assms i in auto)
  then show ?thesis by (simp add: i ld64_def del: ld.simps)
qed

lemma empty_table:
  assumes "valid_page s pt" "pt \<notin> F" "\<And>x. pgof x = pt \<Longrightarrow> pm s x = 0"
  shows "wf_table s pt F" "table_pages (pm s) pt = {pt}" "pte_at (pm s) pt va = 0"
proof -
  have al: "aligned pt" using assms(1) by (simp add: valid_page_def)
  have n: "node (pm s) pt is = None" if "idx_ok is" "is \<noteq> []" for "is"
    by (rule node_zero_page [OF al assms(3) that])
  have nil: "idx_ok []" by (simp add: idx_ok_def)
  show t: "table_pages (pm s) pt = {pt}"
    using n nil by (auto simp: table_pages_def) (metis node.simps(1) option.distinct(1) option.inject)
  have "is = js" if "idx_ok is" "idx_ok js" "node (pm s) pt is = Some p" "node (pm s) pt js = Some p" for "is" js p
    using that n by (metis option.distinct(1))
  then show "wf_table s pt F" using assms(1,2) t by (simp add: wf_table_def)
  show "pte_at (pm s) pt va = 0"
    using n [OF idx_ok_path] by (simp add: pte_at_def numeral_2_eq_2)
qed

lemma uvmcreate_spec:
  assumes "kinv s F" "uvmcreate s = (pt, s')"
  shows "pt = 0 \<and> F = {} \<and> s' = s \<or>
    pt \<in> F \<and> pt \<noteq> 0 \<and> kinv s' (F - {pt}) \<and> wf_table s' pt (F - {pt}) \<and> kend s' = kend s \<and>
    table_pages (pm s') pt = {pt} \<and> (\<forall>va. pte_at (pm s') pt va = 0) \<and>
    (\<forall>x. pgof x \<noteq> pt \<longrightarrow> pm s' x = pm s x)"
proof -
  obtain p s1 where k: "kalloc s = (p, s1)" by force
  show ?thesis
  proof (cases "p = 0")
    case True
    with kmem.alloc_cases [OF assms(1) k] assms(2) k show ?thesis by (simp add: uvmcreate_def)
  next
    case False
    note K = kalloc_kinv [OF assms(1) k False]
    then have al: "aligned p" by (simp add: valid_page_def)
    from assms(2) k False have pt: "pt = p" "s' = s1\<lparr>pm := memset (pm s1) p 0 4096\<rparr>"
      by (auto simp: uvmcreate_def)
    have z: "pm s' x = (if pgof x = p then 0 else pm s1 x)" for x
      using al by (simp add: pt memset_page)
    have "kinv s' (F - {p})"
      unfolding pt by (rule kinv_frame) (use K al in \<open>auto simp: memset_page\<close>)
    moreover have "valid_page s' p" using K by (simp add: valid_page_def pt)
    ultimately show ?thesis
      using K False empty_table [of s' p "F - {p}"] pt z by simp
  qed
qed

section \<open>Taking mappings away\<close>

definition upage :: "u64 \<Rightarrow> nat \<Rightarrow> u64" where
  "upage a i = a + of_nat (4096 * i)"

lemma upage_0 [simp]: "upage a 0 = a"
  by (simp add: upage_def)

lemma upage_Suc: "upage (a + PGSIZE) i = upage a (Suc i)"
  by (simp add: upage_def PGSIZE_def)

lemma unat_upage: "unat a + 4096 * i < 2 ^ 64 \<Longrightarrow> unat (upage a i) = unat a + 4096 * i"
proof -
  assume a: "unat a + 4096 * i < 2 ^ 64"
  then have "unat (of_nat (4096 * i) :: u64) = 4096 * i" by (intro unat_of_nat_u64) simp
  then show ?thesis using a unfolding upage_def by (subst unat_add_lem [THEN iffD1]) auto
qed

definition cleared :: "(u64 \<Rightarrow> u64) \<Rightarrow> u64 \<Rightarrow> nat \<Rightarrow> u64 \<Rightarrow> u64" where
  "cleared f a n va = (if unat a \<le> unat va \<and> unat va < unat a + 4096 * n then 0 else f va)"

lemma cleared_cong: "f va = g va \<Longrightarrow> cleared f a n va = cleared g a n va"
  by (simp add: cleared_def)

lemma cleared_Suc:
  assumes "aligned a" "unat a + 4096 < 2 ^ 64" "f (pgof va) = f va"
  shows "cleared (f(a := 0) \<circ> pgof) (a + PGSIZE) n va = cleared f a (Suc n) va"
proof -
  have u: "unat (a + PGSIZE) = unat a + 4096" using assms(2) by (simp add: unat_word_ariths)
  show ?thesis using in_page_iff [OF assms(1), of va] assms(3) unfolding cleared_def u by auto
qed

text \<open>The entries of \<open>n\<close> pages from \<open>a\<close> are leaves; their frames; the frames are the table's to free.\<close>

definition leaves :: "mem \<Rightarrow> u64 \<Rightarrow> u64 \<Rightarrow> nat \<Rightarrow> bool" where
  "leaves m pt a n \<longleftrightarrow> (\<forall>i < n. pte_at m pt (upage a i) AND PTE_V \<noteq> 0 \<and> PTE_FLAGS (pte_at m pt (upage a i)) \<noteq> PTE_V)"

definition frame :: "mem \<Rightarrow> u64 \<Rightarrow> u64 \<Rightarrow> nat \<Rightarrow> u64" where
  "frame m pt a i = PTE2PA (pte_at m pt (upage a i))"

definition owned :: "machine \<Rightarrow> u64 \<Rightarrow> u64 set \<Rightarrow> u64 \<Rightarrow> nat \<Rightarrow> bool" where
  "owned s pt F a n \<longleftrightarrow> inj_on (frame (pm s) pt a) {..<n} \<and>
     (\<forall>i < n. valid_page s (frame (pm s) pt a i) \<and>
        frame (pm s) pt a i \<notin> F \<union> table_pages (pm s) pt)"

definition unmaps :: "u64 \<Rightarrow> machine \<Rightarrow> u64 set \<Rightarrow> machine \<Rightarrow> u64 set \<Rightarrow> (u64 \<Rightarrow> u64) \<Rightarrow> bool" where
  "unmaps pt s F s' F' f \<longleftrightarrow> F \<subseteq> F' \<and> kinv s' F' \<and> wf_table s' pt F' \<and>
     kend s' = kend s \<and> (\<forall>va < MAXVA. pte_at (pm s') pt va = f va) \<and>
     table_pages (pm s') pt = table_pages (pm s) pt \<and>
     (\<forall>x. pgof x \<notin> table_pages (pm s) pt \<union> (F' - F) \<longrightarrow> pm s' x = pm s x)"

lemma unmaps_trans:
  assumes "unmaps pt s F s1 F1 f" "unmaps pt s1 F1 s2 F2 g"
  shows "unmaps pt s F s2 F2 g"
  using assms unfolding unmaps_def by (auto simp: subset_iff)

lemma unmapsD:
  assumes "unmaps pt s F s' F' f"
  shows "wf_table s' pt F'" "kinv s' F'" "F \<subseteq> F'" "kend s' = kend s"
    and "va < MAXVA \<Longrightarrow> pte_at (pm s') pt va = f va"
    and "table_pages (pm s') pt = table_pages (pm s) pt"
    and "pgof x \<notin> table_pages (pm s) pt \<union> (F' - F) \<Longrightarrow> pm s' x = pm s x"
  using assms unfolding unmaps_def by blast+

lemma unmaps_cong:
  assumes "unmaps pt s F s' F' f" "\<And>va. va < MAXVA \<Longrightarrow> f va = g va"
  shows "unmaps pt s F s' F' g"
  using assms by (simp add: unmaps_def)

lemma kfree_if:
  assumes "kinv s F" "b \<Longrightarrow> valid_page s p" "b \<Longrightarrow> p \<notin> F"
  obtains s' where "(if b then kfree s p else Ok s) = Ok s'"
    "kinv s' (if b then insert p F else F)" "kend s' = kend s"
    "\<And>x. b \<longrightarrow> pgof x \<noteq> p \<Longrightarrow> pm s' x = pm s x"
proof (cases b)
  case True
  then obtain ps where ps: "kmem_inv s ps" "set ps = F" using assms(1) by (auto simp: kinv_def)
  then obtain s' where s': "kfree s p = Ok s'" "kmem_inv s' (p # ps)" "kend s' = kend s"
      "\<forall>x. pgof x \<noteq> p \<longrightarrow> pm s' x = pm s x"
    using kfree_inv [OF ps(1)] assms(2,3) True by blast
  then have "kinv s' (insert p F)" using ps(2) unfolding kinv_def by (metis list.simps(15))
  then show thesis using that [of s'] True s' by simp
next
  case False
  then show thesis using that [of s] assms(1) by simp
qed

lemma unmap_step:
  assumes "wf_table s pt F" "kinv s F" "aligned a" "a < MAXVA" "leaves (pm s) pt a (Suc n)"
    and "do_free \<longrightarrow> owned s pt F a (Suc n)"
  defines "e \<equiv> pte_at (pm s) pt a"
  shows "\<exists>pte s2. walk s pt a False = Ok (pte, s) \<and> pte \<noteq> 0 \<and> ld64 (pm s) pte = e \<and>
    (if do_free then kfree s (PTE2PA e) else Ok s) = Ok s2 \<and>
    unmaps pt s F (s2\<lparr>pm := st64 (pm s2) pte 0\<rparr>) (if do_free then insert (PTE2PA e) F else F)
      ((pte_at (pm s) pt)(a := 0) \<circ> pgof)"
proof -
  have e: "e AND PTE_V \<noteq> 0" using assms(5) by (auto simp: leaves_def e_def)
  then obtain p where p: "node (pm s) pt (path 2 a) = Some p" "ld64 (pm s) (ea p (pxn 0 a)) = e"
    by (auto simp: e_def pte_at_def split: option.splits)
  let ?pte = "ea p (pxn 0 a)" and ?fr = "PTE2PA e" and ?F = "if do_free then insert (PTE2PA e) F else F"
  have fr: "valid_page s ?fr" "?fr \<notin> F \<union> table_pages (pm s) pt" if do_free
    using that assms(6) by (auto simp: owned_def frame_def e_def dest!: spec [of _ 0])
  obtain s2 where s2: "(if do_free then kfree s ?fr else Ok s) = Ok s2" and k2: "kinv s2 ?F"
    and ke: "kend s2 = kend s" and m2: "\<And>x. do_free \<longrightarrow> pgof x \<noteq> ?fr \<Longrightarrow> pm s2 x = pm s x"
    by (rule kfree_if [OF assms(2), of do_free ?fr]) (use fr in auto)
  have eq: "pm s2 x = pm s x" if "pgof x \<in> table_pages (pm s) pt" for x
    using that fr(2) by (intro m2) auto
  have "?F \<inter> table_pages (pm s) pt = {}" using assms(1) fr(2) by (auto simp: wf_table_def)
  note W = wf_table_frame [OF assms(1) eq ke this]
  have p2: "node (pm s2) pt (path 2 a) = Some p"
    using node_frame [OF assms(1) idx_ok_path eq] p(1) by simp
  note L = leaf_store [OF W(1) k2 p2 assms(4), of 0]
  have "unmaps pt s F (s2\<lparr>pm := st64 (pm s2) ?pte 0\<rparr>) ?F ((pte_at (pm s) pt)(a := 0) \<circ> pgof)"
    using remapsD [OF L] W(2,3) ke m2 assms(3) fr(2) unfolding unmaps_def by (auto split: if_splits)
  moreover have "?pte \<noteq> 0" using wf_tableD [OF assms(1) idx_ok_path p(1)] by (simp add: ea_nonzero)
  moreover have "walk s pt a False = Ok (?pte, s)" using p(1) assms(4) by (simp add: walk_lookup)
  ultimately show ?thesis using p(2) s2 by blast
qed

lemma pgof_upage: "aligned a \<Longrightarrow> aligned (upage a i)"
proof -
  have "unat (of_nat (4096 * i) :: u64) = 4096 * i mod 2 ^ 64" by (simp only: unat_of_nat) simp
  also have "\<dots> mod 4096 = 0" by (subst mod_mod_cancel) auto
  finally have "aligned (of_nat (4096 * i))" unfolding aligned_def .
  then show "aligned a \<Longrightarrow> ?thesis" unfolding upage_def by (rule aligned_add [rotated])
qed

lemma unmap_rest:
  assumes "aligned a" "unat a + 4096 * Suc n \<le> 2 ^ 38"
    and U: "unmaps pt s F s' F' ((pte_at (pm s) pt)(a := 0) \<circ> pgof)" and i: "i < n"
  shows "pte_at (pm s') pt (upage (a + PGSIZE) i) = pte_at (pm s) pt (upage a (Suc i))"
proof -
  have u: "unat (upage a (Suc i)) = unat a + 4096 * Suc i"
    using assms(2) i by (intro unat_upage) simp
  then have "upage a (Suc i) < MAXVA" "upage a (Suc i) \<noteq> a"
    using assms(2) i by (auto simp: word_less_nat_alt unat_MAXVA)
  then show ?thesis
    using unmapsD(5) [OF U, of "upage a (Suc i)"] pgof_upage [OF assms(1)] by (simp add: upage_Suc)
qed

lemma uvmunmap_loop_spec:
  assumes "wf_table s pt F" "kinv s F" "aligned a" "unat a + 4096 * n \<le> 2 ^ 38"
    and "leaves (pm s) pt a n" "do_free \<longrightarrow> owned s pt F a n"
  shows "\<exists>s'. uvmunmap_loop s pt a (upage a n) do_free = Ok s' \<and>
    unmaps pt s F s' (F \<union> (if do_free then frame (pm s) pt a ` {..<n} else {}))
      (cleared (pte_at (pm s) pt) a n)"
  using assms
proof (induction n arbitrary: s F a)
  case 0
  then show ?case by (auto simp: unmaps_def cleared_def uvmunmap_loop.simps)
next
  case (Suc n s F a)
  let ?f = "pte_at (pm s) pt" let ?e = "?f a"
  have a: "a < MAXVA" using Suc.prems(4) by (simp add: word_less_nat_alt unat_MAXVA)
  have u: "unat (a + PGSIZE) = unat a + 4096" by (rule unat_add_PGSIZE_va [OF a])
  have lt: "a < upage a (Suc n)"
    using Suc.prems(4) by (subst word_less_nat_alt, subst unat_upage) auto
  have V: "?e AND PTE_V \<noteq> 0" "PTE_FLAGS ?e \<noteq> PTE_V" using Suc.prems(5) by (auto simp: leaves_def)
  obtain pte s2 where w: "walk s pt a False = Ok (pte, s)" "pte \<noteq> 0" "ld64 (pm s) pte = ?e"
    and k: "(if do_free then kfree s (PTE2PA ?e) else Ok s) = Ok s2"
    and U: "unmaps pt s F (s2\<lparr>pm := st64 (pm s2) pte 0\<rparr>) (if do_free then insert (PTE2PA ?e) F else F)
      (?f(a := 0) \<circ> pgof)"
    using unmap_step [OF Suc.prems(1-3) a Suc.prems(5,6)] by blast
  let ?s3 = "s2\<lparr>pm := st64 (pm s2) pte 0\<rparr>" and ?F = "if do_free then insert (PTE2PA ?e) F else F"
  note R = unmap_rest [OF Suc.prems(3,4) U]
  have fr: "frame (pm ?s3) pt (a + PGSIZE) i = frame (pm s) pt a (Suc i)" if "i < n" for i
    using R [OF that] by (simp add: frame_def)
  have lv: "leaves (pm ?s3) pt (a + PGSIZE) n"
    using R Suc.prems(5) by (simp add: leaves_def)
  have ow: "do_free \<longrightarrow> owned ?s3 pt ?F (a + PGSIZE) n"
  proof
    assume d: do_free
    have o: "inj_on (frame (pm s) pt a) {..<Suc n}"
      "\<And>i. i < Suc n \<Longrightarrow> valid_page s (frame (pm s) pt a i) \<and> frame (pm s) pt a i \<notin> F \<union> table_pages (pm s) pt"
      using Suc.prems(6) d by (auto simp: owned_def)
    have "inj_on (frame (pm ?s3) pt (a + PGSIZE)) {..<n}"
      using fr by (auto intro!: inj_onI dest!: inj_onD [OF o(1)])
    moreover have "frame (pm ?s3) pt (a + PGSIZE) i \<noteq> PTE2PA ?e" if "i < n" for i
      using that fr [OF that] o(1) inj_onD [OF o(1), of "Suc i" 0] by (auto simp: frame_def)
    moreover have "valid_page ?s3 = valid_page s" using unmapsD(4) [OF U] by (simp add: valid_page_def fun_eq_iff)
    ultimately show "owned ?s3 pt ?F (a + PGSIZE) n"
      using o(2) fr unmapsD(6) [OF U] d by (simp add: owned_def)
  qed
  have al: "aligned (a + PGSIZE)" using Suc.prems(3) u by (simp add: aligned_def)
  from Suc.IH [OF unmapsD(1,2) [OF U] al _ lv ow] u Suc.prems(4)
  obtain s' where s': "uvmunmap_loop ?s3 pt (a + PGSIZE) (upage (a + PGSIZE) n) do_free = Ok s'"
    and U': "unmaps pt ?s3 ?F s' (?F \<union> (if do_free then frame (pm ?s3) pt (a + PGSIZE) ` {..<n} else {}))
      (cleared (pte_at (pm ?s3) pt) (a + PGSIZE) n)" by auto
  have "uvmunmap_loop s pt a (upage a (Suc n)) do_free = Ok s'"
    using lt w k V s'
    by (subst uvmunmap_loop.simps, cases do_free) (simp_all add: upage_Suc)
  moreover have "?F \<union> (if do_free then frame (pm ?s3) pt (a + PGSIZE) ` {..<n} else {})
      = F \<union> (if do_free then frame (pm s) pt a ` {..<Suc n} else {})"
    using fr by (auto simp: lessThan_Suc_eq_insert_0 image_image frame_def)
  moreover have "cleared (pte_at (pm ?s3) pt) (a + PGSIZE) n va = cleared ?f a (Suc n) va" if "va < MAXVA" for va
    by (rule trans [OF cleared_cong cleared_Suc])
      (use Suc.prems(3,4) unmapsD(5) [OF U that] pte_at_pgof [OF that] in auto)
  ultimately show ?case using unmaps_cong [OF unmaps_trans [OF U U']] by auto
qed

lemma uvmunmap_spec:
  assumes "wf_table s pt F" "kinv s F" "aligned a" "unat a + 4096 * n \<le> 2 ^ 38"
    and "leaves (pm s) pt a n" "do_free \<longrightarrow> owned s pt F a n"
  shows "\<exists>s'. uvmunmap s pt a (of_nat n) do_free = Ok s' \<and>
    unmaps pt s F s' (F \<union> (if do_free then frame (pm s) pt a ` {..<n} else {}))
      (cleared (pte_at (pm s) pt) a n)"
proof -
  have "a + of_nat n * PGSIZE = upage a n" by (simp add: upage_def PGSIZE_def mult.commute)
  then show ?thesis
    using uvmunmap_loop_spec [OF assms] assms(3) by (simp add: uvmunmap_def aligned_mod_PGSIZE)
qed

end
