(* ===== verification/Vm_User.thy ===== *)
theory Vm_User
  imports Vm_Walk
begin

text \<open>
  User address spaces: what the copy routines and \<^verbatim>\<open>uvmcopy\<close> of \<^verbatim>\<open>kernel/vm.c\<close> do to the
  memory a user program sees.
\<close>

section \<open>The user's view\<close>

definition uaddr :: "mem \<Rightarrow> u64 \<Rightarrow> u64 \<Rightarrow> u64" where
  "uaddr m pt va = PTE2PA (pte_at m pt va) + (va - pgof va)"

definition ubyte :: "machine \<Rightarrow> u64 \<Rightarrow> u64 \<Rightarrow> u8" where
  "ubyte s pt va = pm s (uaddr (pm s) pt va)"

definition readable :: "mem \<Rightarrow> u64 \<Rightarrow> u64 \<Rightarrow> bool" where
  "readable m pt va \<longleftrightarrow> va < MAXVA \<and> pte_at m pt va AND PTE_V \<noteq> 0 \<and> pte_at m pt va AND PTE_U \<noteq> 0"

definition writable :: "mem \<Rightarrow> u64 \<Rightarrow> u64 \<Rightarrow> bool" where
  "writable m pt va \<longleftrightarrow> readable m pt va \<and> pte_at m pt va AND PTE_W \<noteq> 0"

text \<open>
  The frames of the user's pages are the user's own: not free, not part of the table, and
  no two pages share one.
\<close>

definition uspace :: "machine \<Rightarrow> u64 \<Rightarrow> u64 set \<Rightarrow> bool" where
  "uspace s pt F \<longleftrightarrow> wf_table s pt F \<and>
     (\<forall>va. readable (pm s) pt va \<longrightarrow> valid_page s (PTE2PA (pte_at (pm s) pt va)) \<and>
        PTE2PA (pte_at (pm s) pt va) \<notin> F \<union> table_pages (pm s) pt) \<and>
     (\<forall>va vb. readable (pm s) pt va \<longrightarrow> readable (pm s) pt vb \<longrightarrow>
        PTE2PA (pte_at (pm s) pt va) = PTE2PA (pte_at (pm s) pt vb) \<longrightarrow> pgof va = pgof vb)"

lemma uspaceD:
  assumes "uspace s pt F"
  shows "wf_table s pt F"
    and "readable (pm s) pt va \<Longrightarrow> valid_page s (PTE2PA (pte_at (pm s) pt va))"
    and "readable (pm s) pt va \<Longrightarrow> PTE2PA (pte_at (pm s) pt va) \<notin> F \<union> table_pages (pm s) pt"
    and "readable (pm s) pt va \<Longrightarrow> readable (pm s) pt vb \<Longrightarrow>
      PTE2PA (pte_at (pm s) pt va) = PTE2PA (pte_at (pm s) pt vb) \<Longrightarrow> pgof va = pgof vb"
  using assms unfolding uspace_def by blast+

lemma same_page_pte: "va < MAXVA \<Longrightarrow> vb < MAXVA \<Longrightarrow> pgof va = pgof vb \<Longrightarrow> pte_at m pt va = pte_at m pt vb"
  using pte_at_pgof by metis

lemma pgof_uaddr [simp]: "pgof (uaddr m pt va) = PTE2PA (pte_at m pt va)"
  using pgof_iff [of "PTE2PA (pte_at m pt va)" "uaddr m pt va"] pgof_offset [of va]
  by (simp add: uaddr_def)

lemma page_range:
  assumes "unat (b - pgof b) + n \<le> 4096" "unat (x - b) < n"
  shows "pgof x = pgof b"
proof -
  have "unat ((x - b) + (b - pgof b)) = unat (x - b) + unat (b - pgof b)"
    using assms by (intro unat_add_lem [THEN iffD1]) simp
  then have "unat (x - pgof b) < 4096" using assms by simp
  then show ?thesis using pgof_iff [of "pgof b" x] by simp
qed

lemma write_bytes_apply:
  "length bs \<le> 2 ^ 64 \<Longrightarrow> write_bytes m a bs x = (if unat (x - a) < length bs then bs ! unat (x - a) else m x)"
proof (induction bs arbitrary: m a)
  case (Cons b bs)
  show ?case
  proof (cases "x = a")
    case True
    have "unat (a - (a + 1)) = 2 ^ 64 - 1" by (simp add: unat_minus_1_u64)
    with Cons True show ?thesis by simp
  next
    case False
    then have "x - a \<noteq> 0" by simp
    then have "unat (x - a) = Suc (unat (x - (a + 1)))"
      using unat_minus_one [of "x - a"] unat_gt_0 [of "x - a"] by (simp add: diff_diff_eq)
    with Cons False show ?thesis by simp
  qed
qed simp

lemma length_read_bytes [simp]: "length (read_bytes m a n) = n"
  by (induction n arbitrary: a) auto

lemma read_bytes_nth: "i < n \<Longrightarrow> read_bytes m a n ! i = m (a + of_nat i)"
  by (induction n arbitrary: a i) (auto simp: nth_Cons' algebra_simps of_nat_diff split: nat.splits)

lemma offset_chunk: "unat (va - pgof va) + chunk va len \<le> 4096"
  using pgof_offset [of va]
  by (simp add: chunk_def PGROUNDDOWN_eq unat_sub word_le_nat_alt)

lemma uaddr_offset [simp]: "uaddr m pt va - PTE2PA (pte_at m pt va) = va - pgof va"
  by (simp add: uaddr_def)

lemma readable_page:
  "readable m pt va \<Longrightarrow> pgof vb = pgof va \<Longrightarrow> vb < MAXVA \<Longrightarrow> readable m pt vb"
  using same_page_pte [of va vb m pt] by (simp add: readable_def)

text \<open>One iteration of \<open>copyout\<close>.\<close>

lemma write_chunk:
  assumes us: "uspace s pt F" and kin: "kinv s F" and rd: "readable (pm s) pt dst"
    and bs: "length bs \<le> chunk dst len"
  defines "s' \<equiv> s\<lparr>pm := write_bytes (pm s) (uaddr (pm s) pt dst) bs\<rparr>"
  shows "uspace s' pt F" "kinv s' F" "pte_at (pm s') pt = pte_at (pm s) pt"
    and "readable (pm s) pt va \<Longrightarrow> ubyte s' pt va =
      (if unat (va - dst) < length bs then bs ! unat (va - dst) else ubyte s pt va)"
    and "pgof x \<noteq> PTE2PA (pte_at (pm s) pt dst) \<Longrightarrow> pm s' x = pm s x"
    and "table_pages (pm s') pt = table_pages (pm s) pt"
proof -
  let ?a = "uaddr (pm s) pt dst" and ?fr = "PTE2PA (pte_at (pm s) pt dst)"
  have le: "unat (dst - pgof dst) + length bs \<le> 4096" using offset_chunk [of dst len] bs by simp
  have wa: "pm s' x = (if unat (x - ?a) < length bs then bs ! unat (x - ?a) else pm s x)" for x
    using le by (simp add: s'_def write_bytes_apply)
  have pg: "pgof x = ?fr" if "unat (x - ?a) < length bs" for x
    using page_range [of ?a "length bs" x] that le by simp
  show out: "pm s' x = pm s x" if "pgof x \<noteq> ?fr" for x using that pg [of x] wa [of x] by argo
  have wf: "wf_table s pt F" and fr: "?fr \<notin> F \<union> table_pages (pm s) pt"
    using uspaceD(1,3) [OF us] rd by blast+
  have eq: "pm s' x = pm s x" if "pgof x \<in> table_pages (pm s) pt" for x
    using fr that by (intro out) auto
  have ke: "kend s' = kend s" by (simp add: s'_def)
  have "F \<inter> table_pages (pm s) pt = {}" using wf by (auto simp: wf_table_def)
  note W = wf_table_frame [OF wf eq ke this]
  show p: "pte_at (pm s') pt = pte_at (pm s) pt" by (rule ext) (rule W(3))
  show t: "table_pages (pm s') pt = table_pages (pm s) pt" by (rule W(2))
  have r: "readable (pm s') pt = readable (pm s) pt" by (simp add: readable_def p fun_eq_iff)
  have ua: "uaddr (pm s') pt = uaddr (pm s) pt" by (simp add: uaddr_def p fun_eq_iff)
  have v: "valid_page s' = valid_page s" by (simp add: valid_page_def ke fun_eq_iff)
  show "uspace s' pt F" using us W(1) unfolding uspace_def p t r v by blast
  show "kinv s' F" unfolding s'_def
  proof (rule kinv_frame [OF kin])
    fix x assume "pgof x \<in> F"
    then have "pgof x \<noteq> ?fr" using fr by auto
    from out [OF this] show "write_bytes (pm s) ?a bs x = pm s x" by (simp add: s'_def)
  qed
  show "ubyte s' pt va = (if unat (va - dst) < length bs then bs ! unat (va - dst) else ubyte s pt va)"
    if va: "readable (pm s) pt va"
  proof (cases "pgof va = pgof dst")
    case True
    then have "pte_at (pm s) pt va = pte_at (pm s) pt dst"
      using va rd by (auto simp: readable_def intro: same_page_pte)
    with True have "uaddr (pm s) pt va - ?a = va - dst" by (simp add: uaddr_def)
    then show ?thesis by (simp only: ubyte_def ua wa)
  next
    case False
    then have "PTE2PA (pte_at (pm s) pt va) \<noteq> ?fr" using uspaceD(4) [OF us va rd] by blast
    then have "ubyte s' pt va = ubyte s pt va" using out [of "uaddr (pm s) pt va"] by (simp add: ubyte_def ua)
    moreover have "\<not> unat (va - dst) < length bs" using page_range [OF le] False by blast
    ultimately show ?thesis by simp
  qed
qed

section \<open>The copy loops\<close>

lemma pgof_below_MAXVA: "pgof va < MAXVA \<longleftrightarrow> va < MAXVA"
proof -
  have "unat va div 4096 * 4096 < 2 ^ 26 * 4096 \<longleftrightarrow> unat va div 4096 < 2 ^ 26"
    by (rule mult_less_cancel2 [THEN trans]) simp
  also have "\<dots> \<longleftrightarrow> unat va < 2 ^ 26 * 4096" by (rule div_less_iff_less_mult) simp
  finally show ?thesis unfolding word_less_nat_alt unat_pgof unat_MAXVA by simp
qed

lemma MAXVA_le_pgof: "MAXVA \<le> pgof va \<longleftrightarrow> MAXVA \<le> va"
  by (simp only: linorder_not_less [symmetric] pgof_below_MAXVA)

lemma chunk_end:
  assumes "chunk va len < len"
  shows "pgof va + PGSIZE = va + of_nat (chunk va len)"
proof -
  have "unat (PGSIZE - (va - pgof va)) = chunk va len" using assms by (simp add: chunk_def PGROUNDDOWN_eq)
  then have "of_nat (chunk va len) = (of_nat (unat (PGSIZE - (va - pgof va))) :: u64)" by simp
  then show ?thesis by simp
qed

lemma chunk_same_page:
  assumes "j < chunk va len"
  shows "pgof (va + of_nat j) = pgof va" "unat (va + of_nat j - pgof va) = unat (va - pgof va) + j"
proof -
  have b: "unat (va - pgof va) + j < 4096" using assms offset_chunk [of va len] by simp
  then have j: "unat (of_nat j :: u64) = j" by (intro unat_of_nat_u64) simp
  show "pgof (va + of_nat j) = pgof va"
    using page_range [OF offset_chunk, of "va + of_nat j" va len] j assms by simp
  have "unat (va - pgof va + of_nat j) = unat (va - pgof va) + unat (of_nat j :: u64)"
    using b j by (intro unat_add_lem [THEN iffD1]) simp
  then show "unat (va + of_nat j - pgof va) = unat (va - pgof va) + j"
    using j by (simp add: algebra_simps)
qed

lemma uaddr_chunk:
  assumes "va < MAXVA" "j < chunk va len"
  shows "va + of_nat j < MAXVA" "uaddr m pt (va + of_nat j) = uaddr m pt va + of_nat j"
    "pte_at m pt (va + of_nat j) = pte_at m pt va"
proof -
  show lt: "va + of_nat j < MAXVA"
    using pgof_below_MAXVA [of "va + of_nat j"] pgof_below_MAXVA [of va] assms(1)
    unfolding chunk_same_page(1) [OF assms(2)] by blast
  show e: "pte_at m pt (va + of_nat j) = pte_at m pt va"
    by (rule same_page_pte [OF lt assms(1) chunk_same_page(1) [OF assms(2)]])
  then show "uaddr m pt (va + of_nat j) = uaddr m pt va + of_nat j"
    using chunk_same_page(1) [OF assms(2)] by (simp add: uaddr_def)
qed

lemma readable_walk:
  assumes "uspace s pt F" "va < MAXVA"
  shows "walkaddr s pt (pgof va) = Ok (if readable (pm s) pt va then PTE2PA (pte_at (pm s) pt va) else 0)"
proof -
  have "pgof va < MAXVA" using assms(2) pgof_le order.strict_trans1 by blast
  then show ?thesis
    using walkaddr_eq [of s pt F "pgof va"] uspaceD(1) [OF assms(1)] assms(2) pte_at_pgof [OF assms(2)]
    by (simp add: readable_def Let_def)
qed

lemma unreadable_walk:
  assumes "uspace s pt F" "\<not> readable (pm s) pt va"
  shows "walkaddr s pt (pgof va) = Ok 0"
proof (cases "va < MAXVA")
  case True
  then show ?thesis using readable_walk [OF assms(1)] assms(2) by simp
next
  case False
  then have "MAXVA \<le> pgof va" by (simp add: MAXVA_le_pgof not_less)
  then show ?thesis by (simp add: walkaddr_def)
qed

lemma readable_nonzero: "uspace s pt F \<Longrightarrow> readable (pm s) pt va \<Longrightarrow> PTE2PA (pte_at (pm s) pt va) \<noteq> 0"
  using uspaceD(2) [of s pt F va] by (simp add: valid_page_def)

text \<open>\<open>upto_fault P va len k\<close>: of \<open>len\<close> bytes from \<open>va\<close>, the first \<open>k\<close> satisfy \<open>P\<close>, and \<open>k\<close> stops short only where \<open>P\<close> fails.\<close>

definition upto_fault :: "(u64 \<Rightarrow> bool) \<Rightarrow> u64 \<Rightarrow> nat \<Rightarrow> nat \<Rightarrow> bool" where
  "upto_fault P va len k \<longleftrightarrow> k \<le> len \<and> (\<forall>j < k. P (va + of_nat j)) \<and>
     (k < len \<longrightarrow> \<not> P (va + of_nat k))"

lemma upto_fault_0: "\<not> P va \<Longrightarrow> upto_fault P va len 0"
  by (simp add: upto_fault_def)

lemma upto_fault_chunk:
  assumes "\<And>j. j < n \<Longrightarrow> P (va + of_nat j)" "n \<le> len" "upto_fault P (va + of_nat n) (len - n) k"
  shows "upto_fault P va len (n + k)"
  unfolding upto_fault_def
proof (intro conjI allI impI)
  show "n + k \<le> len" using assms(2,3) by (auto simp: upto_fault_def)
  show "\<not> P (va + of_nat (n + k))" if "n + k < len"
    using that assms(3) by (simp add: upto_fault_def add.assoc)
  fix j assume j: "j < n + k"
  show "P (va + of_nat j)"
  proof (cases "j < n")
    case False
    then obtain i where i: "j = n + i" using le_Suc_ex not_less by blast
    then show ?thesis using assms(3) j by (simp add: upto_fault_def add.assoc)
  qed (use assms(1) in simp)
qed

lemma read_chunk:
  assumes "va < MAXVA" "n \<le> chunk va len"
  shows "read_bytes (pm s) (uaddr (pm s) pt va) n = map (\<lambda>j. ubyte s pt (va + of_nat j)) [0..<n]"
proof (rule nth_equalityI)
  fix i assume "i < length (read_bytes (pm s) (uaddr (pm s) pt va) n)"
  then have "i < n" "i < chunk va len" using assms(2) by auto
  then show "read_bytes (pm s) (uaddr (pm s) pt va) n ! i = map (\<lambda>j. ubyte s pt (va + of_nat j)) [0..<n] ! i"
    using uaddr_chunk(2) [OF assms(1)] by (simp add: read_bytes_nth ubyte_def)
qed simp

definition user_bytes :: "machine \<Rightarrow> u64 \<Rightarrow> u64 \<Rightarrow> nat \<Rightarrow> u8 list" where
  "user_bytes s pt va n = map (\<lambda>j. ubyte s pt (va + of_nat j)) [0..<n]"

lemma user_bytes_append:
  "user_bytes s pt va m @ user_bytes s pt (va + of_nat m) n = user_bytes s pt va (m + n)"
  unfolding user_bytes_def
  by (rule nth_equalityI) (auto simp: nth_append add.assoc of_nat_add [symmetric] simp del: of_nat_add)

lemma length_user_bytes [simp]: "length (user_bytes s pt va n) = n"
  by (simp add: user_bytes_def)

lemma copyin_spec:
  assumes "uspace s pt F"
  shows "\<exists>k. upto_fault (readable (pm s) pt) va len k \<and>
    copyin s pt va len = Ok (if k = len then 0 else -1, user_bytes s pt va k)"
  unfolding user_bytes_def using assms
proof (induction s pt va len rule: copyin.induct)
  case (1 s pt va len)
  let ?P = "readable (pm s) pt" and ?n = "chunk va len"
  consider "len = 0" | "len \<noteq> 0" "\<not> ?P va" | "len \<noteq> 0" "?P va" by blast
  then show ?case
  proof cases
    case 1
    then show ?thesis by (subst copyin.simps) (simp add: upto_fault_def)
  next
    case 2
    have "walkaddr s pt (pgof va) = Ok 0" by (rule unreadable_walk [OF 1(2) 2(2)])
    then show ?thesis using 2
      by (intro exI [of _ 0], subst copyin.simps) (simp add: upto_fault_0 PGROUNDDOWN_eq Let_def)
  next
    case 3
    then have va: "va < MAXVA" by (simp add: readable_def)
    have w: "walkaddr s pt (pgof va) = Ok (PTE2PA (pte_at (pm s) pt va))" "PTE2PA (pte_at (pm s) pt va) \<noteq> 0"
      using readable_walk [OF 1(2) va] readable_nonzero [OF 1(2)] 3 by auto
    have P: "?P (va + of_nat j)" if "j < ?n" for j
      using 3 uaddr_chunk [OF va that] by (simp add: readable_def)
    obtain k where k: "upto_fault ?P (va + of_nat ?n) (len - ?n) k"
      "copyin s pt (pgof va + PGSIZE) (len - ?n) =
         Ok (if k = len - ?n then 0 else -1, map (\<lambda>j. ubyte s pt (va + of_nat ?n + of_nat j)) [0..<k])"
    proof (cases "?n = len")
      case True
      then show thesis using that [of 0] copyin.simps [of s pt "pgof va + PGSIZE" 0] by (simp add: upto_fault_def)
    next
      case False
      then have "pgof va + PGSIZE = va + of_nat ?n" using chunk_end chunk_le le_neq_implies_less by blast
      then show thesis
        using 1(1) [OF 3(1) refl w(1) [folded PGROUNDDOWN_eq] w(2) refl 1(2), unfolded PGROUNDDOWN_eq] that
        by metis
    qed
    have "copyin s pt va len = Ok (if ?n + k = len then 0 else -1, map (\<lambda>j. ubyte s pt (va + of_nat j)) [0..<?n + k])"
    proof -
      have "map (\<lambda>j. ubyte s pt (va + of_nat j)) [0..<?n + k] =
          read_bytes (pm s) (uaddr (pm s) pt va) ?n @ map (\<lambda>j. ubyte s pt (va + of_nat ?n + of_nat j)) [0..<k]"
        unfolding read_chunk [OF va order.refl]
        by (rule nth_equalityI) (auto simp: nth_append add.assoc of_nat_add [symmetric] simp del: of_nat_add)
      moreover have "?n + k = len \<longleftrightarrow> k = len - ?n" using chunk_le [of va len] by auto
      ultimately show ?thesis
        using 3(1) w k(2) by (subst copyin.simps) (simp add: PGROUNDDOWN_eq Let_def uaddr_def)
    qed
    then show ?thesis using upto_fault_chunk [OF P chunk_le k(1)] by blast
  qed
qed

text \<open>What \<open>copyout\<close> leaves alone, whatever its outcome.\<close>

definition same_space :: "u64 \<Rightarrow> machine \<Rightarrow> machine \<Rightarrow> bool" where
  "same_space pt s s' \<longleftrightarrow> pte_at (pm s') pt = pte_at (pm s) pt \<and>
     table_pages (pm s') pt = table_pages (pm s) pt \<and> kend s' = kend s \<and> freelist s' = freelist s \<and>
     (\<forall>x. (\<forall>va. readable (pm s) pt va \<longrightarrow> pgof x \<noteq> PTE2PA (pte_at (pm s) pt va)) \<longrightarrow> pm s' x = pm s x)"

lemma same_space_trans:
  assumes "same_space pt s s1" "same_space pt s1 s2"
  shows "same_space pt s s2"
  using assms unfolding same_space_def readable_def by metis

lemma walk_user:
  assumes "wf_table s pt F" "va < MAXVA"
  obtains pte where "walk s pt (pgof va) False = Ok (pte, s)"
    "pte = 0 \<Longrightarrow> pte_at (pm s) pt va = 0" "pte \<noteq> 0 \<Longrightarrow> ld64 (pm s) pte = pte_at (pm s) pt va"
proof (cases "node (pm s) pt (path 2 (pgof va))")
  case None
  then show thesis
    using that [of 0] walk_lookup [of "pgof va" s pt] pgof_below_MAXVA [of va] pte_at_pgof [OF assms(2), of "pm s" pt] assms(2)
    by (simp add: pte_at_def)
next
  case (Some p)
  then show thesis
    using that [of "ea p (pxn 0 (pgof va))"] walk_lookup [of "pgof va" s pt] pgof_below_MAXVA [of va]
      pte_at_pgof [OF assms(2), of "pm s" pt] assms(2) ea_nonzero [of p "pxn 0 (pgof va)"]
      wf_tableD [OF assms(1) idx_ok_path Some]
    by (simp add: pte_at_def)
qed

lemma copyout_step:
  assumes "wf_table s pt F" "src \<noteq> []"
  shows "copyout s pt dst src =
    (if writable (pm s) pt dst
     then copyout (s\<lparr>pm := write_bytes (pm s) (uaddr (pm s) pt dst) (take (chunk dst (length src)) src)\<rparr>) pt
            (pgof dst + PGSIZE) (drop (chunk dst (length src)) src)
     else Ok (-1, s))"
proof (cases "dst < MAXVA")
  case True
  then obtain pte where w: "walk s pt (pgof dst) False = Ok (pte, s)"
    "pte = 0 \<Longrightarrow> pte_at (pm s) pt dst = 0" "pte \<noteq> 0 \<Longrightarrow> ld64 (pm s) pte = pte_at (pm s) pt dst"
    using walk_user [OF assms(1)] by blast
  have "\<not> MAXVA \<le> pgof dst" using True pgof_below_MAXVA [of dst] by simp
  then show ?thesis
    using w True assms(2)
    by (subst copyout.simps) (cases "pte = 0", auto simp: PGROUNDDOWN_eq Let_def writable_def readable_def uaddr_def)
next
  case False
  then have "MAXVA \<le> pgof dst" by (simp add: MAXVA_le_pgof not_less)
  then show ?thesis
    using False assms(2) by (subst copyout.simps) (simp add: PGROUNDDOWN_eq Let_def writable_def readable_def)
qed

text \<open>Two adjacent runs of bytes are one run.\<close>

lemma unat_minus_of_nat:
  assumes "n < 2 ^ 64"
  shows "unat ((x :: u64) - of_nat n) = (if n \<le> unat x then unat x - n else unat x + 2 ^ 64 - n)"
proof -
  have "unat (of_nat n :: u64) = n" by (rule unat_of_nat_u64 [OF assms])
  then show ?thesis unfolding unat_sub_if' by simp
qed

lemma bytes_append:
  fixes va dst :: u64
  assumes "n \<le> length src" "length src < 2 ^ 64" "k \<le> length src - n"
  shows "(if unat (va - (dst + of_nat n)) < k then drop n src ! unat (va - (dst + of_nat n))
     else if unat (va - dst) < n then take n src ! unat (va - dst) else b) =
    (if unat (va - dst) < n + k then src ! unat (va - dst) else b)"
proof -
  let ?x = "va - dst"
  have e: "va - (dst + of_nat n) = ?x - of_nat n" by simp
  have u: "unat (?x - of_nat n) = (if n \<le> unat ?x then unat ?x - n else unat ?x + 2 ^ 64 - n)"
    using assms by (intro unat_minus_of_nat) simp
  define y where "y = unat ?x"
  have "y + 2 ^ 64 - n \<ge> k" using assms by simp
  then show ?thesis unfolding e u y_def [symmetric] using assms by auto
qed

lemma copyout_spec:
  assumes "uspace s pt F" "kinv s F" "length src < 2 ^ 64"
  shows "\<exists>k s'. upto_fault (writable (pm s) pt) dst (length src) k \<and>
    copyout s pt dst src = Ok (if k = length src then 0 else -1, s') \<and>
    uspace s' pt F \<and> kinv s' F \<and> same_space pt s s' \<and>
    (\<forall>va. readable (pm s) pt va \<longrightarrow>
      ubyte s' pt va = (if unat (va - dst) < k then src ! unat (va - dst) else ubyte s pt va))"
  using assms
proof (induction "length src" arbitrary: s dst src rule: less_induct)
  case less
  let ?P = "writable (pm s) pt" and ?n = "chunk dst (length src)"
  have sp: "same_space pt s s" by (simp add: same_space_def)
  note step = copyout_step [OF uspaceD(1) [OF less.prems(1)], of src dst]
  consider "src = []" | "src \<noteq> []" "\<not> ?P dst" | "src \<noteq> []" "?P dst" by blast
  then show ?case
  proof cases
    case 1
    then show ?thesis using less.prems sp by (subst copyout.simps) (auto simp: upto_fault_def)
  next
    case 2
    then show ?thesis
      using less.prems sp step by (intro exI [of _ 0] exI [of _ s]) (simp add: upto_fault_0)
  next
    case 3
    then have rd: "readable (pm s) pt dst" and va: "dst < MAXVA" by (auto simp: writable_def readable_def)
    let ?s1 = "s\<lparr>pm := write_bytes (pm s) (uaddr (pm s) pt dst) (take ?n src)\<rparr>"
    let ?src = "drop ?n src"
    have len: "length (take ?n src) \<le> ?n" and n: "?n \<le> length src" by (auto simp: chunk_le)
    note W = write_chunk [OF less.prems(1,2) rd len]
    have P1: "writable (pm ?s1) pt = ?P" "readable (pm ?s1) pt = readable (pm s) pt"
      using W(3) by (auto simp: writable_def readable_def fun_eq_iff)
    have P: "?P (dst + of_nat j)" if "j < ?n" for j
      using 3 uaddr_chunk [OF va that] by (simp add: writable_def readable_def)
    obtain k s' where k: "upto_fault ?P (dst + of_nat ?n) (length ?src) k"
      "copyout ?s1 pt (pgof dst + PGSIZE) ?src = Ok (if k = length ?src then 0 else -1, s')"
      "uspace s' pt F" "kinv s' F" "same_space pt ?s1 s'"
      "\<And>va. readable (pm s) pt va \<Longrightarrow>
        ubyte s' pt va = (if unat (va - (dst + of_nat ?n)) < k then ?src ! unat (va - (dst + of_nat ?n)) else ubyte ?s1 pt va)"
    proof (cases "?n = length src")
      case True
      then show thesis
        using that [of 0 ?s1] W(1,2) copyout.simps [of ?s1 pt "pgof dst + PGSIZE" "[]"]
        by (simp add: upto_fault_def same_space_def)
    next
      case False
      then have e: "pgof dst + PGSIZE = dst + of_nat ?n" using chunk_end n le_neq_implies_less by blast
      have "length ?src < length src" using 3(1) chunk_pos [of "length src" dst] by simp
      moreover from this have "length ?src < 2 ^ 64" using less.prems(3) by simp
      ultimately show thesis
        using less.hyps [of ?src ?s1 "dst + of_nat ?n"] W(1,2) that unfolding P1 e by blast
    qed
    have "same_space pt s ?s1"
      using W(3,5,6) rd by (auto simp: same_space_def)
    then have "same_space pt s s'" using k(5) by (rule same_space_trans)
    moreover have "ubyte s' pt va = (if unat (va - dst) < ?n + k then src ! unat (va - dst) else ubyte s pt va)"
      if "readable (pm s) pt va" for va
    proof -
      have "k \<le> length src - ?n" using k(1) by (simp add: upto_fault_def)
      note b = bytes_append [OF n less.prems(3) this, of va dst "ubyte s pt va"]
      have "length (take ?n src) = ?n" using n by simp
      then show ?thesis unfolding k(6) [OF that] W(4) [OF that] b [symmetric] by simp
    qed
    moreover have "copyout s pt dst src = Ok (if ?n + k = length src then 0 else -1, s')"
      using step 3 k(2) n by auto
    moreover have "upto_fault ?P dst (length src) (?n + k)"
      by (rule upto_fault_chunk) (use P n k(1) in auto)
    ultimately show ?thesis using k(3,4) by blast
  qed
qed

section \<open>Strings from user space\<close>

definition c_string :: "u8 list \<Rightarrow> bool" where
  "c_string bs \<longleftrightarrow> bs \<noteq> [] \<and> last bs = 0 \<and> 0 \<notin> set (butlast bs)"

lemma copystr_spec:
  assumes "copystr m p n = (g, bs)"
  shows "bs = read_bytes m p (length bs) \<and> length bs \<le> n \<and> (g \<longrightarrow> c_string bs) \<and>
    (\<not> g \<longrightarrow> length bs = n \<and> 0 \<notin> set bs)"
  using assms
proof (induction n arbitrary: p g bs)
  case (Suc n)
  show ?case
  proof (cases "m p = 0")
    case True
    with Suc.prems show ?thesis by (auto simp: c_string_def)
  next
    case False
    obtain g' bs' where c: "copystr m (p + 1) n = (g', bs')" by force
    with Suc.prems False have "g = g'" "bs = m p # bs'" by auto
    with Suc.IH [OF c] False show ?thesis by (auto simp: c_string_def)
  qed
qed auto

lemma c_string_append: "0 \<notin> set xs \<Longrightarrow> c_string ys \<Longrightarrow> c_string (xs @ ys)"
  by (auto simp: c_string_def butlast_append)

lemma copyinstr_spec:
  assumes "uspace s pt F"
  shows "\<exists>r k. copyinstr s pt va maxlen = Ok (r, user_bytes s pt va k) \<and> k \<le> maxlen \<and>
    (\<forall>j < k. readable (pm s) pt (va + of_nat j)) \<and>
    (r = 0 \<and> c_string (user_bytes s pt va k) \<or>
     r = -1 \<and> 0 \<notin> set (user_bytes s pt va k) \<and> (k < maxlen \<longrightarrow> \<not> readable (pm s) pt (va + of_nat k)))"
proof (induction maxlen arbitrary: va rule: less_induct)
  case (less len)
  let ?P = "readable (pm s) pt" and ?n = "chunk va len" and ?fr = "PTE2PA (pte_at (pm s) pt va)"
  consider "len = 0" | "len \<noteq> 0" "\<not> ?P va" | "len \<noteq> 0" "?P va" by blast
  then show ?case
  proof cases
    case 1
    then show ?thesis
      by (intro exI [of _ "-1"] exI [of _ 0], subst copyinstr.simps) (simp add: user_bytes_def)
  next
    case 2
    have "walkaddr s pt (pgof va) = Ok 0"
      by (rule unreadable_walk [OF assms 2(2)])
    then show ?thesis using 2
      by (intro exI [of _ "-1"] exI [of _ 0], subst copyinstr.simps) (simp add: PGROUNDDOWN_eq Let_def user_bytes_def)
  next
    case 3
    then have va: "va < MAXVA" by (simp add: readable_def)
    have w: "walkaddr s pt (pgof va) = Ok ?fr" "?fr \<noteq> 0"
      using readable_walk [OF assms va] readable_nonzero [OF assms] 3 by auto
    obtain g bs where c: "copystr (pm s) (uaddr (pm s) pt va) ?n = (g, bs)" by force
    note C = copystr_spec [OF c]
    have bs: "bs = user_bytes s pt va (length bs)"
      using C read_chunk [OF va, of "length bs" len s pt] by (metis user_bytes_def)
    have P: "?P (va + of_nat j)" if "j < ?n" for j
      using 3 uaddr_chunk [OF va that] by (simp add: readable_def)
    have step: "copyinstr s pt va len = (if g then Ok (0, bs) else
        and_then (copyinstr s pt (pgof va + PGSIZE) (len - ?n)) (\<lambda>(r, bs'). Ok (r, bs @ bs')))"
      using 3 w c by (subst copyinstr.simps) (simp add: PGROUNDDOWN_eq Let_def uaddr_def)
    show ?thesis
    proof (cases g)
      case True
      then show ?thesis
        using C step bs P chunk_le [of va len] by (intro exI [of _ 0] exI [of _ "length bs"]) auto
    next
      case False
      then have len: "length bs = ?n" "0 \<notin> set bs" using C by auto
      obtain r k where k: "copyinstr s pt (pgof va + PGSIZE) (len - ?n) = Ok (r, user_bytes s pt (va + of_nat ?n) k)"
        "k \<le> len - ?n" "\<forall>j < k. ?P (va + of_nat ?n + of_nat j)"
        "r = 0 \<and> c_string (user_bytes s pt (va + of_nat ?n) k) \<or>
         r = -1 \<and> 0 \<notin> set (user_bytes s pt (va + of_nat ?n) k) \<and>
           (k < len - ?n \<longrightarrow> \<not> ?P (va + of_nat ?n + of_nat k))"
      proof (cases "?n = len")
        case True
        then show thesis
          using that [of "-1" 0] copyinstr.simps [of s pt "pgof va + PGSIZE" 0] by (simp add: user_bytes_def)
      next
        case False
        then have e: "pgof va + PGSIZE = va + of_nat ?n" using chunk_end chunk_le le_neq_implies_less by blast
        have "len - ?n < len" using 3(1) chunk_pos [of len va] by simp
        from less.IH [OF this, of "va + of_nat ?n"] show thesis using that unfolding e by blast
      qed
      have app: "bs @ user_bytes s pt (va + of_nat ?n) k = user_bytes s pt va (?n + k)"
        using bs len(1) user_bytes_append by metis
      have "copyinstr s pt va len = Ok (r, user_bytes s pt va (?n + k))"
        using step k(1) False by (simp add: app)
      moreover have "?n + k \<le> len" using k(2) chunk_le [of va len] by linarith
      moreover have "?P (va + of_nat j)" if "j < ?n + k" for j
        by (cases "j < ?n") (use P k(3) that in \<open>auto simp: add.assoc dest!: spec [of _ "j - ?n"]\<close>)
      moreover have "c_string (user_bytes s pt (va + of_nat ?n) k) \<Longrightarrow> c_string (user_bytes s pt va (?n + k))"
        using c_string_append [OF len(2)] app by metis
      moreover have "0 \<notin> set (user_bytes s pt (va + of_nat ?n) k) \<Longrightarrow> 0 \<notin> set (user_bytes s pt va (?n + k))"
        using len(2) app by (metis Un_iff set_append)
      moreover have "va + of_nat (?n + k) = va + of_nat ?n + of_nat k" by (simp add: add.assoc)
      ultimately show ?thesis using k(4) less_diff_conv [of k len ?n] by (metis add.commute)
    qed
  qed
qed

section \<open>An example space\<close>

text \<open>A machine with one user page: three table pages and one frame, no free memory.\<close>

definition one_page :: machine where
  "one_page = \<lparr>pm = st64 (st64 (st64 (\<lambda>_. 0)
       (ea 0x80021000 0) (PA2PTE 0x80022000 OR PTE_V))
       (ea 0x80022000 0) (PA2PTE 0x80023000 OR PTE_V))
       (ea 0x80023000 0) (PA2PTE 0x80024000 OR (PTE_R OR PTE_W OR PTE_U OR PTE_V)),
     freelist = 0, kend = 0x80021000\<rparr>"

lemma kend_one_page [simp]: "kend one_page = 0x80021000"
  by (simp add: one_page_def)

lemma one_page_ld:
  assumes "aligned p" "i < 512"
  shows "ld64 (pm one_page) (ea p i) =
    (if i = 0 then
       if p = 0x80023000 then PA2PTE 0x80024000 OR (PTE_R OR PTE_W OR PTE_U OR PTE_V)
       else if p = 0x80022000 then PA2PTE 0x80023000 OR PTE_V
       else if p = 0x80021000 then PA2PTE 0x80022000 OR PTE_V else 0
     else 0)"
proof -
  have "aligned 0x80021000" "aligned 0x80022000" "aligned 0x80023000" by (simp_all add: aligned_def)
  then show ?thesis
    using assms unfolding one_page_def machine.simps
    by (simp add: ld64_st64_ea) (simp add: ld64_def)
qed

lemma one_page_node:
  assumes "idx_ok is"
  shows "node (pm one_page) 0x80021000 is =
    (if is = [] then Some 0x80021000 else if is = [0] then Some 0x80022000
     else if is = [0, 0] then Some 0x80023000 else None)"
proof -
  have al: "aligned 0x80021000" "aligned 0x80022000" "aligned 0x80023000" by (simp_all add: aligned_def)
  have e: "PTE2PA (PA2PTE 0x80022000 OR PTE_V) = 0x80022000" "PTE2PA (PA2PTE 0x80023000 OR PTE_V) = 0x80023000"
    using al by (simp_all add: PTE2PA_PA2PTE)
  consider "is = []" | i where "is = [i]" "i < 512" | i j where "is = [i, j]" "i < 512" "j < 512"
    using assms by (auto simp: idx_ok_def length_Suc_conv le_Suc_eq numeral_2_eq_2)
  then show ?thesis
    by cases (use al e in \<open>auto simp: one_page_ld\<close>)
qed

lemma path_2: "path 2 va = [pxn 2 va, pxn 1 va]"
  by (simp add: numeral_2_eq_2)

lemma one_page_pte:
  assumes "va < MAXVA"
  shows "pte_at (pm one_page) 0x80021000 va =
    (if pgof va = 0 then PA2PTE 0x80024000 OR (PTE_R OR PTE_W OR PTE_U OR PTE_V) else 0)"
proof -
  have z: "pxn l 0 = 0" for l by (simp add: pxn_eq)
  have M: "0 < MAXVA" by (simp add: word_less_nat_alt unat_MAXVA)
  have "pgof va = 0 \<longleftrightarrow> pxn 2 va = 0 \<and> pxn 1 va = 0 \<and> pxn 0 va = 0"
    using same_page_iff [OF assms M] z by (simp add: pgof_def)
  moreover note path_2 [of va]
  moreover have "aligned 0x80023000" by (simp add: aligned_def)
  ultimately show ?thesis
    using one_page_node [OF idx_ok_path, of va] by (auto simp: pte_at_def one_page_ld)
qed

lemma one_page_flags:
  "let e = PA2PTE 0x80024000 OR (PTE_R OR PTE_W OR PTE_U OR PTE_V) in
   PTE2PA e = 0x80024000 \<and> e AND PTE_V \<noteq> 0 \<and> e AND PTE_U \<noteq> 0 \<and> e AND PTE_W \<noteq> 0"
  by (simp add: PA2PTE_def PTE2PA_def PTE_R_def PTE_W_def PTE_U_def PTE_V_def)

lemma one_page_readable: "readable (pm one_page) 0x80021000 va \<longleftrightarrow> pgof va = 0 \<and> va < MAXVA"
  using one_page_flags one_page_pte [of va] by (cases "pgof va = 0") (auto simp: readable_def Let_def)

lemma one_page_writable: "writable (pm one_page) 0x80021000 va \<longleftrightarrow> pgof va = 0 \<and> va < MAXVA"
  using one_page_flags one_page_pte [of va] one_page_readable [of va]
  by (cases "pgof va = 0") (auto simp: writable_def Let_def)

lemma one_page_tables: "table_pages (pm one_page) 0x80021000 = {0x80021000, 0x80022000, 0x80023000}"
proof -
  have "idx_ok []" "idx_ok [0]" "idx_ok [0, 0]" by (simp_all add: idx_ok_def)
  then show ?thesis
    using one_page_node unfolding table_pages_def
    by (auto split: if_splits) (metis list.distinct(1) list.inject)+
qed

lemma one_page_kinv: "kinv one_page {}"
  unfolding kinv_def by (rule exI [of _ "[]"]) (simp add: kmem_inv_def one_page_def)

lemma one_page_wf: "wf_table one_page 0x80021000 {}"
  unfolding wf_table_def one_page_tables
  by (auto simp: one_page_node valid_page_def aligned_def PHYSTOP_def KERNBASE_def split: if_splits)

lemma one_page_uspace: "uspace one_page 0x80021000 {}"
proof -
  have "valid_page one_page 0x80024000"
    by (simp add: valid_page_def aligned_def PHYSTOP_def KERNBASE_def)
  then show ?thesis
    using one_page_wf one_page_flags unfolding uspace_def one_page_readable one_page_tables
    by (auto simp: one_page_pte Let_def)
qed

lemma one_page_low: "unat v < 4096 \<Longrightarrow> pgof v = 0 \<and> v < MAXVA"
  by (simp add: word_less_nat_alt unat_MAXVA word_unat_eq_iff unat_pgof)

lemma one_page_run:
  assumes "j < 4000"
  shows "writable (pm one_page) 0x80021000 (8 + of_nat j)"
proof -
  have "unat (of_nat (8 + j) :: u64) = 8 + j" using assms by (intro unat_of_nat_u64) simp
  then have "unat (8 + of_nat j :: u64) < 4096" using assms by simp
  from one_page_low [OF this] show ?thesis by (simp add: one_page_writable)
qed

lemma one_page_byte: "ubyte one_page 0x80021000 0 = 0"
proof -
  have "uaddr (pm one_page) 0x80021000 0 = 0x80024000"
    using one_page_pte [of 0] one_page_low [of 0] one_page_flags by (simp add: uaddr_def Let_def)
  moreover have "pm one_page 0x80024000 = 0"
  proof -
    have "pgof 0x80024000 = 0x80024000" "aligned 0x80021000" "aligned 0x80022000" "aligned 0x80023000"
      by (simp_all add: aligned_def)
    then show ?thesis by (simp add: one_page_def st64_ea_other)
  qed
  ultimately show ?thesis by (simp add: ubyte_def)
qed

lemma one_page_unmapped:
  assumes "4096 \<le> unat v" "unat v < 8192"
  shows "pte_at (pm one_page) 0x80021000 v AND PTE_V = 0"
proof -
  have "v < MAXVA" using assms by (simp add: word_less_nat_alt unat_MAXVA)
  moreover have "unat (pgof v) \<noteq> 0" using assms by (simp add: unat_pgof)
  ultimately show ?thesis by (auto simp: one_page_pte)
qed

lemma upto_fault_all:
  assumes "upto_fault P va len k" "\<And>j. j < len \<Longrightarrow> P (va + of_nat j)"
  shows "k = len"
  using assms unfolding upto_fault_def by force

section \<open>Properties\<close>

text \<open>C4: \<^verbatim>\<open>mappages\<close> on \<open>n\<close> unmapped pages below \<^verbatim>\<open>MAXVA\<close> never panics. When it returns 0
  every page of the range has the entry for its frame and every other address keeps its
  entry; it returns -1 only when no free page is left, and then a prefix of the range is
  mapped. The table stays well formed, the allocator stays consistent, and nothing but
  the table's own pages and pages taken from the allocator is written.\<close>

theorem mappages_maps_range:
  assumes "kinv s F" "wf_table s pt F" "aligned va" "0 < n" "unat va + 4096 * n \<le> 2 ^ 38"
    and "\<And>v. unat va \<le> unat v \<Longrightarrow> unat v < unat va + 4096 * n \<Longrightarrow> pte_at (pm s) pt v AND PTE_V = 0"
  shows "\<exists>r s' F' k. mappages s pt va (of_nat (4096 * n)) pa perm = Ok (r, s') \<and>
    remaps pt s F s' F' (mapped_range (pte_at (pm s) pt) va k pa perm) \<and>
    (r = 0 \<and> k = n \<or> r = -1 \<and> k < n \<and> F' = {})"
  by (rule mappages_spec) (use assms in auto)

theorem mappages_maps_range_witness:
  "\<exists>r s' F' k. mappages one_page 0x80021000 4096 4096 0x80024000 (PTE_R OR PTE_U) = Ok (r, s') \<and>
    remaps 0x80021000 one_page {} s' F' (mapped_range (pte_at (pm one_page) 0x80021000) 4096 k 0x80024000 (PTE_R OR PTE_U)) \<and>
    (r = 0 \<and> k = 1 \<or> r = -1 \<and> k < 1 \<and> F' = {})"
proof -
  have "pte_at (pm one_page) 0x80021000 v AND PTE_V = 0" if "4096 \<le> unat v" "unat v < 8192" for v
    using that by (rule one_page_unmapped)
  then show ?thesis
    using mappages_maps_range [OF one_page_kinv one_page_wf, where va = 4096 and n = 1 and pa = "0x80024000" and perm = "PTE_R OR PTE_U"]
    by (simp add: aligned_def)
qed

text \<open>C5: After \<^verbatim>\<open>mappages\<close> has mapped a range with the user bit, \<^verbatim>\<open>walkaddr\<close> translates every
  address of the range to its frame and every other address as before.\<close>

theorem walkaddr_after_mappages:
  assumes "kinv s F" "wf_table s pt F" "aligned va" "0 < n" "unat va + 4096 * n \<le> 2 ^ 38"
    and "\<And>v. unat va \<le> unat v \<Longrightarrow> unat v < unat va + 4096 * n \<Longrightarrow> pte_at (pm s) pt v AND PTE_V = 0"
    and "aligned pa" "flag_bits perm" "perm AND PTE_U \<noteq> 0"
    and map: "mappages s pt va (of_nat (4096 * n)) pa perm = Ok (0, s')"
  shows "walkaddr s' pt v =
    (if unat va \<le> unat v \<and> unat v < unat va + 4096 * n then Ok (pa + (pgof v - va)) else walkaddr s pt v)"
proof (cases "v < MAXVA")
  case True
  obtain F' where R: "remaps pt s F s' F' (mapped_range (pte_at (pm s) pt) va n pa perm)"
    using mappages_spec [OF assms(2,1,3-6), where pa = pa and perm = perm] map by auto
  note wf = remapsD(1) [OF R] and e = remapsD(5) [OF R True]
  show ?thesis
    using walkaddr_mapped [OF wf True e assms(3,7-9)] walkaddr_eq [OF wf True] walkaddr_eq [OF assms(2) True] e
    by (auto simp: mapped_range_def)
next
  case False
  then have "\<not> unat v < 2 ^ 38" by (simp add: word_less_nat_alt unat_MAXVA)
  with False assms(5) show ?thesis by (simp add: walkaddr_def not_less)
qed

theorem walkaddr_after_mappages_witness:
  "\<exists>s'. mappages one_page 0x80021000 4096 4096 0x80024000 (PTE_R OR PTE_U) = Ok (0, s') \<and>
    walkaddr s' 0x80021000 5000 = Ok 0x80024000"
proof -
  let ?perm = "PTE_R OR PTE_U" and ?pte = "ea 0x80023000 1"
  have un: "pte_at (pm one_page) 0x80021000 v AND PTE_V = 0" if "4096 \<le> unat v" "unat v < 8192" for v
    using that by (rule one_page_unmapped)
  have px: "path 2 4096 = [0, 0]" "pxn 0 4096 = 1" by (simp_all add: path_2 pxn_eq)
  have M: "\<not> MAXVA \<le> 4096" by (simp add: MAXVA_def)
  have "node (pm one_page) 0x80021000 (path 2 4096) = Some 0x80023000"
    using one_page_node [OF idx_ok_path, of 4096] px by simp
  from walk_level_present [OF this, of True] have w: "walk one_page 0x80021000 4096 True = Ok (?pte, one_page)"
    using px M by (simp add: walk_def)
  have "aligned 0x80023000" by (simp add: aligned_def)
  then have "ld64 (pm one_page) ?pte = 0" "?pte \<noteq> 0" using one_page_ld [of "0x80023000" 1] by (simp_all add: ea_def)
  with w have m: "mappages one_page 0x80021000 4096 4096 0x80024000 ?perm =
      Ok (0, one_page\<lparr>pm := st64 (pm one_page) ?pte (PA2PTE 0x80024000 OR ?perm OR PTE_V)\<rparr>)"
    by (simp add: mappages_def mappages_loop.simps Let_def PGSIZE_def)
  moreover have "?perm AND PTE_U \<noteq> 0" by (simp add: PTE_R_def PTE_U_def)
  moreover have "pgof 5000 = 4096" by (simp add: pgof_def)
  ultimately show ?thesis
    using walkaddr_after_mappages [OF one_page_kinv one_page_wf, where va = 4096 and n = 1 and pa = "0x80024000"
        and perm = ?perm and v = 5000] un flag_bits_or [of PTE_R PTE_U]
    by (simp add: aligned_def)
qed

text \<open>C6: \<^verbatim>\<open>uvmunmap\<close> over \<open>n\<close> mapped leaf pages never panics: it clears exactly their entries
  and leaves every other translation alone, and with \<^verbatim>\<open>do_free\<close> it returns exactly the frames
  of those pages to the allocator.\<close>

theorem uvmunmap_returns_frames:
  assumes "kinv s F" "wf_table s pt F" "aligned a" "unat a + 4096 * n \<le> 2 ^ 38"
    and "leaves (pm s) pt a n" "do_free \<longrightarrow> owned s pt F a n"
  shows "\<exists>s'. uvmunmap s pt a (of_nat n) do_free = Ok s' \<and>
    unmaps pt s F s' (F \<union> (if do_free then frame (pm s) pt a ` {..<n} else {}))
      (cleared (pte_at (pm s) pt) a n)"
  by (rule uvmunmap_spec) (use assms in auto)

theorem uvmunmap_returns_frames_witness:
  "\<exists>s'. uvmunmap one_page 0x80021000 0 1 True = Ok s' \<and>
    unmaps 0x80021000 one_page {} s' {0x80024000} (cleared (pte_at (pm one_page) 0x80021000) 0 1)"
proof -
  have M: "0 < MAXVA" by (simp add: word_less_nat_alt unat_MAXVA)
  let ?e = "PA2PTE 0x80024000 OR (PTE_R OR PTE_W OR PTE_U OR PTE_V)"
  have e: "pte_at (pm one_page) 0x80021000 0 = ?e"
    using one_page_pte [OF M] by (simp add: pgof_def)
  have p: "PTE2PA ?e = 0x80024000" "?e AND PTE_V \<noteq> 0" using one_page_flags by (simp_all add: Let_def)
  have "PTE_FLAGS ?e = PTE_R OR PTE_W OR PTE_U OR PTE_V"
    by (intro PTE_FLAGS_PA2PTE flag_bits_or) auto
  then have f: "PTE_FLAGS ?e \<noteq> PTE_V"
    by (simp add: PTE_R_def PTE_W_def PTE_U_def PTE_V_def)
  have "leaves (pm one_page) 0x80021000 0 1" using e p f by (simp add: leaves_def)
  moreover have "owned one_page 0x80021000 {} 0 1"
    using e p
    by (simp add: owned_def frame_def one_page_tables valid_page_def aligned_def PHYSTOP_def KERNBASE_def lessThan_Suc)
  ultimately show ?thesis
    using uvmunmap_returns_frames [OF one_page_kinv one_page_wf, where a = 0 and n = 1 and do_free = True]
      e p by (simp add: aligned_def frame_def lessThan_Suc)
qed

text \<open>C3: \<^verbatim>\<open>copyout\<close> writes the bytes of \<^verbatim>\<open>src\<close> in order to the user addresses from \<^verbatim>\<open>dstva\<close> and
  nothing else that the user can see. It returns 0 exactly when every byte lies in a page
  that is present, user accessible and writable; otherwise it returns -1, having written
  the bytes before the first page that is not.\<close>

theorem copyout_writes_user_memory:
  assumes "uspace s pt F" "kinv s F" "length src < 2 ^ 64"
  shows "\<exists>k s'. upto_fault (writable (pm s) pt) dstva (length src) k \<and>
    copyout s pt dstva src = Ok (if k = length src then 0 else -1, s') \<and>
    uspace s' pt F \<and> kinv s' F \<and> same_space pt s s' \<and>
    (\<forall>va. readable (pm s) pt va \<longrightarrow>
      ubyte s' pt va = (if unat (va - dstva) < k then src ! unat (va - dstva) else ubyte s pt va))"
  by (rule copyout_spec) (use assms in auto)

theorem copyout_writes_user_memory_witness:
  "\<exists>s'. copyout one_page 0x80021000 8 [1, 2, 3] = Ok (0, s') \<and> ubyte s' 0x80021000 9 = 2"
proof -
  obtain k s' where k: "upto_fault (writable (pm one_page) 0x80021000) 8 3 k"
    "copyout one_page 0x80021000 8 [1, 2, 3] = Ok (if k = 3 then 0 else -1, s')"
    "\<forall>va. readable (pm one_page) 0x80021000 va \<longrightarrow>
      ubyte s' 0x80021000 va = (if unat (va - 8) < k then [1, 2, 3] ! unat (va - 8) else ubyte one_page 0x80021000 va)"
    using copyout_writes_user_memory [OF one_page_uspace one_page_kinv, where src = "[1, 2, 3]" and dstva = 8]
    by (simp del: One_nat_def add: numeral_3_eq_3) (metis One_nat_def)
  have "k = 3" by (rule upto_fault_all [OF k(1)]) (auto intro: one_page_run)
  with k(2,3) show ?thesis by (auto simp: one_page_readable one_page_low)
qed

text \<open>C2: What \<^verbatim>\<open>copyout\<close> has stored, \<^verbatim>\<open>copyin\<close> reads back.\<close>

theorem copyin_after_copyout:
  assumes "uspace s pt F" "kinv s F" "length src < 2 ^ 64"
    and out: "copyout s pt va src = Ok (0, s')"
  shows "copyin s' pt va (length src) = Ok (0, src)"
proof -
  from copyout_spec [OF assms(1-3), of va] out
  have up: "upto_fault (writable (pm s) pt) va (length src) (length src)" and us: "uspace s' pt F"
    and sp: "same_space pt s s'"
    and b: "\<And>v. readable (pm s) pt v \<Longrightarrow>
      ubyte s' pt v = (if unat (v - va) < length src then src ! unat (v - va) else ubyte s pt v)"
    by (auto split: if_splits)
  have w: "readable (pm s) pt (va + of_nat j)" if "j < length src" for j
    using up that by (auto simp: upto_fault_def writable_def)
  then have r: "readable (pm s') pt (va + of_nat j)" if "j < length src" for j
    using sp that by (auto simp: same_space_def readable_def)
  obtain k where k: "upto_fault (readable (pm s') pt) va (length src) k"
    "copyin s' pt va (length src) = Ok (if k = length src then 0 else -1, user_bytes s' pt va k)"
    using copyin_spec [OF us] by blast
  have "k = length src" by (rule upto_fault_all [OF k(1) r])
  moreover have "user_bytes s' pt va (length src) = src"
  proof (rule nth_equalityI)
    fix i assume "i < length (user_bytes s' pt va (length src))"
    then have i: "i < length src" by simp
    then have "unat (of_nat i :: u64) = i" using assms(3) by (intro unat_of_nat_u64) simp
    then show "user_bytes s' pt va (length src) ! i = src ! i"
      using i b [OF w [OF i]] by (simp add: user_bytes_def)
  qed simp
  ultimately show ?thesis using k(2) by simp
qed

theorem copyin_after_copyout_witness:
  "\<exists>s'. copyout one_page 0x80021000 8 [1, 2, 3] = Ok (0, s') \<and> copyin s' 0x80021000 8 3 = Ok (0, [1, 2, 3])"
proof -
  let ?src = "[1, 2, 3] :: u8 list"
  obtain k s' where k: "upto_fault (writable (pm one_page) 0x80021000) 8 (length ?src) k"
    "copyout one_page 0x80021000 8 ?src = Ok (if k = length ?src then 0 else -1, s')"
    using copyout_spec [OF one_page_uspace one_page_kinv, of ?src 8] by auto
  have "k = length ?src" by (rule upto_fault_all [OF k(1)]) (simp add: one_page_run)
  with k(2) have out: "copyout one_page 0x80021000 8 ?src = Ok (0, s')" by simp
  with copyin_after_copyout [OF one_page_uspace one_page_kinv _ out] show ?thesis
    by (simp add: numeral_3_eq_3)
qed

text \<open>C7: \<^verbatim>\<open>copyinstr\<close> returns 0 only with a NUL-terminated string of at most \<^verbatim>\<open>max\<close> bytes that are
  the user's bytes from \<^verbatim>\<open>srcva\<close>; it returns -1 exactly when there is no NUL among the first
  \<^verbatim>\<open>max\<close> bytes or an inaccessible page comes before it.\<close>

theorem copyinstr_reads_string:
  assumes "uspace s pt F"
  shows "\<exists>r k. copyinstr s pt va maxlen = Ok (r, user_bytes s pt va k) \<and> k \<le> maxlen \<and>
    (\<forall>j < k. readable (pm s) pt (va + of_nat j)) \<and>
    (r = 0 \<and> c_string (user_bytes s pt va k) \<or>
     r = -1 \<and> 0 \<notin> set (user_bytes s pt va k) \<and> (k < maxlen \<longrightarrow> \<not> readable (pm s) pt (va + of_nat k)))"
  by (rule copyinstr_spec [OF assms])

theorem copyinstr_reads_string_witness:
  "\<exists>k. copyinstr one_page 0x80021000 0 10 = Ok (0, user_bytes one_page 0x80021000 0 k) \<and>
    c_string (user_bytes one_page 0x80021000 0 k)"
proof -
  obtain r k where k: "copyinstr one_page 0x80021000 0 10 = Ok (r, user_bytes one_page 0x80021000 0 k)"
    "r = 0 \<and> c_string (user_bytes one_page 0x80021000 0 k) \<or>
     r = -1 \<and> 0 \<notin> set (user_bytes one_page 0x80021000 0 k) \<and>
       (k < 10 \<longrightarrow> \<not> readable (pm one_page) 0x80021000 (0 + of_nat k))"
    using copyinstr_reads_string [OF one_page_uspace, of 0 10] by blast
  have "0 \<in> set (user_bytes one_page 0x80021000 0 k)" if "0 < k"
    using that one_page_byte by (force simp: user_bytes_def)
  moreover have "readable (pm one_page) 0x80021000 0" using one_page_low [of 0] by (simp add: one_page_readable)
  ultimately show ?thesis using k by (cases "k = 0") auto
qed

end
