(* ===== verification/Proc.thy ===== *)
theory Proc
  imports Vm_User
begin

text \<open>
  The process table of \<^verbatim>\<open>kernel/proc.c\<close> and \<^verbatim>\<open>kernel/proc.h\<close>: allocation and release of
  slots, sleep and wakeup, \<^verbatim>\<open>wait\<close>, \<^verbatim>\<open>waitpid\<close>, \<^verbatim>\<open>kill\<close>, the scheduler's choices, \<^verbatim>\<open>sysinfo\<close>
  and signals. A process is named by its index in \<^verbatim>\<open>proc[]\<close>; the argument \<open>p\<close> or \<open>me\<close> of an
  operation is \<^verbatim>\<open>myproc()\<close>. An operation that holds \<^verbatim>\<open>wait_lock\<close> or a \<^verbatim>\<open>p->lock\<close> from its
  first to its last access of the data those locks protect is one atomic step.
\<close>

section \<open>Processes\<close>

definition NPROC :: nat where "NPROC = 64"
definition NOFILE :: nat where "NOFILE = 16"
definition NCPU :: nat where "NCPU = 8"
definition SIGINT :: nat where "SIGINT = 2"

datatype procstate = UNUSED | USED | SLEEPING | RUNNABLE | RUNNING | ZOMBIE

text \<open>
  A channel is the address of an object: of a process, of \<^verbatim>\<open>ticks\<close>, of the \<^verbatim>\<open>nread\<close> or
  \<^verbatim>\<open>nwrite\<close> field of the pipe at a page, of the log, of a sleep-lock, of \<^verbatim>\<open>cons.r\<close>, of
  \<^verbatim>\<open>uart_tx_r\<close>, of a buffer or of the disk's descriptor table. Different objects have
  different addresses.
\<close>

datatype chan = ChProc nat | ChTicks | ChPipeRead u64 | ChPipeWrite u64 | ChLog
  | ChSleeplock nat | ChConsole | ChUart | ChBuf nat | ChDiskFree

record ctx =
  ctx_ra :: u64
  ctx_sp :: u64

record proc =
  p_state :: procstate
  p_chan :: "chan option"
  p_killed :: int
  p_xstate :: int
  p_pid :: int
  p_parent :: "nat option"
  p_kstack :: u64
  p_sz :: u64
  p_pagetable :: u64
  p_trapframe :: u64
  p_context :: ctx
  p_ofile :: "nat option list"
  p_cwd :: "nat option"
  p_name :: "u8 list"
  p_pending_signals :: u32
  p_sig_handlers :: "u64 list"

text \<open>
  What the process code works on: memory, the table, \<^verbatim>\<open>nextpid\<close>, \<^verbatim>\<open>initproc\<close>, \<^verbatim>\<open>ticks\<close>,
  \<^verbatim>\<open>cpus[i].proc\<close>, and the addresses the linker gives \<^verbatim>\<open>trampoline\<close> and \<^verbatim>\<open>forkret\<close>.
\<close>

record sys =
  mch :: machine
  procs :: "proc list"
  nextpid :: int
  initproc :: "nat option"
  ticks :: u32
  cpus :: "nat option list"
  trampoline :: u64
  forkret_addr :: u64

definition upd_proc :: "nat \<Rightarrow> (proc \<Rightarrow> proc) \<Rightarrow> sys \<Rightarrow> sys" where
  "upd_proc i f s = s\<lparr>procs := (procs s)[i := f (procs s ! i)]\<rparr>"

abbreviation prc :: "sys \<Rightarrow> nat \<Rightarrow> proc" where
  "prc s i \<equiv> procs s ! i"

definition procinit :: "sys \<Rightarrow> sys" where
  "procinit s = s\<lparr>procs := upd_all (\<lambda>i p. p\<lparr>p_state := UNUSED, p_kstack := KSTACK i,
     p_sig_handlers := replicate 32 0\<rparr>) (procs s)\<rparr>"

definition allocpid :: "sys \<Rightarrow> int \<times> sys" where
  "allocpid s = (nextpid s, s\<lparr>nextpid := nextpid s + 1\<rparr>)"

section \<open>Page tables of processes\<close>

text \<open>
  \<open>freewalk\<close> with fuel 3: a page table has three levels. A table that is deeper would make
  \<^verbatim>\<open>freewalk\<close> recurse further; that is reported like a panic.
\<close>

definition uvmfree_levels :: "machine \<Rightarrow> u64 \<Rightarrow> u64 \<Rightarrow> machine res" where
  "uvmfree_levels m pagetable sz =
     (case uvmfree 3 m pagetable sz of
        None \<Rightarrow> Panic ''freewalk: more than three levels''
      | Some r \<Rightarrow> r)"

definition proc_pagetable :: "sys \<Rightarrow> nat \<Rightarrow> (u64 \<times> sys) res" where
  "proc_pagetable s p =
     (let (pagetable, m1) = uvmcreate (mch s) in
      if pagetable = 0 then Ok (0, s\<lparr>mch := m1\<rparr>)
      else and_then (mappages m1 pagetable TRAMPOLINE PGSIZE (trampoline s) (PTE_R OR PTE_X)) (\<lambda>(r, m2).
        if r < 0
        then and_then (uvmfree_levels m2 pagetable 0) (\<lambda>m3. Ok (0, s\<lparr>mch := m3\<rparr>))
        else and_then (mappages m2 pagetable TRAPFRAME PGSIZE (p_trapframe (prc s p)) (PTE_R OR PTE_W)) (\<lambda>(r', m3).
          if r' < 0
          then and_then (uvmunmap m3 pagetable TRAMPOLINE 1 False) (\<lambda>m4.
               and_then (uvmfree_levels m4 pagetable 0) (\<lambda>m5. Ok (0, s\<lparr>mch := m5\<rparr>)))
          else Ok (pagetable, s\<lparr>mch := m3\<rparr>))))"

definition proc_freepagetable :: "machine \<Rightarrow> u64 \<Rightarrow> u64 \<Rightarrow> machine res" where
  "proc_freepagetable m pagetable sz =
     and_then (uvmunmap m pagetable TRAMPOLINE 1 False) (\<lambda>m1.
     and_then (uvmunmap m1 pagetable TRAPFRAME 1 False) (\<lambda>m2.
       uvmfree_levels m2 pagetable sz))"

section \<open>Slots\<close>

text \<open>
  \<^verbatim>\<open>freeproc\<close> clears the fields it clears in the source: not \<^verbatim>\<open>ofile\<close> and \<^verbatim>\<open>cwd\<close>, which
  \<^verbatim>\<open>exit\<close> has cleared, and not \<^verbatim>\<open>pending_signals\<close> and \<^verbatim>\<open>sig_handlers\<close>.
\<close>

definition freeproc :: "sys \<Rightarrow> nat \<Rightarrow> sys res" where
  "freeproc s p =
     and_then (if p_trapframe (prc s p) \<noteq> 0 then kfree (mch s) (p_trapframe (prc s p)) else Ok (mch s)) (\<lambda>m1.
     and_then (if p_pagetable (prc s p) \<noteq> 0
               then proc_freepagetable m1 (p_pagetable (prc s p)) (p_sz (prc s p)) else Ok m1) (\<lambda>m2.
       Ok (upd_proc p (\<lambda>q. q\<lparr>p_trapframe := 0, p_pagetable := 0, p_sz := 0, p_pid := 0,
         p_parent := None, p_name := (p_name q)[0 := 0], p_chan := None, p_killed := 0,
         p_xstate := 0, p_state := UNUSED\<rparr>) (s\<lparr>mch := m2\<rparr>))))"

definition find_unused :: "proc list \<Rightarrow> nat option" where
  "find_unused ps = find (\<lambda>i. p_state (ps ! i) = UNUSED) [0..<length ps]"

definition allocproc :: "sys \<Rightarrow> (nat option \<times> sys) res" where
  "allocproc s =
     (case find_unused (procs s) of
        None \<Rightarrow> Ok (None, s)
      | Some p \<Rightarrow>
          (let (pid, s1) = allocpid s;
               s2 = upd_proc p (\<lambda>q. q\<lparr>p_pid := pid, p_state := USED\<rparr>) s1;
               (tf, m) = kalloc (mch s2);
               s3 = upd_proc p (\<lambda>q. q\<lparr>p_trapframe := tf\<rparr>) (s2\<lparr>mch := m\<rparr>) in
           if tf = 0 then and_then (freeproc s3 p) (\<lambda>s4. Ok (None, s4))
           else and_then (proc_pagetable s3 p) (\<lambda>(pagetable, s4).
             let s5 = upd_proc p (\<lambda>q. q\<lparr>p_pagetable := pagetable\<rparr>) s4 in
             if pagetable = 0 then and_then (freeproc s5 p) (\<lambda>s6. Ok (None, s6))
             else Ok (Some p, upd_proc p (\<lambda>q. q\<lparr>p_context :=
               \<lparr>ctx_ra = forkret_addr s5, ctx_sp = p_kstack q + PGSIZE\<rparr>\<rparr>) s5))))"

text \<open>The end of \<^verbatim>\<open>fork\<close>: the child gets its parent and may run.\<close>

definition fork_link :: "sys \<Rightarrow> nat \<Rightarrow> nat \<Rightarrow> sys" where
  "fork_link s np p = upd_proc np (\<lambda>q. q\<lparr>p_parent := Some p, p_state := RUNNABLE\<rparr>) s"

definition growproc :: "sys \<Rightarrow> nat \<Rightarrow> int \<Rightarrow> (int \<times> sys) res" where
  "growproc s p n =
     (let q = prc s p in
      if n > 0
      then and_then (uvmalloc (mch s) (p_pagetable q) (p_sz q) (p_sz q + of_int n) PTE_W) (\<lambda>(newsz, m1).
        if newsz = 0 then Ok (-1, s\<lparr>mch := m1\<rparr>)
        else Ok (0, upd_proc p (\<lambda>q. q\<lparr>p_sz := newsz\<rparr>) (s\<lparr>mch := m1\<rparr>)))
      else if n < 0
      then and_then (uvmdealloc (mch s) (p_pagetable q) (p_sz q) (p_sz q + of_int n)) (\<lambda>(newsz, m1).
        Ok (0, upd_proc p (\<lambda>q. q\<lparr>p_sz := newsz\<rparr>) (s\<lparr>mch := m1\<rparr>)))
      else Ok (0, s))"

section \<open>Sleep and wakeup\<close>

definition wakeup :: "nat option \<Rightarrow> chan option \<Rightarrow> proc list \<Rightarrow> proc list" where
  "wakeup me c ps = upd_all (\<lambda>i p.
     if Some i \<noteq> me \<and> p_state p = SLEEPING \<and> p_chan p = c then p\<lparr>p_state := RUNNABLE\<rparr> else p) ps"

text \<open>\<^verbatim>\<open>sleep\<close> up to its call of \<^verbatim>\<open>sched\<close>, and what it does when it is switched back in.\<close>

definition go_to_sleep :: "nat \<Rightarrow> chan \<Rightarrow> proc list \<Rightarrow> proc list" where
  "go_to_sleep me c ps = ps[me := (ps ! me)\<lparr>p_chan := Some c, p_state := SLEEPING\<rparr>]"

definition back_from_sleep :: "nat \<Rightarrow> proc list \<Rightarrow> proc list" where
  "back_from_sleep me ps = ps[me := (ps ! me)\<lparr>p_chan := None\<rparr>]"

fun kill_loop :: "proc list \<Rightarrow> int \<Rightarrow> nat list \<Rightarrow> int \<times> proc list" where
  "kill_loop ps pid [] = (-1, ps)"
| "kill_loop ps pid (i # is) =
     (if p_pid (ps ! i) = pid
      then (0, ps[i := (ps ! i)\<lparr>p_killed := 1,
              p_state := (if p_state (ps ! i) = SLEEPING then RUNNABLE else p_state (ps ! i))\<rparr>])
      else kill_loop ps pid is)"

definition kill :: "proc list \<Rightarrow> int \<Rightarrow> int \<times> proc list" where
  "kill ps pid = kill_loop ps pid [0..<length ps]"

definition setkilled :: "nat \<Rightarrow> proc list \<Rightarrow> proc list" where
  "setkilled i ps = ps[i := (ps ! i)\<lparr>p_killed := 1\<rparr>]"

definition killed :: "proc list \<Rightarrow> nat \<Rightarrow> bool" where
  "killed ps i \<longleftrightarrow> p_killed (ps ! i) \<noteq> 0"

section \<open>Exit and wait\<close>

definition reparent_step :: "nat option \<Rightarrow> nat \<Rightarrow> nat \<Rightarrow> sys \<Rightarrow> sys" where
  "reparent_step me p i s =
     (if p_parent (prc s i) = Some p
      then (let s1 = upd_proc i (\<lambda>q. q\<lparr>p_parent := initproc s\<rparr>) s in
            s1\<lparr>procs := wakeup me (map_option ChProc (initproc s1)) (procs s1)\<rparr>)
      else s)"

definition reparent :: "nat option \<Rightarrow> nat \<Rightarrow> sys \<Rightarrow> sys" where
  "reparent me p s = fold (reparent_step me p) [0..<length (procs s)] s"

text \<open>
  The part of \<^verbatim>\<open>exit\<close> that runs under \<^verbatim>\<open>wait_lock\<close>, after the process has closed its files.
\<close>

definition exit_tail :: "sys \<Rightarrow> nat \<Rightarrow> int \<Rightarrow> sys" where
  "exit_tail s p status =
     (let s1 = reparent (Some p) p s;
          s2 = s1\<lparr>procs := wakeup (Some p) (map_option ChProc (p_parent (prc s1 p))) (procs s1)\<rparr> in
      upd_proc p (\<lambda>q. q\<lparr>p_xstate := status, p_state := ZOMBIE\<rparr>) s2)"

text \<open>
  What \<^verbatim>\<open>wait\<close> and \<^verbatim>\<open>waitpid\<close> do with the zombie \<open>i\<close> they have found: copy the status out if
  the caller asked for it, free the slot, return the pid.
\<close>

definition reap :: "sys \<Rightarrow> nat \<Rightarrow> u64 \<Rightarrow> nat \<Rightarrow> (int \<times> sys) res" where
  "reap s p addr i =
     (let pid = p_pid (prc s i) in
      if addr = 0 then and_then (freeproc s i) (\<lambda>s1. Ok (pid, s1))
      else and_then (copyout (mch s) (p_pagetable (prc s p)) addr (bytes32 (p_xstate (prc s i)))) (\<lambda>(r, m).
        if r < 0 then Ok (-1, s\<lparr>mch := m\<rparr>)
        else and_then (freeproc (s\<lparr>mch := m\<rparr>) i) (\<lambda>s1. Ok (pid, s1))))"

text \<open>
  One pass of \<^verbatim>\<open>wait\<close>'s endless loop, from the scan of the table to the return or to
  \<^verbatim>\<open>sleep(p, &wait_lock)\<close>; after the wakeup the next pass starts.
\<close>

fun wait_loop :: "sys \<Rightarrow> nat \<Rightarrow> u64 \<Rightarrow> bool \<Rightarrow> nat list \<Rightarrow> ((int, unit) run \<times> sys) res" where
  "wait_loop s p addr havekids [] =
     (if \<not> havekids \<or> killed (procs s) p then Ok (Returns (-1), s)
      else Ok (Sleeps (), s\<lparr>procs := go_to_sleep p (ChProc p) (procs s)\<rparr>))"
| "wait_loop s p addr havekids (i # is) =
     (if p_parent (prc s i) = Some p
      then if p_state (prc s i) = ZOMBIE
           then and_then (reap s p addr i) (\<lambda>(r, s1). Ok (Returns r, s1))
           else wait_loop s p addr True is
      else wait_loop s p addr havekids is)"

definition wait :: "sys \<Rightarrow> nat \<Rightarrow> u64 \<Rightarrow> ((int, unit) run \<times> sys) res" where
  "wait s p addr = wait_loop s p addr False [0..<length (procs s)]"

text \<open>
  \<^verbatim>\<open>waitpid\<close> stops its scan at the first child that matches. If that child is still alive it
  returns 0 or goes to sleep; after the wakeup it leaves the scan, and \<open>waitpid_woken\<close> is
  what follows: it gives up if the process was killed and starts the next pass otherwise.
\<close>

fun waitpid_loop :: "sys \<Rightarrow> nat \<Rightarrow> int \<Rightarrow> u64 \<Rightarrow> int \<Rightarrow> nat list \<Rightarrow> ((int, unit) run \<times> sys) res" where
  "waitpid_loop s p pid addr options [] = Ok (Returns (-1), s)"
| "waitpid_loop s p pid addr options (i # is) =
     (if p_parent (prc s i) = Some p \<and> p_pid (prc s i) = pid \<or> pid = -1 \<and> p_parent (prc s i) = Some p
      then if p_state (prc s i) = ZOMBIE
           then and_then (reap s p addr i) (\<lambda>(r, s1). Ok (Returns r, s1))
           else if options \<noteq> 0 then Ok (Returns 0, s)
           else Ok (Sleeps (), s\<lparr>procs := go_to_sleep p (ChProc p) (procs s)\<rparr>)
      else waitpid_loop s p pid addr options is)"

definition waitpid :: "sys \<Rightarrow> nat \<Rightarrow> int \<Rightarrow> u64 \<Rightarrow> int \<Rightarrow> ((int, unit) run \<times> sys) res" where
  "waitpid s p pid addr options = waitpid_loop s p pid addr options [0..<length (procs s)]"

definition waitpid_woken :: "sys \<Rightarrow> nat \<Rightarrow> int \<Rightarrow> u64 \<Rightarrow> int \<Rightarrow> ((int, unit) run \<times> sys) res" where
  "waitpid_woken s p pid addr options =
     (if killed (procs s) p then Ok (Returns (-1), s) else waitpid s p pid addr options)"

section \<open>Scheduling\<close>

text \<open>
  One turn of \<^verbatim>\<open>scheduler\<close>'s inner loop on CPU \<open>c\<close> with the slot \<open>i\<close>, up to the switch, and
  what it does when the process has switched back.
\<close>

definition scheduler_try :: "sys \<Rightarrow> nat \<Rightarrow> nat \<Rightarrow> sys" where
  "scheduler_try s c i =
     (if p_state (prc s i) = RUNNABLE
      then (upd_proc i (\<lambda>q. q\<lparr>p_state := RUNNING\<rparr>) s)\<lparr>cpus := (cpus s)[c := Some i]\<rparr>
      else s)"

definition scheduler_back :: "sys \<Rightarrow> nat \<Rightarrow> sys" where
  "scheduler_back s c = s\<lparr>cpus := (cpus s)[c := None]\<rparr>"

text \<open>
  The checks of \<^verbatim>\<open>sched\<close>, given whether the CPU holds \<^verbatim>\<open>p->lock\<close>, its \<^verbatim>\<open>noff\<close> and whether
  interrupts are on.
\<close>

definition sched :: "proc list \<Rightarrow> nat \<Rightarrow> bool \<Rightarrow> int \<Rightarrow> bool \<Rightarrow> unit res" where
  "sched ps p holding_lock noff intr =
     (if \<not> holding_lock then Panic ''sched p->lock''
      else if noff \<noteq> 1 then Panic ''sched locks''
      else if p_state (ps ! p) = RUNNING then Panic ''sched running''
      else if intr then Panic ''sched interruptible''
      else Ok ())"

definition yield :: "nat \<Rightarrow> proc list \<Rightarrow> proc list" where
  "yield p ps = ps[p := (ps ! p)\<lparr>p_state := RUNNABLE\<rparr>]"

section \<open>Copies to and from user or kernel\<close>

definition either_copyout :: "sys \<Rightarrow> nat \<Rightarrow> bool \<Rightarrow> u64 \<Rightarrow> u8 list \<Rightarrow> (int \<times> sys) res" where
  "either_copyout s p user_dst dst src =
     (if user_dst
      then and_then (copyout (mch s) (p_pagetable (prc s p)) dst src) (\<lambda>(r, m). Ok (r, s\<lparr>mch := m\<rparr>))
      else Ok (0, s\<lparr>mch := (mch s)\<lparr>pm := write_bytes (pm (mch s)) dst src\<rparr>\<rparr>))"

definition either_copyin :: "sys \<Rightarrow> nat \<Rightarrow> bool \<Rightarrow> u64 \<Rightarrow> nat \<Rightarrow> (int \<times> u8 list) res" where
  "either_copyin s p user_src src len =
     (if user_src then copyin (mch s) (p_pagetable (prc s p)) src len
      else Ok (0, read_bytes (pm (mch s)) src len))"

section \<open>System information and signals\<close>

definition live_pids :: "proc list \<Rightarrow> u64 list" where
  "live_pids ps = map (\<lambda>p. of_int (p_pid p)) (filter (\<lambda>p. p_state p \<noteq> UNUSED) ps)"

text \<open>
  \<^verbatim>\<open>struct sysinfo\<close> as bytes. \<open>stack\<close> is what the kernel stack holds where the local
  variable \<^verbatim>\<open>info\<close> lies: the entries of \<^verbatim>\<open>pids\<close> beyond the number of processes are never
  assigned and are copied to the user as they are.
\<close>

definition sysinfo_bytes :: "sys \<Rightarrow> u64 \<Rightarrow> (nat \<Rightarrow> u64) \<Rightarrow> u8 list" where
  "sysinfo_bytes s freemem stack =
     (let pids = live_pids (procs s); n = length pids in
      bytes64 (ucast (ticks s) div 10) @ bytes64 freemem @ bytes64 (PHYSTOP - kend (mch s)) @
      bytes64 (of_nat n) @ concat (map (\<lambda>i. bytes64 (if i < n then pids ! i else stack i)) [0..<64]))"

definition sysinfo :: "sys \<Rightarrow> nat \<Rightarrow> (nat \<Rightarrow> u64) \<Rightarrow> u64 \<Rightarrow> (int \<times> sys) res option" where
  "sysinfo s p stack kinfo =
     (case memfree (mch s) of
        None \<Rightarrow> None
      | Some freemem \<Rightarrow> Some (
          and_then (copyout (mch s) (p_pagetable (prc s p)) kinfo (sysinfo_bytes s freemem stack)) (\<lambda>(r, m).
            Ok (if r < 0 then -1 else 0, s\<lparr>mch := m\<rparr>))))"

definition epc_off :: u64 where "epc_off = 24"

definition handle_signals :: "sys \<Rightarrow> nat \<Rightarrow> sys" where
  "handle_signals s p =
     (let q = prc s p in
      if p_pending_signals q AND push_bit SIGINT 1 \<noteq> 0
      then (let s1 = upd_proc p (\<lambda>q. q\<lparr>p_pending_signals := p_pending_signals q AND NOT (push_bit SIGINT 1)\<rparr>) s in
        if p_sig_handlers q ! SIGINT \<noteq> 0
        then s1\<lparr>mch := (mch s1)\<lparr>pm := st64 (pm (mch s1)) (p_trapframe q + epc_off) (p_sig_handlers q ! SIGINT)\<rparr>\<rparr>
        else upd_proc p (\<lambda>q. q\<lparr>p_killed := 1\<rparr>) s1)
      else s)"

definition sigint_default_handler :: "nat \<Rightarrow> proc list \<Rightarrow> proc list" where
  "sigint_default_handler p ps = ps[p := (ps ! p)\<lparr>p_killed := 1\<rparr>]"

fun state_name :: "procstate \<Rightarrow> string" where
  "state_name UNUSED = ''unused''"
| "state_name USED = ''used''"
| "state_name SLEEPING = ''sleep ''"
| "state_name RUNNABLE = ''runble''"
| "state_name RUNNING = ''run   ''"
| "state_name ZOMBIE = ''zombie''"

text \<open>The lines \<^verbatim>\<open>procdump\<close> prints: pid, state and name of every slot in use.\<close>

definition procdump :: "proc list \<Rightarrow> (int \<times> string \<times> u8 list) list" where
  "procdump ps = map (\<lambda>p. (p_pid p, state_name (p_state p), p_name p)) (filter (\<lambda>p. p_state p \<noteq> UNUSED) ps)"

end
