(* ===== verification/Proc_Wait.thy ===== *)
theory Proc_Wait
  imports Proc
begin

text \<open>
  \<^verbatim>\<open>wait\<close>, \<^verbatim>\<open>waitpid\<close>, \<^verbatim>\<open>exit\<close> and \<^verbatim>\<open>kill\<close>: what each returns and does, and that a parent
  which sleeps in \<^verbatim>\<open>wait\<close> never misses the exit of a child, whatever the interleaving.
\<close>

section \<open>Accessors\<close>

lemma length_wakeup [simp]: "length (wakeup me c ps) = length ps"
  by (simp add: wakeup_def)

lemma nth_wakeup: "i < length ps \<Longrightarrow> wakeup me c ps ! i =
  (if Some i \<noteq> me \<and> p_state (ps ! i) = SLEEPING \<and> p_chan (ps ! i) = c
   then (ps ! i)\<lparr>p_state := RUNNABLE\<rparr> else ps ! i)"
  by (simp add: wakeup_def)

lemma wakeup_fields [simp]:
  assumes "i < length ps"
  shows "p_parent (wakeup me c ps ! i) = p_parent (ps ! i)"
    "p_chan (wakeup me c ps ! i) = p_chan (ps ! i)" "p_pid (wakeup me c ps ! i) = p_pid (ps ! i)"
    "p_state (wakeup me c ps ! i) = ZOMBIE \<longleftrightarrow> p_state (ps ! i) = ZOMBIE"
    "p_state (wakeup me c ps ! i) = RUNNING \<longleftrightarrow> p_state (ps ! i) = RUNNING"
    "p_state (wakeup me c ps ! i) = UNUSED \<longleftrightarrow> p_state (ps ! i) = UNUSED"
  using assms by (auto simp: nth_wakeup)

lemma upd_proc_simps [simp]:
  "length (procs (upd_proc i f s)) = length (procs s)"
  "initproc (upd_proc i f s) = initproc s" "mch (upd_proc i f s) = mch s"
  "nextpid (upd_proc i f s) = nextpid s" "cpus (upd_proc i f s) = cpus s"
  by (simp_all add: upd_proc_def)

lemma prc_upd_proc: "i < length (procs s) \<Longrightarrow> prc (upd_proc i f s) j = (if i = j then f (prc s j) else prc s j)"
  by (simp add: upd_proc_def)

section \<open>The scans as searches\<close>

definition is_child :: "sys \<Rightarrow> nat \<Rightarrow> nat \<Rightarrow> bool" where
  "is_child s p i \<longleftrightarrow> p_parent (prc s i) = Some p"

definition zombie_child :: "sys \<Rightarrow> nat \<Rightarrow> nat option" where
  "zombie_child s p = find (\<lambda>i. is_child s p i \<and> p_state (prc s i) = ZOMBIE) [0..<length (procs s)]"

definition has_child :: "sys \<Rightarrow> nat \<Rightarrow> bool" where
  "has_child s p \<longleftrightarrow> (\<exists>i < length (procs s). is_child s p i)"

lemma wait_loop_eq:
  "wait_loop s p addr h is =
     (case find (\<lambda>i. is_child s p i \<and> p_state (prc s i) = ZOMBIE) is of
        Some i \<Rightarrow> and_then (reap s p addr i) (\<lambda>(r, s1). Ok (Returns r, s1))
      | None \<Rightarrow> if \<not> (h \<or> (\<exists>i \<in> set is. is_child s p i)) \<or> killed (procs s) p then Ok (Returns (-1), s)
          else Ok (Sleeps (), s\<lparr>procs := go_to_sleep p (ChProc p) (procs s)\<rparr>))"
  by (induction "is" arbitrary: h) (auto simp: is_child_def)

lemma wait_eq:
  "wait s p addr =
     (case zombie_child s p of
        Some i \<Rightarrow> and_then (reap s p addr i) (\<lambda>(r, s1). Ok (Returns r, s1))
      | None \<Rightarrow> if \<not> has_child s p \<or> killed (procs s) p then Ok (Returns (-1), s)
          else Ok (Sleeps (), s\<lparr>procs := go_to_sleep p (ChProc p) (procs s)\<rparr>))"
  by (auto simp: wait_def wait_loop_eq zombie_child_def has_child_def split: option.split)

definition matches :: "sys \<Rightarrow> nat \<Rightarrow> int \<Rightarrow> nat \<Rightarrow> bool" where
  "matches s p pid i \<longleftrightarrow> is_child s p i \<and> (pid = -1 \<or> p_pid (prc s i) = pid)"

lemma waitpid_loop_eq:
  "waitpid_loop s p pid addr options is =
     (case find (matches s p pid) is of
        None \<Rightarrow> Ok (Returns (-1), s)
      | Some i \<Rightarrow>
          if p_state (prc s i) = ZOMBIE then and_then (reap s p addr i) (\<lambda>(r, s1). Ok (Returns r, s1))
          else if options \<noteq> 0 then Ok (Returns 0, s)
          else Ok (Sleeps (), s\<lparr>procs := go_to_sleep p (ChProc p) (procs s)\<rparr>))"
  by (induction "is") (auto simp: matches_def is_child_def)

section \<open>reparent in closed form\<close>

lemma reparent_step_simps [simp]:
  "mch (reparent_step me p i s) = mch s" "initproc (reparent_step me p i s) = initproc s"
  "length (procs (reparent_step me p i s)) = length (procs s)" "cpus (reparent_step me p i s) = cpus s"
  "nextpid (reparent_step me p i s) = nextpid s"
  by (simp_all add: reparent_step_def Let_def)

text \<open>What \<open>wakeup\<close> calls may do to a slot: nothing, or turn \<open>SLEEPING\<close> into \<open>RUNNABLE\<close>.\<close>

definition woken :: "proc \<Rightarrow> proc \<Rightarrow> bool" where
  "woken q q' \<longleftrightarrow> q' = q \<or> p_state q = SLEEPING \<and> q' = q\<lparr>p_state := RUNNABLE\<rparr>"

lemma wakenD:
  assumes "woken q q'"
  shows "p_parent q' = p_parent q" "p_chan q' = p_chan q" "p_pid q' = p_pid q"
    "p_state q' = ZOMBIE \<longleftrightarrow> p_state q = ZOMBIE" "p_state q' = RUNNING \<longleftrightarrow> p_state q = RUNNING"
    "p_state q' = UNUSED \<longleftrightarrow> p_state q = UNUSED" "p_state q' = SLEEPING \<Longrightarrow> q' = q"
  using assms by (auto simp: woken_def)

lemma woken_wakeup: "i < length ps \<Longrightarrow> woken (ps ! i) (wakeup me c ps ! i)"
  by (auto simp: nth_wakeup woken_def)

lemma woken_trans: "woken p q \<Longrightarrow> woken q r \<Longrightarrow> woken p r"
  by (auto simp: woken_def)

lemma woken_parent: "woken q q' \<Longrightarrow> woken (q\<lparr>p_parent := x\<rparr>) (q'\<lparr>p_parent := x\<rparr>)"
  by (auto simp: woken_def)

definition adopt :: "nat \<Rightarrow> nat option \<Rightarrow> proc \<Rightarrow> proc" where
  "adopt p r q = (if p_parent q = Some p then q\<lparr>p_parent := r\<rparr> else q)"

lemma adopt_fields [simp]:
  "p_state (adopt p r q) = p_state q" "p_chan (adopt p r q) = p_chan q" "p_pid (adopt p r q) = p_pid q"
  by (simp_all add: adopt_def)

lemma reparent_step_prc:
  assumes "i < length (procs s)" "j < length (procs s)"
  shows "woken (if i = j then adopt p (initproc s) (prc s j) else prc s j) (prc (reparent_step me p i s) j)"
  using assms by (auto simp: reparent_step_def Let_def nth_wakeup prc_upd_proc woken_def adopt_def)

lemma reparent_fold:
  assumes "set is \<subseteq> {..<length (procs s)}" "distinct is"
  shows "mch (fold (reparent_step me p) is s) = mch s \<and> initproc (fold (reparent_step me p) is s) = initproc s \<and>
    length (procs (fold (reparent_step me p) is s)) = length (procs s) \<and>
    cpus (fold (reparent_step me p) is s) = cpus s \<and> nextpid (fold (reparent_step me p) is s) = nextpid s \<and>
    (\<forall>j < length (procs s). woken (if j \<in> set is then adopt p (initproc s) (prc s j) else prc s j)
       (prc (fold (reparent_step me p) is s) j))"
  using assms
proof (induction "is" arbitrary: s)
  case (Cons i "is")
  let ?s1 = "reparent_step me p i s"
  have i: "i < length (procs s)" "i \<notin> set is" using Cons.prems by auto
  have IH: "set is \<subseteq> {..<length (procs ?s1)}" "distinct is" using Cons.prems by auto
  note H = Cons.IH [OF IH]
  have "woken (if j \<in> set (i # is) then adopt p (initproc s) (prc s j) else prc s j)
      (prc (fold (reparent_step me p) (i # is) s) j)" if j: "j < length (procs s)" for j
  proof -
    let ?X = "\<lambda>q. if j \<in> set is then adopt p (initproc s) q else q"
    have w: "woken (if i = j then adopt p (initproc s) (prc s j) else prc s j) (prc ?s1 j)"
      by (rule reparent_step_prc [OF i(1) j])
    have "woken q q' \<Longrightarrow> woken (?X q) (?X q')" for q q'
      by (auto simp: adopt_def woken_def)
    from this [OF w] have "woken (if j \<in> set (i # is) then adopt p (initproc s) (prc s j) else prc s j) (?X (prc ?s1 j))"
      using i(2) by (auto split: if_splits)
    moreover have "woken (?X (prc ?s1 j)) (prc (fold (reparent_step me p) is ?s1) j)"
      using H j by (cases "j \<in> set is") auto
    ultimately show ?thesis by (simp add: woken_trans)
  qed
  then show ?case using H by simp
qed (auto simp: woken_def)

lemma reparent_simps [simp]:
  "mch (reparent me p s) = mch s" "initproc (reparent me p s) = initproc s"
  "length (procs (reparent me p s)) = length (procs s)" "cpus (reparent me p s) = cpus s"
  "nextpid (reparent me p s) = nextpid s"
  using reparent_fold [of "[0..<length (procs s)]" s me p] by (auto simp: reparent_def lessThan_atLeast0)

lemma reparent_prc:
  "j < length (procs s) \<Longrightarrow> woken (adopt p (initproc s) (prc s j)) (prc (reparent me p s) j)"
  using reparent_fold [of "[0..<length (procs s)]" s me p] by (auto simp: reparent_def lessThan_atLeast0)

text \<open>If there was anything to hand over, \<^verbatim>\<open>init\<close> is awake afterwards.\<close>

lemma reparent_fold_wakes:
  assumes "set is \<subseteq> {..<length (procs s)}" "distinct is" "initproc s = Some r" "r < length (procs s)" "me \<noteq> Some r"
    and "\<exists>i \<in> set is. p_parent (prc s i) = Some p"
  shows "\<not> (p_state (prc (fold (reparent_step me p) is s) r) = SLEEPING \<and>
    p_chan (prc (fold (reparent_step me p) is s) r) = Some (ChProc r))"
  using assms
proof (induction "is" arbitrary: s)
  case (Cons i "is")
  let ?s1 = "reparent_step me p i s"
  have i: "i < length (procs s)" "i \<notin> set is" using Cons.prems by auto
  have IH: "set is \<subseteq> {..<length (procs ?s1)}" "distinct is" using Cons.prems by auto
  show ?case
  proof (cases "p_parent (prc s i) = Some p")
    case True
    then have n: "\<not> (p_state (prc ?s1 r) = SLEEPING \<and> p_chan (prc ?s1 r) = Some (ChProc r))"
      using Cons.prems(3-5) i by (auto simp: reparent_step_def Let_def nth_wakeup prc_upd_proc)
    have "woken (if r \<in> set is then adopt p (initproc s) (prc ?s1 r) else prc ?s1 r)
        (prc (fold (reparent_step me p) is ?s1) r)"
      using reparent_fold [OF IH, of me p] Cons.prems(4) by (cases "r \<in> set is") auto
    with n show ?thesis by (auto simp: woken_def adopt_def split: if_splits)
  next
    case False
    then have "?s1 = s" by (simp add: reparent_step_def)
    with Cons False show ?thesis by auto
  qed
qed simp

lemma reparent_wakes:
  assumes "initproc s = Some r" "r < length (procs s)" "me \<noteq> Some r" "has_child s p"
  shows "\<not> (p_state (prc (reparent me p s) r) = SLEEPING \<and> p_chan (prc (reparent me p s) r) = Some (ChProc r))"
  unfolding reparent_def
  by (rule reparent_fold_wakes) (use assms in \<open>auto simp: has_child_def is_child_def\<close>)

section \<open>Frames of the slot operations\<close>

lemma freeproc_frame:
  assumes "freeproc s i = Ok s'" "i < length (procs s)"
  shows "length (procs s') = length (procs s)" "initproc s' = initproc s" "cpus s' = cpus s" "nextpid s' = nextpid s"
    "j \<noteq> i \<Longrightarrow> prc s' j = prc s j"
    "p_state (prc s' i) = UNUSED" "p_parent (prc s' i) = None" "p_pid (prc s' i) = 0"
    "p_killed (prc s' i) = 0" "p_sig_handlers (prc s' i) = p_sig_handlers (prc s i)"
  using assms by (auto simp: freeproc_def upd_proc_def)

lemma reap_frame:
  assumes "reap s p addr i = Ok (r, s')" "i < length (procs s)"
  shows "length (procs s') = length (procs s)" "initproc s' = initproc s" "cpus s' = cpus s" "nextpid s' = nextpid s"
    "j \<noteq> i \<Longrightarrow> prc s' j = prc s j"
    "r = -1 \<and> procs s' = procs s \<or>
     r = p_pid (prc s i) \<and> p_state (prc s' i) = UNUSED \<and> p_parent (prc s' i) = None \<and> p_pid (prc s' i) = 0"
proof -
  from assms(1) have *: "r = -1 \<and> (\<exists>m. s' = s\<lparr>mch := m\<rparr>) \<or> r = p_pid (prc s i) \<and> (\<exists>m. freeproc (s\<lparr>mch := m\<rparr>) i = Ok s')"
    by (auto simp: reap_def Let_def split: if_splits) (metis sys.surjective sys.update_convs(1))+
  then show "length (procs s') = length (procs s)" "initproc s' = initproc s" "cpus s' = cpus s" "nextpid s' = nextpid s"
    "j \<noteq> i \<Longrightarrow> prc s' j = prc s j"
    "r = -1 \<and> procs s' = procs s \<or>
     r = p_pid (prc s i) \<and> p_state (prc s' i) = UNUSED \<and> p_parent (prc s' i) = None \<and> p_pid (prc s' i) = 0"
    using assms(2) by (auto dest: freeproc_frame)
qed

lemma find_unused_Some:
  assumes "find_unused ps = Some i"
  shows "i < length ps" "p_state (ps ! i) = UNUSED"
  using assms by (auto simp: find_unused_def find_Some_iff)

lemma find_unused_None: "find_unused ps = None \<longleftrightarrow> (\<forall>i < length ps. p_state (ps ! i) \<noteq> UNUSED)"
  by (auto simp: find_unused_def find_None_iff)

lemma proc_pagetable_frame: "proc_pagetable s p = Ok (pt, s') \<Longrightarrow> \<exists>m. s' = s\<lparr>mch := m\<rparr>"
  by (auto simp: proc_pagetable_def Let_def split: prod.splits if_splits)

lemma allocproc_frame:
  assumes "allocproc s = Ok (Some i, s')"
  shows "i < length (procs s)" "p_state (prc s i) = UNUSED" "length (procs s') = length (procs s)"
    "initproc s' = initproc s" "cpus s' = cpus s" "nextpid s' = nextpid s + 1"
    "j \<noteq> i \<Longrightarrow> prc s' j = prc s j"
    "p_state (prc s' i) = USED" "p_pid (prc s' i) = nextpid s" "p_killed (prc s' i) = p_killed (prc s i)"
    "p_sig_handlers (prc s' i) = p_sig_handlers (prc s i)" "p_parent (prc s' i) = p_parent (prc s i)"
    "p_pagetable (prc s' i) \<noteq> 0" "p_trapframe (prc s' i) \<noteq> 0"
proof -
  from assms have f: "find_unused (procs s) = Some i"
    by (auto simp: allocproc_def Let_def split: option.splits prod.splits if_splits)
  note u = find_unused_Some [OF f]
  then show "i < length (procs s)" "p_state (prc s i) = UNUSED" by auto
  from assms f u(1) show "length (procs s') = length (procs s)"
    "initproc s' = initproc s" "cpus s' = cpus s" "nextpid s' = nextpid s + 1"
    "j \<noteq> i \<Longrightarrow> prc s' j = prc s j"
    "p_state (prc s' i) = USED" "p_pid (prc s' i) = nextpid s" "p_killed (prc s' i) = p_killed (prc s i)"
    "p_sig_handlers (prc s' i) = p_sig_handlers (prc s i)" "p_parent (prc s' i) = p_parent (prc s i)"
    "p_pagetable (prc s' i) \<noteq> 0" "p_trapframe (prc s' i) \<noteq> 0"
    by (auto simp: allocproc_def allocpid_def Let_def upd_proc_def split: prod.splits if_splits
        dest!: proc_pagetable_frame)
qed

section \<open>Waiting parents\<close>

text \<open>
  Everything that can happen to the process table while parents wait: a process makes a
  pass of \<^verbatim>\<open>wait\<close>, exits, forks, goes to sleep on some channel, gives up the CPU; somebody
  wakes a channel or kills a process; a scheduler starts a process. The second component
  is the set of processes inside \<^verbatim>\<open>wait\<close>.
\<close>

inductive wait_step :: "sys \<times> nat set \<Rightarrow> sys \<times> nat set \<Rightarrow> bool" where
  ws_wait: "p < length (procs s) \<Longrightarrow> p_state (prc s p) = RUNNING \<Longrightarrow>
    wait (s\<lparr>procs := back_from_sleep p (procs s)\<rparr>) p addr = Ok (r, s') \<Longrightarrow>
    wait_step (s, W) (s', if r = Sleeps () then insert p W else W - {p})"
| ws_exit: "p < length (procs s) \<Longrightarrow> p_state (prc s p) = RUNNING \<Longrightarrow> p \<notin> W \<Longrightarrow> initproc s \<noteq> Some p \<Longrightarrow>
    wait_step (s, W) (exit_tail s p status, W)"
| ws_fork: "p_state (prc s p) = RUNNING \<Longrightarrow> allocproc s = Ok (Some np, s') \<Longrightarrow>
    wait_step (s, W) (fork_link s' np p, W)"
| ws_sleep: "p < length (procs s) \<Longrightarrow> p_state (prc s p) = RUNNING \<Longrightarrow> p \<notin> W \<Longrightarrow>
    wait_step (s, W) (s\<lparr>procs := go_to_sleep p c (procs s)\<rparr>, W)"
| ws_yield: "p < length (procs s) \<Longrightarrow> p_state (prc s p) = RUNNING \<Longrightarrow>
    wait_step (s, W) (s\<lparr>procs := yield p (procs s)\<rparr>, W)"
| ws_wakeup: "wait_step (s, W) (s\<lparr>procs := wakeup me c (procs s)\<rparr>, W)"
| ws_kill: "wait_step (s, W) (s\<lparr>procs := snd (kill (procs s) pid)\<rparr>, W)"
| ws_run: "i < length (procs s) \<Longrightarrow> wait_step (s, W) (scheduler_try s c i, W)"

definition waiting_ok :: "sys \<Rightarrow> nat \<Rightarrow> bool" where
  "waiting_ok s p \<longleftrightarrow> p < length (procs s) \<and> p_state (prc s p) \<in> {SLEEPING, RUNNABLE, RUNNING} \<and>
     (p_state (prc s p) = SLEEPING \<longrightarrow> p_chan (prc s p) = Some (ChProc p) \<and>
        (\<forall>i < length (procs s). is_child s p i \<longrightarrow> p_state (prc s i) \<noteq> ZOMBIE))"

definition init_ok :: "sys \<Rightarrow> bool" where
  "init_ok s \<longleftrightarrow> (\<exists>r. initproc s = Some r \<and> r < length (procs s))"

definition wait_inv :: "sys \<times> nat set \<Rightarrow> bool" where
  "wait_inv sW \<longleftrightarrow> init_ok (fst sW) \<and> (\<forall>p \<in> snd sW. waiting_ok (fst sW) p)"

lemma waiting_ok_mono:
  assumes "waiting_ok s p" "length (procs s') = length (procs s)"
    and "p_state (prc s' p) \<in> {SLEEPING, RUNNABLE, RUNNING}"
    and "p_state (prc s' p) = SLEEPING \<Longrightarrow> p_state (prc s p) = SLEEPING \<and> p_chan (prc s' p) = p_chan (prc s p)"
    and "\<And>i. p_state (prc s' p) = SLEEPING \<Longrightarrow> i < length (procs s) \<Longrightarrow> is_child s' p i \<Longrightarrow> p_state (prc s' i) = ZOMBIE \<Longrightarrow>
      is_child s p i \<and> p_state (prc s i) = ZOMBIE"
  shows "waiting_ok s' p"
  using assms unfolding waiting_ok_def by metis

lemma kill_frame:
  "length (snd (kill ps pid)) = length ps"
  "i < length ps \<Longrightarrow> p_parent (snd (kill ps pid) ! i) = p_parent (ps ! i) \<and> p_chan (snd (kill ps pid) ! i) = p_chan (ps ! i) \<and>
     p_pid (snd (kill ps pid) ! i) = p_pid (ps ! i) \<and>
     (p_state (snd (kill ps pid) ! i) = p_state (ps ! i) \<or>
      p_state (ps ! i) = SLEEPING \<and> p_state (snd (kill ps pid) ! i) = RUNNABLE)"
proof -
  have l: "length (snd (kill_loop ps pid is)) = length ps" for "is"
    by (induction "is") auto
  then show "length (snd (kill ps pid)) = length ps" by (simp add: kill_def)
  have "p_parent (snd (kill_loop ps pid is) ! i) = p_parent (ps ! i) \<and> p_chan (snd (kill_loop ps pid is) ! i) = p_chan (ps ! i) \<and>
     p_pid (snd (kill_loop ps pid is) ! i) = p_pid (ps ! i) \<and>
     (p_state (snd (kill_loop ps pid is) ! i) = p_state (ps ! i) \<or>
      p_state (ps ! i) = SLEEPING \<and> p_state (snd (kill_loop ps pid is) ! i) = RUNNABLE)" if "i < length ps" for "is"
  proof (induction "is")
    case (Cons k "is")
    then show ?case using that by (cases "k < length ps") (auto simp: nth_list_update)
  qed simp
  then show "i < length ps \<Longrightarrow> p_parent (snd (kill ps pid) ! i) = p_parent (ps ! i) \<and> p_chan (snd (kill ps pid) ! i) = p_chan (ps ! i) \<and>
     p_pid (snd (kill ps pid) ! i) = p_pid (ps ! i) \<and>
     (p_state (snd (kill ps pid) ! i) = p_state (ps ! i) \<or>
      p_state (ps ! i) = SLEEPING \<and> p_state (snd (kill ps pid) ! i) = RUNNABLE)"
    by (simp add: kill_def)
qed

lemma length_sleep [simp]:
  "length (back_from_sleep p ps) = length ps" "length (go_to_sleep p c ps) = length ps" "length (yield p ps) = length ps"
  by (simp_all add: back_from_sleep_def go_to_sleep_def yield_def)

text \<open>Steps that change no parent and no channel, and of the states only \<open>SLEEPING\<close>,
  \<open>RUNNABLE\<close> and \<open>RUNNING\<close>, and put no waiting process to sleep.\<close>

lemma wait_inv_sched:
  assumes "wait_inv (s, W)" "length (procs s') = length (procs s)" "initproc s' = initproc s"
    and "\<And>i. i < length (procs s) \<Longrightarrow> p_parent (prc s' i) = p_parent (prc s i) \<and>
      (p_state (prc s' i) = p_state (prc s i) \<and> (i \<in> W \<longrightarrow> p_chan (prc s' i) = p_chan (prc s i)) \<or>
       p_state (prc s i) \<in> {SLEEPING, RUNNABLE, RUNNING} \<and> p_state (prc s' i) \<in> {RUNNABLE, RUNNING} \<or>
       i \<notin> W \<and> p_state (prc s i) \<in> {SLEEPING, RUNNABLE, RUNNING} \<and> p_state (prc s' i) = SLEEPING)"
  shows "wait_inv (s', W)"
  unfolding wait_inv_def
proof (intro conjI ballI)
  show "init_ok (fst (s', W))" using assms by (simp add: wait_inv_def init_ok_def)
  fix p assume "p \<in> snd (s', W)"
  then have p: "p \<in> W" "waiting_ok s p" "p < length (procs s)" using assms(1) by (auto simp: wait_inv_def waiting_ok_def)
  have "waiting_ok s' p"
  proof (rule waiting_ok_mono [OF p(2) assms(2)])
    show "p_state (prc s' p) \<in> {SLEEPING, RUNNABLE, RUNNING}"
      using assms(4) [OF p(3)] p(1,2) by (auto simp: waiting_ok_def)
    show "p_state (prc s p) = SLEEPING \<and> p_chan (prc s' p) = p_chan (prc s p)" if "p_state (prc s' p) = SLEEPING"
      using assms(4) [OF p(3)] p(1) that by auto
    show "is_child s p i \<and> p_state (prc s i) = ZOMBIE"
      if "i < length (procs s)" "is_child s' p i" "p_state (prc s' i) = ZOMBIE" for i
      using assms(4) [OF that(1)] that by (auto simp: is_child_def)
  qed
  then show "waiting_ok (fst (s', W)) p" by simp
qed

lemma exit_tail_simps [simp]:
  "length (procs (exit_tail s p x)) = length (procs s)" "initproc (exit_tail s p x) = initproc s"
  "cpus (exit_tail s p x) = cpus s" "mch (exit_tail s p x) = mch s" "nextpid (exit_tail s p x) = nextpid s"
  by (simp_all add: exit_tail_def Let_def)

lemma exit_tail_prc:
  assumes "p < length (procs s)" "j < length (procs s)" "j \<noteq> p"
  shows "woken (adopt p (initproc s) (prc s j)) (prc (exit_tail s p x) j)"
proof -
  let ?s1 = "reparent (Some p) p s"
  have "woken (prc ?s1 j) (wakeup (Some p) c (procs ?s1) ! j)" for c
    using assms(2) by (intro woken_wakeup) simp
  then show ?thesis
    using assms
    by (auto simp: exit_tail_def Let_def upd_proc_def intro: woken_trans [OF reparent_prc [OF assms(2)]])
qed

lemma exit_tail_self:
  assumes "p < length (procs s)"
  shows "p_state (prc (exit_tail s p x) p) = ZOMBIE" "p_xstate (prc (exit_tail s p x) p) = x"
    "p_parent (prc (exit_tail s p x) p) = p_parent (adopt p (initproc s) (prc s p))"
    "p_pid (prc (exit_tail s p x) p) = p_pid (prc s p)"
proof -
  have "woken (adopt p (initproc s) (prc s p)) (prc (reparent (Some p) p s) p)"
    by (rule reparent_prc [OF assms])
  then show "p_state (prc (exit_tail s p x) p) = ZOMBIE" "p_xstate (prc (exit_tail s p x) p) = x"
    "p_parent (prc (exit_tail s p x) p) = p_parent (adopt p (initproc s) (prc s p))"
    "p_pid (prc (exit_tail s p x) p) = p_pid (prc s p)"
    using assms by (auto simp: exit_tail_def Let_def upd_proc_def dest: wakenD)
qed

text \<open>Whoever gets a zombie child out of an exit is not asleep in \<^verbatim>\<open>wait\<close>.\<close>

lemma exit_tail_wakes_parent:
  assumes "p < length (procs s)" "q < length (procs s)" "q \<noteq> p" "p_parent (prc (exit_tail s p x) p) = Some q"
  shows "\<not> (p_state (prc (exit_tail s p x) q) = SLEEPING \<and> p_chan (prc (exit_tail s p x) q) = Some (ChProc q))"
  using assms by (auto simp: exit_tail_def Let_def upd_proc_def nth_wakeup)

lemma exit_tail_wakes_init:
  assumes "p < length (procs s)" "initproc s = Some r" "r < length (procs s)" "r \<noteq> p" "has_child s p"
  shows "\<not> (p_state (prc (exit_tail s p x) r) = SLEEPING \<and> p_chan (prc (exit_tail s p x) r) = Some (ChProc r))"
  using reparent_wakes [of s r "Some p" p] assms
  by (auto simp: exit_tail_def Let_def upd_proc_def nth_wakeup)

lemma wait_inv_exit:
  assumes inv: "wait_inv (s, W)" and p: "p < length (procs s)" "p \<notin> W" "initproc s \<noteq> Some p"
  shows "wait_inv (exit_tail s p x, W)"
  unfolding wait_inv_def
proof (intro conjI ballI)
  let ?s = "exit_tail s p x"
  show "init_ok (fst (?s, W))" using inv by (simp add: wait_inv_def init_ok_def)
  fix q assume "q \<in> snd (?s, W)"
  then have q: "q \<in> W" "waiting_ok s q" "q < length (procs s)" "q \<noteq> p"
    using inv p(2) by (auto simp: wait_inv_def waiting_ok_def)
  note Q = exit_tail_prc [OF p(1) q(3,4), of x]
  have "waiting_ok ?s q"
  proof (rule waiting_ok_mono [OF q(2)])
    show "p_state (prc ?s q) \<in> {SLEEPING, RUNNABLE, RUNNING}"
      using Q q(2) by (auto simp: woken_def waiting_ok_def)
    show sl: "p_state (prc s q) = SLEEPING \<and> p_chan (prc ?s q) = p_chan (prc s q)" if "p_state (prc ?s q) = SLEEPING"
      using that Q by (auto simp: woken_def)
    fix i assume i: "i < length (procs s)" "is_child ?s q i" "p_state (prc ?s i) = ZOMBIE"
      and asleep: "p_state (prc ?s q) = SLEEPING"
    have ch: "p_chan (prc ?s q) = Some (ChProc q)" using sl [OF asleep] q(2) by (simp add: waiting_ok_def)
    have "i \<noteq> p"
      using exit_tail_wakes_parent [OF p(1) q(3,4), of x] i(2) asleep ch by (auto simp: is_child_def)
    note I = exit_tail_prc [OF p(1) i(1) this, of x]
    have "\<not> is_child s p i"
    proof
      assume c: "is_child s p i"
      then have "initproc s = Some q" using I i(2) by (auto simp: is_child_def woken_def adopt_def)
      with exit_tail_wakes_init [OF p(1) _ q(3,4), of x] c i(1) asleep ch show False
        by (auto simp: has_child_def)
    qed
    then show "is_child s q i \<and> p_state (prc s i) = ZOMBIE"
      using I i by (auto simp: is_child_def woken_def adopt_def)
  qed simp
  then show "waiting_ok (fst (?s, W)) q" by simp
qed

lemma wait_inv_wait:
  assumes inv: "wait_inv (s, W)" and p: "p < length (procs s)" "p_state (prc s p) = RUNNING"
    and w: "wait (s\<lparr>procs := back_from_sleep p (procs s)\<rparr>) p addr = Ok (r, s')"
  shows "wait_inv (s', if r = Sleeps () then insert p W else W - {p})"
proof -
  let ?s0 = "s\<lparr>procs := back_from_sleep p (procs s)\<rparr>"
  have b: "prc ?s0 j = (if j = p then (prc s p)\<lparr>p_chan := None\<rparr> else prc s j)" for j
    using p(1) by (simp add: back_from_sleep_def)
  have inv0: "wait_inv (?s0, W - {p})"
  proof -
    have "wait_inv (s, W - {p})" using inv by (simp add: wait_inv_def)
    then show ?thesis by (rule wait_inv_sched) (use b in auto)
  qed
  show ?thesis
  proof (cases "zombie_child ?s0 p")
    case (Some i)
    then have i: "i < length (procs ?s0)" "p_state (prc ?s0 i) = ZOMBIE" "is_child ?s0 p i"
      by (auto simp: zombie_child_def find_Some_iff)
    from w Some obtain v where r: "r = Returns v" "reap ?s0 p addr i = Ok (v, s')"
      by (auto simp: wait_eq)
    note R = reap_frame [OF r(2) i(1)]
    have "i \<notin> W - {p}"
    proof
      assume "i \<in> W - {p}"
      then have "waiting_ok ?s0 i" using inv0 by (simp add: wait_inv_def)
      with i(2) show False by (simp add: waiting_ok_def)
    qed
    have "wait_inv (s', W - {p})"
      unfolding wait_inv_def
    proof (intro conjI ballI)
      show "init_ok (fst (s', W - {p}))" using inv0 R(1,2) by (simp add: wait_inv_def init_ok_def)
      fix q assume "q \<in> snd (s', W - {p})"
      then have q: "waiting_ok ?s0 q" "q \<noteq> i" using inv0 \<open>i \<notin> W - {p}\<close> by (auto simp: wait_inv_def)
      have "waiting_ok s' q"
      proof (rule waiting_ok_mono [OF q(1) R(1)])
        have e: "prc s' q = prc ?s0 q" by (rule R(5) [OF q(2)])
        show "p_state (prc s' q) \<in> {SLEEPING, RUNNABLE, RUNNING}" using q(1) unfolding e waiting_ok_def by blast
        show "p_state (prc ?s0 q) = SLEEPING \<and> p_chan (prc s' q) = p_chan (prc ?s0 q)" if "p_state (prc s' q) = SLEEPING"
          using that unfolding e by blast
        show "is_child ?s0 q k \<and> p_state (prc ?s0 k) = ZOMBIE" if "is_child s' q k" "p_state (prc s' k) = ZOMBIE" for k
        proof (cases "k = i")
          case True
          then have "procs s' = procs ?s0" using R(6) that(2) by auto
          then show ?thesis using that unfolding is_child_def by metis
        qed (use R(5) [of k] that in \<open>simp add: is_child_def\<close>)
      qed
      then show "waiting_ok (fst (s', W - {p})) q" by simp
    qed
    with r(1) show ?thesis by simp
  next
    case None
    then have nz: "\<And>i. i < length (procs s) \<Longrightarrow> is_child ?s0 p i \<Longrightarrow> p_state (prc ?s0 i) \<noteq> ZOMBIE"
      by (auto simp: zombie_child_def find_None_iff)
    show ?thesis
    proof (cases r)
      case (Returns v)
      then have "s' = ?s0" using w None by (auto simp: wait_eq split: if_splits)
      with Returns inv0 show ?thesis by simp
    next
      case (Sleeps u)
      then have s': "s' = ?s0\<lparr>procs := go_to_sleep p (ChProc p) (procs ?s0)\<rparr>"
        using w None by (auto simp: wait_eq split: if_splits)
      have len: "length (procs s') = length (procs s)" by (simp add: s')
      have e: "prc s' j = (if j = p then (prc s p)\<lparr>p_chan := Some (ChProc p), p_state := SLEEPING\<rparr> else prc ?s0 j)" for j
        using p(1) by (simp add: s' go_to_sleep_def back_from_sleep_def)
      have "wait_inv (s', W - {p})"
        using inv0 by (rule wait_inv_sched) (use e len b p(2) in \<open>auto simp: s'\<close>)
      moreover have "waiting_ok s' p"
        using nz p by (auto simp: waiting_ok_def len e is_child_def b split: if_splits)
      ultimately show ?thesis using Sleeps by (auto simp: wait_inv_def)
    qed
  qed
qed

lemma length_fork_link [simp]: "length (procs (fork_link s np p)) = length (procs s)"
  by (simp add: fork_link_def)

lemma wait_inv_step: "wait_step a b \<Longrightarrow> wait_inv a \<Longrightarrow> wait_inv b"
proof (induction rule: wait_step.induct)
  case (ws_wait p s addr r s' W)
  then show ?case by (intro wait_inv_wait)
next
  case (ws_exit p s W status)
  then show ?case by (intro wait_inv_exit)
next
  case (ws_fork s p np s' W)
  note A = allocproc_frame [OF ws_fork(2)]
  have e: "prc (fork_link s' np p) j = (if j = np then (prc s' np)\<lparr>p_parent := Some p, p_state := RUNNABLE\<rparr> else prc s j)" for j
    using A(1,3,7) by (simp add: fork_link_def upd_proc_def)
  show ?case
    unfolding wait_inv_def
  proof (intro conjI ballI)
    show "init_ok (fst (fork_link s' np p, W))"
      using ws_fork(3) A(3,4) by (simp add: wait_inv_def init_ok_def fork_link_def)
    fix q assume "q \<in> snd (fork_link s' np p, W)"
    then have q: "waiting_ok s q" using ws_fork(3) by (simp add: wait_inv_def)
    then have "q \<noteq> np" using A(2) by (auto simp: waiting_ok_def)
    then have "waiting_ok (fork_link s' np p) q"
      by (intro waiting_ok_mono [OF q]) (use q A(3) in \<open>auto simp: e waiting_ok_def is_child_def split: if_splits\<close>)
    then show "waiting_ok (fst (fork_link s' np p, W)) q" by simp
  qed
next
  case (ws_sleep p s W c)
  then show ?case
    by (intro wait_inv_sched [OF ws_sleep(4)]) (auto simp: go_to_sleep_def nth_list_update)
next
  case (ws_yield p s W)
  then show ?case
    by (intro wait_inv_sched [OF ws_yield(3)]) (auto simp: yield_def nth_list_update)
next
  case (ws_wakeup s W me c)
  then show ?case
    by (intro wait_inv_sched [OF ws_wakeup]) (auto simp: nth_wakeup)
next
  case (ws_kill s W pid)
  show ?case
  proof (rule wait_inv_sched [OF ws_kill])
    fix i assume "i < length (procs s)"
    from kill_frame(2) [OF this, of pid]
    show "p_parent (prc (s\<lparr>procs := snd (kill (procs s) pid)\<rparr>) i) = p_parent (prc s i) \<and>
      (p_state (prc (s\<lparr>procs := snd (kill (procs s) pid)\<rparr>) i) = p_state (prc s i) \<and>
         (i \<in> W \<longrightarrow> p_chan (prc (s\<lparr>procs := snd (kill (procs s) pid)\<rparr>) i) = p_chan (prc s i)) \<or>
       p_state (prc s i) \<in> {SLEEPING, RUNNABLE, RUNNING} \<and>
         p_state (prc (s\<lparr>procs := snd (kill (procs s) pid)\<rparr>) i) \<in> {RUNNABLE, RUNNING} \<or>
       i \<notin> W \<and> p_state (prc s i) \<in> {SLEEPING, RUNNABLE, RUNNING} \<and>
         p_state (prc (s\<lparr>procs := snd (kill (procs s) pid)\<rparr>) i) = SLEEPING)"
      by auto
  qed (simp_all add: kill_frame)
next
  case (ws_run i s W c)
  then show ?case
    by (intro wait_inv_sched [OF ws_run(2)]) (auto simp: scheduler_try_def upd_proc_def nth_list_update)
qed

lemma wait_inv_reach: "wait_step\<^sup>*\<^sup>* a b \<Longrightarrow> wait_inv a \<Longrightarrow> wait_inv b"
  by (induction rule: rtranclp_induct) (auto intro: wait_inv_step)

section \<open>Properties\<close>

text \<open>C10: No exit is missed: however \<^verbatim>\<open>wait\<close>, \<^verbatim>\<open>exit\<close>, \<^verbatim>\<open>fork\<close>, sleeping, waking, killing and scheduling
  interleave, a process inside \<^verbatim>\<open>wait\<close> that has an exited child is runnable or running,
  never asleep.\<close>

theorem wait_never_misses_exit:
  assumes "wait_step\<^sup>*\<^sup>* (s0, {}) (s, W)" "init_ok s0"
    and "p \<in> W" "i < length (procs s)" "is_child s p i" "p_state (prc s i) = ZOMBIE"
  shows "p_state (prc s p) = RUNNABLE \<or> p_state (prc s p) = RUNNING"
proof -
  have "wait_inv (s0, {})" using assms(2) by (simp add: wait_inv_def)
  from wait_inv_reach [OF assms(1) this] assms(3) have "waiting_ok s p" by (simp add: wait_inv_def)
  with assms(4-6) show ?thesis by (auto simp: waiting_ok_def)
qed

definition blank_proc :: proc where
  "blank_proc = \<lparr>p_state = UNUSED, p_chan = None, p_killed = 0, p_xstate = 0, p_pid = 0, p_parent = None,
     p_kstack = 0, p_sz = 0, p_pagetable = 0, p_trapframe = 0, p_context = \<lparr>ctx_ra = 0, ctx_sp = 0\<rparr>,
     p_ofile = replicate 16 None, p_cwd = None, p_name = replicate 16 0, p_pending_signals = 0,
     p_sig_handlers = replicate 32 0\<rparr>"

text \<open>Process 0 is \<^verbatim>\<open>init\<close>, process 1 its child; both run. Slot 2 is unused.\<close>

definition family :: sys where
  "family = \<lparr>mch = one_page, procs = [blank_proc\<lparr>p_state := RUNNING, p_pid := 1, p_pagetable := 0x80021000\<rparr>,
       blank_proc\<lparr>p_state := RUNNING, p_pid := 2, p_parent := Some 0\<rparr>, blank_proc],
     nextpid = 3, initproc = Some 0, ticks = 0, cpus = [Some 0, Some 1], trampoline = 0x80000000, forkret_addr = 0\<rparr>"

lemmas demo_simps = family_def blank_proc_def

theorem wait_never_misses_exit_witness:
  "\<exists>s. wait_step\<^sup>*\<^sup>* (family, {}) (s, {0}) \<and> p_state (prc s 1) = ZOMBIE \<and>
     (p_state (prc s 0) = RUNNABLE \<or> p_state (prc s 0) = RUNNING)"
proof -
  let ?f = "family\<lparr>procs := back_from_sleep 0 (procs family)\<rparr>"
  let ?s1 = "?f\<lparr>procs := go_to_sleep 0 (ChProc 0) (procs ?f)\<rparr>" and ?s2 = "exit_tail (?f\<lparr>procs := go_to_sleep 0 (ChProc 0) (procs ?f)\<rparr>) 1 7"
  have w: "wait ?f 0 0 = Ok (Sleeps (), ?s1)"
    by (simp add: wait_def demo_simps back_from_sleep_def killed_def upt_rec)
  have "0 < length (procs family)" "p_state (prc family 0) = RUNNING" by (simp_all add: demo_simps)
  from wait_step.ws_wait [OF this w, of "{}"] have "wait_step (family, {}) (?s1, {0})" by simp
  moreover have "wait_step (?s1, {0}) (?s2, {0})"
    by (rule wait_step.ws_exit) (simp_all add: demo_simps go_to_sleep_def back_from_sleep_def)
  ultimately have r: "wait_step\<^sup>*\<^sup>* (family, {}) (?s2, {0})" by simp
  have len: "length (procs ?s1) = 3" by (simp add: demo_simps)
  have z: "p_state (prc ?s2 1) = ZOMBIE" using exit_tail_self(1) [of 1 ?s1 7] len by simp
  have "is_child ?s2 0 1"
    using exit_tail_self(3) [of 1 ?s1 7] len
    by (simp add: is_child_def adopt_def) (simp add: demo_simps go_to_sleep_def back_from_sleep_def)
  with wait_never_misses_exit [OF r, of 0 1] z r len show ?thesis
    by (auto simp: init_ok_def) (auto simp: demo_simps)
qed




text \<open>
  With pid -1 an exited child is therefore missed while an earlier slot holds a child that
  is still alive.
\<close>

definition two_children :: sys where
  "two_children = family\<lparr>procs := (procs family)[2 := blank_proc\<lparr>p_state := ZOMBIE, p_pid := 3, p_parent := Some 0\<rparr>]\<rparr>"

lemma waitpid_any_misses_zombie:
  "zombie_child two_children 0 = Some 2" "waitpid two_children 0 (-1) 0 1 = Ok (Returns 0, two_children)"
  by (simp_all add: zombie_child_def is_child_def waitpid_def two_children_def demo_simps upt_rec)

section \<open>Sleeping on a channel\<close>

definition sleeps_on :: "sys \<Rightarrow> chan \<Rightarrow> nat \<Rightarrow> bool" where
  "sleeps_on s c j \<longleftrightarrow> j < length (procs s) \<and> p_state (prc s j) = SLEEPING \<and> p_chan (prc s j) = Some c"

lemma sleeps_on_wakeup:
  assumes "p_state (prc s me) = RUNNING"
  shows "sleeps_on (s\<lparr>procs := wakeup (Some me) (Some c) (procs s)\<rparr>) c' j \<longleftrightarrow> c \<noteq> c' \<and> sleeps_on s c' j"
  using assms by (auto simp: sleeps_on_def nth_wakeup woken_def split: if_splits)

lemma sleeps_on_sleep:
  "me < length (procs s) \<Longrightarrow>
   sleeps_on (s\<lparr>procs := go_to_sleep me c (procs s)\<rparr>) c' j \<longleftrightarrow> (if j = me then c = c' else sleeps_on s c' j)"
  by (auto simp: sleeps_on_def go_to_sleep_def)

lemma sleeps_on_wake_sleep:
  assumes "p_state (prc s me) = RUNNING" "me < length (procs s)"
  shows "sleeps_on (s\<lparr>procs := go_to_sleep me d (wakeup (Some me) (Some c) (procs s))\<rparr>) c' j \<longleftrightarrow>
    (if j = me then d = c' else c \<noteq> c' \<and> sleeps_on s c' j)"
  using sleeps_on_sleep [of me "s\<lparr>procs := wakeup (Some me) (Some c) (procs s)\<rparr>" d c' j]
    sleeps_on_wakeup [OF assms(1), of c c' j] assms(2) by simp

lemma sleeps_on_mch [simp]: "sleeps_on (s\<lparr>mch := m, procs := ps\<rparr>) c j \<longleftrightarrow> sleeps_on (s\<lparr>procs := ps\<rparr>) c j"
  by (simp add: sleeps_on_def)

end
