(* ===== verification/Proc_Inv.thy ===== *)
theory Proc_Inv
  imports Proc_Wait
begin

text \<open>
  Invariants of the process table: process ids are unique, and a running process runs on
  exactly one CPU.
\<close>

section \<open>Process ids\<close>

definition pid_inv :: "sys \<Rightarrow> bool" where
  "pid_inv s \<longleftrightarrow> 0 < nextpid s \<and>
     (\<forall>i < length (procs s). if p_state (prc s i) = UNUSED then p_pid (prc s i) = 0
        else 0 < p_pid (prc s i) \<and> p_pid (prc s i) < nextpid s) \<and>
     (\<forall>i < length (procs s). \<forall>j < length (procs s). i \<noteq> j \<longrightarrow>
        p_state (prc s i) \<noteq> UNUSED \<longrightarrow> p_state (prc s j) \<noteq> UNUSED \<longrightarrow> p_pid (prc s i) \<noteq> p_pid (prc s j))"

lemma pid_inv_same:
  assumes "pid_inv s" "length (procs s') = length (procs s)" "nextpid s' = nextpid s"
    and "\<And>i. i < length (procs s) \<Longrightarrow> p_pid (prc s' i) = p_pid (prc s i) \<and>
      (p_state (prc s' i) = UNUSED \<longleftrightarrow> p_state (prc s i) = UNUSED)"
  shows "pid_inv s'"
  using assms by (simp add: pid_inv_def)

lemma pid_inv_free:
  assumes "pid_inv s" "i < length (procs s)" "length (procs s') = length (procs s)" "nextpid s' = nextpid s"
    and "\<And>j. j \<noteq> i \<Longrightarrow> prc s' j = prc s j" "p_state (prc s' i) = UNUSED" "p_pid (prc s' i) = 0"
  shows "pid_inv s'"
  using assms unfolding pid_inv_def by metis

lemma pid_inv_alloc:
  assumes "pid_inv s" "allocproc s = Ok (Some i, s')"
  shows "pid_inv s'"
proof -
  note A = allocproc_frame [OF assms(2)]
  have "0 < p_pid (prc s' j) \<and> p_pid (prc s' j) < nextpid s'" if "j < length (procs s)" "p_state (prc s' j) \<noteq> UNUSED" for j
    using that assms(1) A(6,7,9) by (cases "j = i") (auto simp: pid_inv_def split: if_splits)
  moreover have "p_pid (prc s' j) \<noteq> p_pid (prc s' k)"
    if "j < length (procs s)" "k < length (procs s)" "j \<noteq> k" "p_state (prc s' j) \<noteq> UNUSED" "p_state (prc s' k) \<noteq> UNUSED" for j k
    using that assms(1) A(7,9) unfolding pid_inv_def by (metis less_irrefl)
  moreover have "p_pid (prc s' j) = 0" if "j < length (procs s)" "p_state (prc s' j) = UNUSED" for j
    using that assms(1) A(7,8) by (cases "j = i") (auto simp: pid_inv_def split: if_splits)
  ultimately show ?thesis using assms(1) A(3,6) by (simp add: pid_inv_def)
qed

lemma pid_inv_procs:
  assumes "pid_inv s" "length ps = length (procs s)"
    and "\<And>i. i < length (procs s) \<Longrightarrow> p_pid (ps ! i) = p_pid (prc s i) \<and>
      (p_state (ps ! i) = UNUSED \<longleftrightarrow> p_state (prc s i) = UNUSED)"
  shows "pid_inv (s\<lparr>procs := ps\<rparr>)"
  by (rule pid_inv_same [OF assms(1)]) (use assms(2,3) in auto)

lemma pid_inv_sleep:
  assumes "pid_inv s" "p_state (prc s p) \<noteq> UNUSED"
  shows "pid_inv (s\<lparr>procs := go_to_sleep p c (procs s)\<rparr>)"
proof (rule pid_inv_procs [OF assms(1)])
  fix i assume "i < length (procs s)"
  then show "p_pid (go_to_sleep p c (procs s) ! i) = p_pid (prc s i) \<and>
      (p_state (go_to_sleep p c (procs s) ! i) = UNUSED \<longleftrightarrow> p_state (prc s i) = UNUSED)"
    using assms(2) by (cases "i = p") (simp_all add: go_to_sleep_def)
qed simp

lemma pid_inv_back: "pid_inv s \<Longrightarrow> pid_inv (s\<lparr>procs := back_from_sleep p (procs s)\<rparr>)"
proof (rule pid_inv_procs)
  fix i assume "i < length (procs s)"
  then show "p_pid (back_from_sleep p (procs s) ! i) = p_pid (prc s i) \<and>
      (p_state (back_from_sleep p (procs s) ! i) = UNUSED \<longleftrightarrow> p_state (prc s i) = UNUSED)"
    by (cases "i = p") (simp_all add: back_from_sleep_def)
qed simp_all

lemma pid_inv_wait:
  assumes "pid_inv s" "p < length (procs s)" "p_state (prc s p) \<noteq> UNUSED" "wait s p addr = Ok (r, s')"
  shows "pid_inv s'"
proof (cases "zombie_child s p")
  case None
  with assms(4) have "s' = s \<or> s' = s\<lparr>procs := go_to_sleep p (ChProc p) (procs s)\<rparr>"
    by (auto simp: wait_eq split: if_splits)
  then show ?thesis using assms(1) pid_inv_sleep [OF assms(1,3)] by metis
next
  case (Some i)
  then have i: "i < length (procs s)" by (auto simp: zombie_child_def find_Some_iff)
  from assms(4) Some obtain v where "reap s p addr i = Ok (v, s')" by (auto simp: wait_eq)
  note R = reap_frame [OF this i]
  from R(6) show ?thesis
  proof
    assume "v = -1 \<and> procs s' = procs s"
    then show ?thesis by (auto intro: pid_inv_same [OF assms(1) R(1,4)])
  next
    assume "v = p_pid (prc s i) \<and> p_state (prc s' i) = UNUSED \<and> p_parent (prc s' i) = None \<and> p_pid (prc s' i) = 0"
    then show ?thesis using pid_inv_free [OF assms(1) i R(1,4,5)] by blast
  qed
qed

lemma pid_inv_exit:
  assumes "pid_inv s" "p < length (procs s)" "p_state (prc s p) \<noteq> UNUSED"
  shows "pid_inv (exit_tail s p x)"
proof (rule pid_inv_same [OF assms(1)])
  fix i assume i: "i < length (procs s)"
  show "p_pid (prc (exit_tail s p x) i) = p_pid (prc s i) \<and>
      (p_state (prc (exit_tail s p x) i) = UNUSED \<longleftrightarrow> p_state (prc s i) = UNUSED)"
  proof (cases "i = p")
    case True
    then show ?thesis using exit_tail_self(1,4) [OF assms(2), of x] assms(3) by simp
  next
    case False
    from exit_tail_prc [OF assms(2) i this, of x] show ?thesis by (auto simp: woken_def)
  qed
qed simp_all

lemma pid_inv_fork:
  assumes "pid_inv s" "allocproc s = Ok (Some np, s')"
  shows "pid_inv (fork_link s' np p)"
proof (rule pid_inv_same [OF pid_inv_alloc [OF assms]])
  note A = allocproc_frame [OF assms(2)]
  fix i assume "i < length (procs s')"
  then show "p_pid (prc (fork_link s' np p) i) = p_pid (prc s' i) \<and>
      (p_state (prc (fork_link s' np p) i) = UNUSED \<longleftrightarrow> p_state (prc s' i) = UNUSED)"
    using A(1,3,8) by (cases "i = np") (simp_all add: fork_link_def upd_proc_def)
qed (simp_all add: fork_link_def)

lemma pid_inv_step: "wait_step a b \<Longrightarrow> pid_inv (fst a) \<Longrightarrow> pid_inv (fst b)"
proof (induction rule: wait_step.induct)
  case (ws_wait p s addr r s' W)
  let ?s0 = "s\<lparr>procs := back_from_sleep p (procs s)\<rparr>"
  have "pid_inv ?s0" using ws_wait(4) by (simp add: pid_inv_back)
  moreover have "p < length (procs ?s0)" "p_state (prc ?s0 p) \<noteq> UNUSED"
    using ws_wait(1,2) by (simp_all add: back_from_sleep_def)
  ultimately have "pid_inv s'" using ws_wait(3) by (rule pid_inv_wait)
  then show ?case by simp
next
  case (ws_exit p s W status)
  then show ?case by (simp add: pid_inv_exit)
next
  case (ws_fork s p np s' W)
  have "pid_inv s" using ws_fork(3) by simp
  from pid_inv_fork [OF this ws_fork(2)] show ?case by simp
next
  case (ws_sleep p s W c)
  then show ?case by (simp add: pid_inv_sleep)
next
  case (ws_yield p s W)
  then have "pid_inv (s\<lparr>procs := yield p (procs s)\<rparr>)"
    by (intro pid_inv_procs) (auto simp: yield_def nth_list_update)
  then show ?case by simp
next
  case (ws_wakeup s W me c)
  then have "pid_inv (s\<lparr>procs := wakeup me c (procs s)\<rparr>)" by (intro pid_inv_procs) simp_all
  then show ?case by simp
next
  case (ws_kill s W pid)
  have "pid_inv (s\<lparr>procs := snd (kill (procs s) pid)\<rparr>)"
  proof (rule pid_inv_procs)
    fix i assume "i < length (procs s)"
    from kill_frame(2) [OF this, of pid]
    show "p_pid (snd (kill (procs s) pid) ! i) = p_pid (prc s i) \<and>
      (p_state (snd (kill (procs s) pid) ! i) = UNUSED \<longleftrightarrow> p_state (prc s i) = UNUSED)" by auto
  qed (use ws_kill in \<open>simp_all add: kill_frame(1)\<close>)
  then show ?case by simp
next
  case (ws_run i s W c)
  then have "pid_inv (scheduler_try s c i)"
    by (auto simp: scheduler_try_def upd_proc_def nth_list_update
        intro!: pid_inv_same [of s "s\<lparr>procs := p, cpus := c\<rparr>" for p c] split: if_splits)
  then show ?case by simp
qed



section \<open>Who runs where\<close>

text \<open>
  The schedulers and the processes they run. A process leaves its CPU by \<^verbatim>\<open>yield\<close>, \<^verbatim>\<open>sleep\<close>
  or \<^verbatim>\<open>exit\<close>, each of which changes its state and switches to the scheduler of that CPU
  while \<^verbatim>\<open>p->lock\<close> is held.
\<close>

inductive cpu_step :: "sys \<Rightarrow> sys \<Rightarrow> bool" where
  cs_dispatch: "c < length (cpus s) \<Longrightarrow> cpus s ! c = None \<Longrightarrow> i < length (procs s) \<Longrightarrow> cpu_step s (scheduler_try s c i)"
| cs_yield: "c < length (cpus s) \<Longrightarrow> cpus s ! c = Some p \<Longrightarrow>
    cpu_step s (scheduler_back (s\<lparr>procs := yield p (procs s)\<rparr>) c)"
| cs_sleep: "c < length (cpus s) \<Longrightarrow> cpus s ! c = Some p \<Longrightarrow>
    cpu_step s (scheduler_back (s\<lparr>procs := go_to_sleep p ch (procs s)\<rparr>) c)"
| cs_exit: "c < length (cpus s) \<Longrightarrow> cpus s ! c = Some p \<Longrightarrow> cpu_step s (scheduler_back (exit_tail s p x) c)"
| cs_wakeup: "cpu_step s (s\<lparr>procs := wakeup me ch (procs s)\<rparr>)"
| cs_kill: "cpu_step s (s\<lparr>procs := snd (kill (procs s) pid)\<rparr>)"
| cs_alloc: "allocproc s = Ok (Some i, s') \<Longrightarrow> cpu_step s (fork_link s' i p)"
| cs_reap: "i < length (procs s) \<Longrightarrow> p_state (prc s i) = ZOMBIE \<Longrightarrow> reap s p addr i = Ok (r, s') \<Longrightarrow> cpu_step s s'"

definition cpu_inv :: "sys \<Rightarrow> bool" where
  "cpu_inv s \<longleftrightarrow>
     (\<forall>c < length (cpus s). \<forall>i. cpus s ! c = Some i \<longrightarrow> i < length (procs s)) \<and>
     (\<forall>i < length (procs s). p_state (prc s i) = RUNNING \<longleftrightarrow> (\<exists>c < length (cpus s). cpus s ! c = Some i)) \<and>
     (\<forall>c < length (cpus s). \<forall>d < length (cpus s). c \<noteq> d \<longrightarrow> cpus s ! c \<noteq> None \<longrightarrow> cpus s ! c \<noteq> cpus s ! d)"

lemma cpu_invD:
  assumes "cpu_inv s"
  shows "c < length (cpus s) \<Longrightarrow> cpus s ! c = Some i \<Longrightarrow> i < length (procs s)"
    "i < length (procs s) \<Longrightarrow> p_state (prc s i) = RUNNING \<longleftrightarrow> (\<exists>c < length (cpus s). cpus s ! c = Some i)"
    "c < length (cpus s) \<Longrightarrow> d < length (cpus s) \<Longrightarrow> cpus s ! c = Some i \<Longrightarrow> cpus s ! d = Some i \<Longrightarrow> c = d"
  using assms unfolding cpu_inv_def by (metis option.distinct(1))+

lemma cpu_inv_same:
  assumes "cpu_inv s" "length (procs s') = length (procs s)" "cpus s' = cpus s"
    and "\<And>i. i < length (procs s) \<Longrightarrow> p_state (prc s' i) = RUNNING \<longleftrightarrow> p_state (prc s i) = RUNNING"
  shows "cpu_inv s'"
  using assms by (simp add: cpu_inv_def)

lemma cpu_inv_leave:
  assumes "cpu_inv s" "c < length (cpus s)" "cpus s ! c = Some p" "length (procs s') = length (procs s)"
    and "cpus s' = (cpus s)[c := None]" "p_state (prc s' p) \<noteq> RUNNING"
    and "\<And>i. i < length (procs s) \<Longrightarrow> i \<noteq> p \<Longrightarrow> p_state (prc s' i) = RUNNING \<longleftrightarrow> p_state (prc s i) = RUNNING"
  shows "cpu_inv s'"
proof -
  note D = cpu_invD [OF assms(1)]
  have n: "d < length (cpus s) \<Longrightarrow> cpus s' ! d = (if d = c then None else cpus s ! d)" for d
    using assms(5) by simp
  have l: "length (cpus s') = length (cpus s)" using assms(5) by simp
  have "p_state (prc s' i) = RUNNING \<longleftrightarrow> (\<exists>d < length (cpus s). cpus s' ! d = Some i)" if "i < length (procs s)" for i
  proof (cases "i = p")
    case True
    then show ?thesis using D(3) [OF _ assms(2) _ assms(3)] n assms(6) by auto
  next
    case False
    then have "(\<exists>d < length (cpus s). cpus s' ! d = Some i) \<longleftrightarrow> (\<exists>d < length (cpus s). cpus s ! d = Some i)"
      using n assms(3) by (metis option.distinct(1) option.inject)
    then show ?thesis using assms(7) [OF that False] D(2) [OF that] by simp
  qed
  moreover have "i < length (procs s)" if "d < length (cpus s)" "cpus s' ! d = Some i" for d i
    using that n D(1) by (metis option.distinct(1))
  moreover have "cpus s' ! d \<noteq> cpus s' ! e"
    if "d < length (cpus s)" "e < length (cpus s)" "d \<noteq> e" "cpus s' ! d \<noteq> None" for d e
    using that n D(3) by (metis not_Some_eq)
  ultimately show ?thesis unfolding cpu_inv_def l assms(4) by blast
qed

lemma cpu_inv_enter:
  assumes "cpu_inv s" "c < length (cpus s)" "cpus s ! c = None" "i < length (procs s)" "p_state (prc s i) = RUNNABLE"
  shows "cpu_inv (scheduler_try s c i)"
proof -
  note D = cpu_invD [OF assms(1)]
  let ?s = "scheduler_try s c i"
  have l: "length (procs ?s) = length (procs s)" "length (cpus ?s) = length (cpus s)"
    using assms(5) by (simp_all add: scheduler_try_def)
  have n: "d < length (cpus s) \<Longrightarrow> cpus ?s ! d = (if d = c then Some i else cpus s ! d)" for d
    using assms(5) by (simp add: scheduler_try_def)
  have p: "p_state (prc ?s j) = (if j = i then RUNNING else p_state (prc s j))" for j
    using assms(4,5) by (simp add: scheduler_try_def upd_proc_def)
  have off: "\<not> (\<exists>d < length (cpus s). cpus s ! d = Some i)" using D(2) [OF assms(4)] assms(5) by simp
  have "p_state (prc ?s j) = RUNNING \<longleftrightarrow> (\<exists>d < length (cpus s). cpus ?s ! d = Some j)" if "j < length (procs s)" for j
    using D(2) [OF that] n p assms(2,3) by (metis option.distinct(1) option.inject)
  moreover have "j < length (procs s)" if "d < length (cpus s)" "cpus ?s ! d = Some j" for d j
    using that n D(1) assms(4) by (metis option.inject)
  moreover have "cpus ?s ! d \<noteq> cpus ?s ! e"
    if "d < length (cpus s)" "e < length (cpus s)" "d \<noteq> e" "cpus ?s ! d \<noteq> None" for d e
    using that n D(3) off by (metis not_Some_eq)
  ultimately show ?thesis unfolding cpu_inv_def l by blast
qed

lemma cpu_inv_step: "cpu_step s s' \<Longrightarrow> cpu_inv s \<Longrightarrow> cpu_inv s'"
proof (induction rule: cpu_step.induct)
  case (cs_dispatch c s i)
  show ?case
  proof (cases "p_state (prc s i) = RUNNABLE")
    case True
    then show ?thesis by (rule cpu_inv_enter [OF cs_dispatch(4,1-3)])
  next
    case False
    then show ?thesis using cs_dispatch(4) by (simp add: scheduler_try_def)
  qed
next
  case (cs_yield c s p)
  then have "p < length (procs s)" by (auto dest: cpu_invD(1))
  with cs_yield show ?case
    by (intro cpu_inv_leave [OF cs_yield(3,1,2)]) (auto simp: scheduler_back_def yield_def)
next
  case (cs_sleep c s p ch)
  then have "p < length (procs s)" by (auto dest: cpu_invD(1))
  with cs_sleep show ?case
    by (intro cpu_inv_leave [OF cs_sleep(3,1,2)]) (auto simp: scheduler_back_def go_to_sleep_def)
next
  case (cs_exit c s p x)
  then have p: "p < length (procs s)" by (auto dest: cpu_invD(1))
  show ?case
  proof (rule cpu_inv_leave [OF cs_exit(3,1,2)])
    fix i assume "i < length (procs s)" "i \<noteq> p"
    from exit_tail_prc [OF p this, of x]
    show "p_state (prc (scheduler_back (exit_tail s p x) c) i) = RUNNING \<longleftrightarrow> p_state (prc s i) = RUNNING"
      by (auto simp: woken_def scheduler_back_def)
  qed (use exit_tail_self(1) [OF p] in \<open>auto simp: scheduler_back_def\<close>)
next
  case (cs_kill s pid)
  show ?case
  proof (rule cpu_inv_same [OF cs_kill])
    fix i assume "i < length (procs s)"
    from kill_frame(2) [OF this, of pid]
    show "p_state (prc (s\<lparr>procs := snd (kill (procs s) pid)\<rparr>) i) = RUNNING \<longleftrightarrow> p_state (prc s i) = RUNNING" by auto
  qed (simp_all add: kill_frame)
next
  case (cs_alloc s i s' p)
  note A = allocproc_frame [OF cs_alloc(1)]
  show ?case
    by (rule cpu_inv_same [OF cs_alloc(2)]) (use A in \<open>auto simp: fork_link_def upd_proc_def nth_list_update\<close>)
next
  case (cs_reap i s p addr r s')
  note R = reap_frame [OF cs_reap(3,1)]
  have "p_state (prc s' j) = RUNNING \<longleftrightarrow> p_state (prc s j) = RUNNING" for j
    using R(5) [of j] R(6) cs_reap(2) by (cases "j = i") auto
  then show ?case using cpu_inv_same [OF cs_reap(4) R(1,3)] by blast
next
  case (cs_wakeup s me ch)
  then show ?case by (rule cpu_inv_same) auto
qed

text \<open>C14: A process in state \<^verbatim>\<open>RUNNING\<close> runs on exactly one CPU, and a CPU runs only such a process.\<close>

theorem runs_on_one_cpu:
  assumes "cpu_step\<^sup>*\<^sup>* s0 s" "cpu_inv s0" "i < length (procs s)"
  shows "p_state (prc s i) = RUNNING \<longleftrightarrow> (\<exists>!c. c < length (cpus s) \<and> cpus s ! c = Some i)"
proof -
  from assms(1,2) have "cpu_inv s" by (induction rule: rtranclp_induct) (auto intro: cpu_inv_step)
  from cpu_invD(2) [OF this assms(3)] cpu_invD(3) [OF this] show ?thesis by metis
qed

theorem runs_on_one_cpu_witness:
  "p_state (prc (scheduler_back (family\<lparr>procs := yield 1 (procs family)\<rparr>) 1) 0) = RUNNING \<longleftrightarrow>
   (\<exists>!c. c < length (cpus (scheduler_back (family\<lparr>procs := yield 1 (procs family)\<rparr>) 1)) \<and>
      cpus (scheduler_back (family\<lparr>procs := yield 1 (procs family)\<rparr>) 1) ! c = Some 0)"
proof (rule runs_on_one_cpu)
  show "cpu_step\<^sup>*\<^sup>* family (scheduler_back (family\<lparr>procs := yield 1 (procs family)\<rparr>) 1)"
    by (rule r_into_rtranclp, rule cpu_step.cs_yield) (simp_all add: demo_simps)
  show "cpu_inv family" by (simp add: cpu_inv_def demo_simps All_less_Suc Ex_less_Suc numeral_eq_Suc)
qed (simp add: demo_simps scheduler_back_def)

section \<open>What a slot keeps from its previous process\<close>

text \<open>
  \<^verbatim>\<open>kill(0)\<close> finds the first unused slot, whose pid is 0, reports success and marks it killed;
  \<^verbatim>\<open>allocproc\<close> does not clear the mark, so the next process created there is born killed.
\<close>

lemma kill_loop_find:
  "kill_loop ps pid is = (case find (\<lambda>i. p_pid (ps ! i) = pid) is of None \<Rightarrow> (-1, ps)
     | Some i \<Rightarrow> (0, ps[i := (ps ! i)\<lparr>p_killed := 1,
         p_state := (if p_state (ps ! i) = SLEEPING then RUNNABLE else p_state (ps ! i))\<rparr>]))"
  by (induction "is") auto

lemma find_cong_on: "(\<And>x. x \<in> set xs \<Longrightarrow> P x = Q x) \<Longrightarrow> find P xs = find Q xs"
  by (induction xs) auto

lemma killed_before_birth:
  assumes "pid_inv s" "allocproc (s\<lparr>procs := snd (kill (procs s) 0)\<rparr>) = Ok (Some i, s')"
  shows "p_killed (prc s' i) = 1"
proof -
  let ?ps = "procs s" let ?ps' = "snd (kill ?ps 0)"
  note A = allocproc_frame [OF assms(2)]
  have f': "find_unused ?ps' = Some i"
    using assms(2) by (auto simp: allocproc_def Let_def split: option.splits prod.splits if_splits)
  have "find_unused ?ps' = find_unused ?ps"
    unfolding find_unused_def kill_frame(1)
  proof (rule find_cong_on)
    fix j assume "j \<in> set [0..<length ?ps]"
    then have "j < length ?ps" by simp
    from kill_frame(2) [OF this, of 0] show "(p_state (?ps' ! j) = UNUSED) = (p_state (?ps ! j) = UNUSED)" by auto
  qed
  moreover have "find (\<lambda>i. p_pid (?ps ! i) = 0) [0..<length ?ps] = find_unused ?ps"
    unfolding find_unused_def
  proof (rule find_cong_on)
    fix j assume "j \<in> set [0..<length ?ps]"
    then have "j < length ?ps" by simp
    with assms(1) show "(p_pid (?ps ! j) = 0) = (p_state (?ps ! j) = UNUSED)"
      unfolding pid_inv_def by (metis less_irrefl)
  qed
  ultimately have "find (\<lambda>i. p_pid (?ps ! i) = 0) [0..<length ?ps] = Some i" using f' by simp
  then have "p_killed (?ps' ! i) = 1"
    using A(1) by (simp add: kill_def kill_loop_find kill_frame(1))
  with A(10) show ?thesis by simp
qed

text \<open>A handler that a process installed with \<^verbatim>\<open>signal\<close> stays in its slot when the process is gone.\<close>

lemma handler_outlives_process:
  assumes "freeproc s i = Ok s1" "i < length (procs s)" "allocproc s1 = Ok (Some i, s2)"
  shows "p_sig_handlers (prc s2 i) = p_sig_handlers (prc s i)"
  using freeproc_frame(10) [OF assms(1,2)] allocproc_frame(11) [OF assms(3)] by simp

end
