(* ===== verification/Lock.thy ===== *)
theory Lock
  imports Proc_Wait
begin

text \<open>
  \<^verbatim>\<open>kernel/spinlock.c\<close> and \<^verbatim>\<open>kernel/sleeplock.c\<close>. Spin locks are modelled instruction by
  instruction where other CPUs can interfere: the atomic swap of \<^verbatim>\<open>acquire\<close>, the writes of
  \<^verbatim>\<open>lk->cpu\<close> and the atomic release. The rest of the development takes what they are used for,
  atomicity of the code between \<^verbatim>\<open>acquire\<close> and \<^verbatim>\<open>release\<close>, from this theory.
\<close>

section \<open>Spin locks\<close>

record spinlock =
  l_locked :: bool
  l_cpu :: "nat option"

text \<open>The part of \<^verbatim>\<open>struct cpu\<close> that the locks use, and whether the CPU takes interrupts.\<close>

record lcpu =
  noff :: int
  intena :: bool
  intr :: bool

record locks =
  lk :: "nat \<Rightarrow> spinlock"
  cpu :: "nat \<Rightarrow> lcpu"

definition initlock :: "locks \<Rightarrow> nat \<Rightarrow> locks" where
  "initlock s l = s\<lparr>lk := (lk s)(l := \<lparr>l_locked = False, l_cpu = None\<rparr>)\<rparr>"

definition holding :: "locks \<Rightarrow> nat \<Rightarrow> nat \<Rightarrow> bool" where
  "holding s c l \<longleftrightarrow> l_locked (lk s l) \<and> l_cpu (lk s l) = Some c"

definition push_off :: "locks \<Rightarrow> nat \<Rightarrow> locks" where
  "push_off s c =
     (let old = intr (cpu s c);
          u = (cpu s c)\<lparr>intr := False\<rparr>;
          u1 = (if noff u = 0 then u\<lparr>intena := old\<rparr> else u) in
      s\<lparr>cpu := (cpu s)(c := u1\<lparr>noff := noff u1 + 1\<rparr>)\<rparr>)"

definition pop_off :: "locks \<Rightarrow> nat \<Rightarrow> locks res" where
  "pop_off s c =
     (let u = cpu s c in
      if intr u then Panic ''pop_off - interruptible''
      else if noff u < 1 then Panic ''pop_off''
      else (let u1 = u\<lparr>noff := noff u - 1\<rparr> in
        Ok (s\<lparr>cpu := (cpu s)(c := (if noff u1 = 0 \<and> intena u1 then u1\<lparr>intr := True\<rparr> else u1))\<rparr>)))"

text \<open>\<^verbatim>\<open>acquire\<close>: before the loop, one atomic swap (with the value it finds), and after the loop.\<close>

definition acquire_start :: "locks \<Rightarrow> nat \<Rightarrow> nat \<Rightarrow> locks res" where
  "acquire_start s c l = (let s1 = push_off s c in if holding s1 c l then Panic ''acquire'' else Ok s1)"

definition test_and_set :: "locks \<Rightarrow> nat \<Rightarrow> bool \<times> locks" where
  "test_and_set s l = (l_locked (lk s l), s\<lparr>lk := (lk s)(l := (lk s l)\<lparr>l_locked := True\<rparr>)\<rparr>)"

definition acquire_finish :: "locks \<Rightarrow> nat \<Rightarrow> nat \<Rightarrow> locks" where
  "acquire_finish s c l = s\<lparr>lk := (lk s)(l := (lk s l)\<lparr>l_cpu := Some c\<rparr>)\<rparr>"

text \<open>\<^verbatim>\<open>release\<close>: up to the clearing of \<^verbatim>\<open>lk->cpu\<close>, and from the atomic release on.\<close>

definition release_start :: "locks \<Rightarrow> nat \<Rightarrow> nat \<Rightarrow> locks res" where
  "release_start s c l =
     (if \<not> holding s c l then Panic ''release''
      else Ok (s\<lparr>lk := (lk s)(l := (lk s l)\<lparr>l_cpu := None\<rparr>)\<rparr>))"

definition release_finish :: "locks \<Rightarrow> nat \<Rightarrow> nat \<Rightarrow> locks res" where
  "release_finish s c l = pop_off (s\<lparr>lk := (lk s)(l := (lk s l)\<lparr>l_locked := False\<rparr>)\<rparr>) c"

text \<open>
  Where a CPU is: outside \<^verbatim>\<open>acquire\<close> and \<^verbatim>\<open>release\<close>, in the loop, after a successful swap, after
  clearing \<^verbatim>\<open>lk->cpu\<close>. \<open>held c\<close> are the locks between whose \<^verbatim>\<open>acquire\<close> and \<^verbatim>\<open>release\<close> CPU \<open>c\<close> is,
  \<open>wants c\<close> is whether it took interrupts when it held none.
\<close>

datatype lock_pc = Out | Spin nat | Got nat | Rel nat

record lock_state =
  ls :: locks
  at_pc :: "nat \<Rightarrow> lock_pc"
  held :: "nat \<Rightarrow> nat set"
  wants :: "nat \<Rightarrow> bool"

inductive lock_step :: "lock_state \<Rightarrow> lock_state \<Rightarrow> bool" where
  lo_acquire: "at_pc t c = Out \<Longrightarrow> acquire_start (ls t) c l = Ok s \<Longrightarrow>
    lock_step t (t\<lparr>ls := s, at_pc := (at_pc t)(c := Spin l)\<rparr>)"
| lo_swap: "at_pc t c = Spin l \<Longrightarrow> test_and_set (ls t) l = (old, s) \<Longrightarrow>
    lock_step t (t\<lparr>ls := s, at_pc := (at_pc t)(c := (if old then Spin l else Got l))\<rparr>)"
| lo_got: "at_pc t c = Got l \<Longrightarrow>
    lock_step t (t\<lparr>ls := acquire_finish (ls t) c l, at_pc := (at_pc t)(c := Out), held := (held t)(c := insert l (held t c))\<rparr>)"
| lo_release: "at_pc t c = Out \<Longrightarrow> release_start (ls t) c l = Ok s \<Longrightarrow>
    lock_step t (t\<lparr>ls := s, at_pc := (at_pc t)(c := Rel l), held := (held t)(c := held t c - {l})\<rparr>)"
| lo_unlock: "at_pc t c = Rel l \<Longrightarrow> release_finish (ls t) c l = Ok s \<Longrightarrow>
    lock_step t (t\<lparr>ls := s, at_pc := (at_pc t)(c := Out)\<rparr>)"
| lo_intr: "at_pc t c = Out \<Longrightarrow> noff (cpu (ls t) c) = 0 \<Longrightarrow>
    lock_step t (t\<lparr>ls := (ls t)\<lparr>cpu := (cpu (ls t))(c := (cpu (ls t) c)\<lparr>intr := b\<rparr>)\<rparr>, wants := (wants t)(c := b)\<rparr>)"

text \<open>CPU \<open>c\<close> is the owner of lock \<open>l\<close>.\<close>

definition owns :: "lock_state \<Rightarrow> nat \<Rightarrow> nat \<Rightarrow> bool" where
  "owns t c l \<longleftrightarrow> l \<in> held t c \<or> at_pc t c = Got l \<or> at_pc t c = Rel l"

definition lock_inv :: "lock_state \<Rightarrow> bool" where
  "lock_inv t \<longleftrightarrow>
     (\<forall>c c' l. owns t c l \<longrightarrow> owns t c' l \<longrightarrow> c = c') \<and>
     (\<forall>c l. owns t c l \<longrightarrow> l_locked (lk (ls t) l)) \<and>
     (\<forall>c l. l_cpu (lk (ls t) l) = Some c \<longleftrightarrow> l \<in> held t c) \<and>
     (\<forall>c l. at_pc t c = Got l \<or> at_pc t c = Rel l \<longrightarrow> l \<notin> held t c)"

definition cpu_ok :: "lock_state \<Rightarrow> nat \<Rightarrow> bool" where
  "cpu_ok t c \<longleftrightarrow> finite (held t c) \<and>
     noff (cpu (ls t) c) = int (card (held t c)) + (if at_pc t c = Out then 0 else 1) \<and>
     (if noff (cpu (ls t) c) = 0 then intr (cpu (ls t) c) = wants t c
      else \<not> intr (cpu (ls t) c) \<and> intena (cpu (ls t) c) = wants t c)"

lemma push_off_lk [simp]: "lk (push_off s c) = lk s"
  by (simp add: push_off_def Let_def)

lemma pop_off_lk: "pop_off s c = Ok s' \<Longrightarrow> lk s' = lk s"
  by (auto simp: pop_off_def Let_def split: if_splits)

lemma pending_not_held:
  assumes "lock_inv t" "at_pc t c = Got l \<or> at_pc t c = Rel l"
  shows "l \<notin> held t d"
proof
  assume "l \<in> held t d"
  then have "owns t d l" "owns t c l" using assms(2) by (auto simp: owns_def)
  then have "d = c" using assms(1) unfolding lock_inv_def by blast
  with \<open>l \<in> held t d\<close> assms show False unfolding lock_inv_def by blast
qed

lemma held_once: "lock_inv t \<Longrightarrow> l \<in> held t c \<Longrightarrow> l \<in> held t d \<Longrightarrow> d = c"
  unfolding lock_inv_def owns_def by blast

lemma lock_inv_step: "lock_step t t' \<Longrightarrow> lock_inv t \<Longrightarrow> lock_inv t'"
proof (induction rule: lock_step.induct)
  case (lo_acquire t c l s)
  then have "lk s = lk (ls t)" by (auto simp: acquire_start_def Let_def split: if_splits)
  with lo_acquire show ?case by (auto simp: lock_inv_def owns_def split: if_splits)
next
  case (lo_swap t c l old s)
  then show ?case
    by (cases old) (auto simp: lock_inv_def owns_def test_and_set_def split: if_splits)
next
  case (lo_got t c l)
  have own: "owns (t\<lparr>ls := acquire_finish (ls t) c l, at_pc := (at_pc t)(c := Out), held := (held t)(c := insert l (held t c))\<rparr>) d k =
      owns t d k" for d k
    using lo_got(1) by (auto simp: owns_def)
  have "l \<notin> held t d" for d using pending_not_held lo_got by blast
  with lo_got show ?case unfolding lock_inv_def own by (auto simp: acquire_finish_def)
next
  case (lo_release t c l s)
  then have h: "l \<in> held t c" "s = (ls t)\<lparr>lk := (lk (ls t))(l := (lk (ls t) l)\<lparr>l_cpu := None\<rparr>)\<rparr>"
    by (auto simp: release_start_def holding_def lock_inv_def split: if_splits)
  then have own: "owns (t\<lparr>ls := s, at_pc := (at_pc t)(c := Rel l), held := (held t)(c := held t c - {l})\<rparr>) d k = owns t d k" for d k
    using lo_release(1) by (auto simp: owns_def)
  have "l \<notin> held t d" if "d \<noteq> c" for d using held_once lo_release(3) h(1) that by blast
  with lo_release(3) h show ?case unfolding lock_inv_def own by auto
next
  case (lo_unlock t c l s)
  have lks: "lk s = (lk (ls t))(l := (lk (ls t) l)\<lparr>l_locked := False\<rparr>)"
    using lo_unlock(2) by (auto simp: release_finish_def dest: pop_off_lk)
  have "l \<notin> held t d" for d using pending_not_held lo_unlock by blast
  then have own: "owns (t\<lparr>ls := s, at_pc := (at_pc t)(c := Out)\<rparr>) d k \<longleftrightarrow> owns t d k \<and> k \<noteq> l" for d k
    using lo_unlock(1,3) by (auto simp: owns_def lock_inv_def)
  show ?case using lo_unlock(3) unfolding lock_inv_def own by (auto simp: lks)
next
  case (lo_intr t c b)
  then show ?case by (simp add: lock_inv_def owns_def)
qed

lemma cpu_ok_same:
  assumes "cpu_ok t d" "cpu (ls t') d = cpu (ls t) d" "held t' d = held t d" "wants t' d = wants t d"
    "at_pc t' d = Out \<longleftrightarrow> at_pc t d = Out"
  shows "cpu_ok t' d"
  using assms by (simp add: cpu_ok_def)

lemma pop_off_Ok:
  assumes "cpu_ok t c" "at_pc t c \<noteq> Out"
  shows "\<exists>s'. pop_off ((ls t)\<lparr>lk := k\<rparr>) c = Ok s'"
  using assms by (auto simp: cpu_ok_def pop_off_def Let_def split: if_splits)

lemma cpu_ok_step: "lock_step t t' \<Longrightarrow> lock_inv t \<Longrightarrow> cpu_ok t d \<Longrightarrow> cpu_ok t' d"
proof (induction rule: lock_step.induct)
  case (lo_acquire t c l s)
  then have s: "s = push_off (ls t) c" by (auto simp: acquire_start_def Let_def split: if_splits)
  show ?case
  proof (cases "d = c")
    case True
    with lo_acquire(1,4) show ?thesis by (simp add: cpu_ok_def s push_off_def Let_def split: if_splits)
  qed (use lo_acquire(4) in \<open>auto simp: s push_off_def Let_def intro: cpu_ok_same\<close>)
next
  case (lo_swap t c l old s)
  then have s: "s = (ls t)\<lparr>lk := (lk (ls t))(l := (lk (ls t) l)\<lparr>l_locked := True\<rparr>)\<rparr>" by (auto simp: test_and_set_def)
  show ?case by (rule cpu_ok_same [OF lo_swap(4)]) (auto simp: s lo_swap(1))
next
  case (lo_got t c l)
  then have "l \<notin> held t c" by (auto simp: lock_inv_def)
  with lo_got(1,3) show ?case by (auto simp: cpu_ok_def acquire_finish_def)
next
  case (lo_release t c l s)
  then have h: "l \<in> held t c" "s = (ls t)\<lparr>lk := (lk (ls t))(l := (lk (ls t) l)\<lparr>l_cpu := None\<rparr>)\<rparr>"
    by (auto simp: release_start_def holding_def lock_inv_def split: if_splits)
  show ?case
  proof (cases "d = c")
    case True
    have "finite (held t c)" using lo_release(4) True by (simp add: cpu_ok_def)
    then have "card (held t c) = Suc (card (held t c - {l}))" using h(1) by (simp only: card_Suc_Diff1)
    with lo_release(1,4) True show ?thesis by (auto simp: cpu_ok_def h(2))
  qed (use lo_release(4) in \<open>auto simp: h(2) intro: cpu_ok_same\<close>)
next
  case (lo_unlock t c l s)
  show ?case
  proof (cases "d = c")
    case True
    with lo_unlock(1,2,4) show ?thesis
      by (auto simp: cpu_ok_def release_finish_def pop_off_def Let_def split: if_splits)
  next
    case False
    then have "cpu s d = cpu (ls t) d" using lo_unlock(2)
      by (auto simp: release_finish_def pop_off_def Let_def split: if_splits)
    with False lo_unlock(4) show ?thesis by (auto intro: cpu_ok_same)
  qed
next
  case (lo_intr t c b)
  then show ?case by (auto simp: cpu_ok_def)
qed

lemma lock_reach:
  "lock_step\<^sup>*\<^sup>* t t' \<Longrightarrow> lock_inv t \<Longrightarrow> (\<And>c. cpu_ok t c) \<Longrightarrow> lock_inv t' \<and> (\<forall>c. cpu_ok t' c)"
  by (induction rule: rtranclp_induct) (auto intro: lock_inv_step cpu_ok_step)

text \<open>At the start no lock is held and no CPU is in the lock code.\<close>

definition lock_start :: "lock_state \<Rightarrow> bool" where
  "lock_start t \<longleftrightarrow> (\<forall>l. lk (ls t) l = \<lparr>l_locked = False, l_cpu = None\<rparr>) \<and>
     (\<forall>c. at_pc t c = Out \<and> held t c = {} \<and> noff (cpu (ls t) c) = 0 \<and> intr (cpu (ls t) c) = wants t c)"

lemma lock_start_inv: "lock_start t \<Longrightarrow> lock_inv t" "lock_start t \<Longrightarrow> cpu_ok t c"
  by (auto simp: lock_start_def lock_inv_def owns_def cpu_ok_def)

text \<open>C17: Spin locks exclude. Whatever the interleaving of the CPUs' instructions, no two CPUs are
  in the critical section of the same lock; \<^verbatim>\<open>holding\<close> is true exactly for the CPU that is in it; a
  CPU inside a critical section takes no interrupts; \<^verbatim>\<open>release\<close> runs through without a panic; and
  when a CPU has left its last critical section it takes interrupts exactly if it did before the
  first.\<close>

theorem spinlock_mutual_exclusion:
  assumes "lock_step\<^sup>*\<^sup>* t t'" "lock_start t"
  shows "(\<forall>c c' l. l \<in> held t' c \<and> l \<in> held t' c' \<longrightarrow> c = c') \<and>
    (\<forall>c l. holding (ls t') c l \<longleftrightarrow> l \<in> held t' c) \<and>
    (\<forall>c. held t' c \<noteq> {} \<longrightarrow> \<not> intr (cpu (ls t') c)) \<and>
    (\<forall>c l. at_pc t' c = Rel l \<longrightarrow> (\<exists>s. release_finish (ls t') c l = Ok s)) \<and>
    (\<forall>c. held t' c = {} \<and> at_pc t' c = Out \<longrightarrow> intr (cpu (ls t') c) = wants t' c)"
proof -
  have I: "lock_inv t'" "\<And>c. cpu_ok t' c" using lock_reach [OF assms(1)] lock_start_inv [OF assms(2)] by blast+
  have "c = c'" if "l \<in> held t' c" "l \<in> held t' c'" for c c' l using I(1) that by (auto simp: lock_inv_def owns_def)
  moreover have "holding (ls t') c l \<longleftrightarrow> l \<in> held t' c" for c l
    using I(1) by (auto simp: lock_inv_def owns_def holding_def)
  moreover have "\<not> intr (cpu (ls t') c)" if "held t' c \<noteq> {}" for c
    using I(2) [of c] that by (auto simp: cpu_ok_def card_gt_0_iff split: if_splits)
  moreover have "\<exists>s. release_finish (ls t') c l = Ok s" if "at_pc t' c = Rel l" for c l
    using pop_off_Ok [OF I(2)] that by (simp add: release_finish_def)
  moreover have "intr (cpu (ls t') c) = wants t' c" if "held t' c = {}" "at_pc t' c = Out" for c
    using I(2) [of c] that by (simp add: cpu_ok_def)
  ultimately show ?thesis by blast
qed

definition lock_demo :: lock_state where
  "lock_demo = \<lparr>ls = \<lparr>lk = \<lambda>_. \<lparr>l_locked = False, l_cpu = None\<rparr>, cpu = \<lambda>_. \<lparr>noff = 0, intena = False, intr = True\<rparr>\<rparr>,
     at_pc = \<lambda>_. Out, held = \<lambda>_. {}, wants = \<lambda>_. True\<rparr>"

definition lock_demo_spin :: lock_state where
  "lock_demo_spin = lock_demo\<lparr>ls := push_off (ls lock_demo) 0, at_pc := (at_pc lock_demo)(0 := Spin 7)\<rparr>"

definition lock_demo_got :: lock_state where
  "lock_demo_got = lock_demo_spin\<lparr>ls := snd (test_and_set (ls lock_demo_spin) 7), at_pc := (at_pc lock_demo_spin)(0 := Got 7)\<rparr>"

definition lock_demo_in :: lock_state where
  "lock_demo_in = lock_demo_got\<lparr>ls := acquire_finish (ls lock_demo_got) 0 7, at_pc := (at_pc lock_demo_got)(0 := Out),
     held := (held lock_demo_got)(0 := insert 7 (held lock_demo_got 0))\<rparr>"

lemma lock_demo_run: "lock_step\<^sup>*\<^sup>* lock_demo lock_demo_in"
proof -
  have "lock_step lock_demo lock_demo_spin"
    unfolding lock_demo_spin_def by (rule lo_acquire) (simp_all add: lock_demo_def acquire_start_def Let_def holding_def)
  moreover have "lock_step lock_demo_spin lock_demo_got"
    using lo_swap [of lock_demo_spin 0 7 False "snd (test_and_set (ls lock_demo_spin) 7)"]
    by (simp add: lock_demo_got_def) (simp add: lock_demo_spin_def lock_demo_def test_and_set_def)
  moreover have "lock_step lock_demo_got lock_demo_in"
    unfolding lock_demo_in_def by (rule lo_got) (simp add: lock_demo_got_def)
  ultimately show ?thesis by (meson converse_rtranclp_into_rtranclp r_into_rtranclp)
qed

theorem spinlock_mutual_exclusion_witness:
  "7 \<in> held lock_demo_in 0 \<and> holding (ls lock_demo_in) 0 7 \<and> \<not> intr (cpu (ls lock_demo_in) 0)"
proof -
  have "lock_start lock_demo" by (simp add: lock_start_def lock_demo_def)
  from spinlock_mutual_exclusion [OF lock_demo_run this] have
    "\<forall>c l. holding (ls lock_demo_in) c l \<longleftrightarrow> l \<in> held lock_demo_in c"
    "\<forall>c. held lock_demo_in c \<noteq> {} \<longrightarrow> \<not> intr (cpu (ls lock_demo_in) c)" by blast+
  moreover have "7 \<in> held lock_demo_in 0" by (simp add: lock_demo_in_def)
  ultimately show ?thesis by blast
qed

section \<open>Sleep locks\<close>

record sleeplock =
  sl_locked :: bool
  sl_pid :: int

definition initsleeplock :: "sleeplock \<Rightarrow> sleeplock" where
  "initsleeplock k = k\<lparr>sl_locked := False, sl_pid := 0\<rparr>"

text \<open>
  A pass of \<^verbatim>\<open>acquiresleep\<close> by process \<open>p\<close> on the sleep lock with number \<open>l\<close>: it takes the lock or
  goes to sleep; when it is woken it makes another pass.
\<close>

definition acquiresleep :: "proc list \<Rightarrow> nat \<Rightarrow> nat \<Rightarrow> sleeplock \<Rightarrow> (unit, unit) run \<times> proc list \<times> sleeplock" where
  "acquiresleep ps p l k =
     (if sl_locked k then (Sleeps (), go_to_sleep p (ChSleeplock l) ps, k)
      else (Returns (), ps, k\<lparr>sl_locked := True, sl_pid := p_pid (ps ! p)\<rparr>))"

definition releasesleep :: "proc list \<Rightarrow> nat \<Rightarrow> nat \<Rightarrow> sleeplock \<Rightarrow> proc list \<times> sleeplock" where
  "releasesleep ps p l k = (wakeup (Some p) (Some (ChSleeplock l)) ps, k\<lparr>sl_locked := False, sl_pid := 0\<rparr>)"

definition holdingsleep :: "proc list \<Rightarrow> nat \<Rightarrow> sleeplock \<Rightarrow> bool" where
  "holdingsleep ps p k \<longleftrightarrow> sl_locked k \<and> sl_pid k = p_pid (ps ! p)"

text \<open>
  The processes that use the sleep lock \<open>l\<close>; \<open>owner\<close> is the one between \<^verbatim>\<open>acquiresleep\<close> and
  \<^verbatim>\<open>releasesleep\<close>. Other activity neither changes the pid of the owner nor puts processes to sleep on the lock.
\<close>

inductive sleeplock_step :: "nat \<Rightarrow> proc list \<times> sleeplock \<times> nat set \<Rightarrow> proc list \<times> sleeplock \<times> nat set \<Rightarrow> bool" for l where
  sk_take: "p < length ps \<Longrightarrow> p_state (ps ! p) = RUNNING \<Longrightarrow> p \<notin> own \<Longrightarrow>
    acquiresleep (back_from_sleep p ps) p l k = (Returns u, ps', k') \<Longrightarrow> sleeplock_step l (ps, k, own) (ps', k', insert p own)"
| sk_block: "p < length ps \<Longrightarrow> p_state (ps ! p) = RUNNING \<Longrightarrow> p \<notin> own \<Longrightarrow>
    acquiresleep (back_from_sleep p ps) p l k = (Sleeps u, ps', k') \<Longrightarrow> sleeplock_step l (ps, k, own) (ps', k', own)"
| sk_release: "p \<in> own \<Longrightarrow> p_state (ps ! p) = RUNNING \<Longrightarrow>
    releasesleep ps p l k = (ps', k') \<Longrightarrow> sleeplock_step l (ps, k, own) (ps', k', own - {p})"
| sk_other: "length ps' = length ps \<Longrightarrow> (\<And>p. p \<in> own \<Longrightarrow> p_pid (ps' ! p) = p_pid (ps ! p)) \<Longrightarrow>
    (\<And>j. j < length ps \<Longrightarrow> p_state (ps' ! j) = SLEEPING \<Longrightarrow> p_chan (ps' ! j) = Some (ChSleeplock l) \<Longrightarrow>
      p_state (ps ! j) = SLEEPING \<and> p_chan (ps ! j) = Some (ChSleeplock l)) \<Longrightarrow>
    sleeplock_step l (ps, k, own) (ps', k, own)"

definition sleeplock_inv :: "nat \<Rightarrow> proc list \<times> sleeplock \<times> nat set \<Rightarrow> bool" where
  "sleeplock_inv l a \<longleftrightarrow> (case a of (ps, k, own) \<Rightarrow>
     (\<forall>p \<in> own. p < length ps \<and> sl_locked k \<and> sl_pid k = p_pid (ps ! p)) \<and>
     (sl_locked k \<longrightarrow> (\<exists>p. own = {p})) \<and>
     (\<forall>j < length ps. p_state (ps ! j) = SLEEPING \<and> p_chan (ps ! j) = Some (ChSleeplock l) \<longrightarrow> sl_locked k))"

lemma sleeplock_inv_step: "sleeplock_step l a b \<Longrightarrow> sleeplock_inv l a \<Longrightarrow> sleeplock_inv l b"
proof (induction rule: sleeplock_step.induct)
  case (sk_take p ps own k u ps' k')
  then have "\<not> sl_locked k" "ps' = back_from_sleep p ps" "k' = k\<lparr>sl_locked := True, sl_pid := p_pid (ps ! p)\<rparr>"
    by (auto simp: acquiresleep_def back_from_sleep_def split: if_splits)
  moreover from this have "own = {}" using sk_take(5) by (auto simp: sleeplock_inv_def)
  ultimately show ?case using sk_take(1) by (simp add: sleeplock_inv_def back_from_sleep_def)
next
  case (sk_block p ps own k u ps' k')
  then have "sl_locked k" "ps' = go_to_sleep p (ChSleeplock l) (back_from_sleep p ps)" "k' = k"
    by (auto simp: acquiresleep_def split: if_splits)
  moreover have "p_pid (go_to_sleep p c (back_from_sleep p ps) ! j) = p_pid (ps ! j)" for c j
    by (cases "j = p"; cases "p < length ps") (simp_all add: go_to_sleep_def back_from_sleep_def list_update_beyond)
  ultimately show ?case using sk_block(5) by (auto simp: sleeplock_inv_def)
next
  case (sk_release p own ps k ps' k')
  then have "own = {p}" by (auto simp: sleeplock_inv_def)
  then show ?case
    using sk_release(2,3) by (auto simp: sleeplock_inv_def releasesleep_def nth_wakeup split: if_splits)
next
  case (sk_other ps' ps own k)
  then show ?case by (auto simp: sleeplock_inv_def)
qed

text \<open>C20: Sleep locks exclude and lose no wakeup. At most one process is between \<^verbatim>\<open>acquiresleep\<close> and
  \<^verbatim>\<open>releasesleep\<close>, \<^verbatim>\<open>holdingsleep\<close> is true for it, and a process sleeps on the lock only while some
  process holds it: when the holder releases it, every sleeper is runnable again.\<close>

theorem sleeplock_exclusive:
  assumes "(sleeplock_step l)\<^sup>*\<^sup>* (ps, k, {}) (ps', k', own)" "\<not> sl_locked k"
    and "\<And>j. j < length ps \<Longrightarrow> p_state (ps ! j) = SLEEPING \<Longrightarrow> p_chan (ps ! j) \<noteq> Some (ChSleeplock l)"
  shows "(\<forall>p q. p \<in> own \<and> q \<in> own \<longrightarrow> p = q) \<and> (\<forall>p. p \<in> own \<longrightarrow> holdingsleep ps' p k') \<and>
    (\<forall>j < length ps'. p_state (ps' ! j) = SLEEPING \<and> p_chan (ps' ! j) = Some (ChSleeplock l) \<longrightarrow> own \<noteq> {})"
proof -
  have "sleeplock_inv l (ps, k, {})" using assms(2,3) by (auto simp: sleeplock_inv_def)
  with assms(1) have "sleeplock_inv l (ps', k', own)"
    by (induction rule: rtranclp_induct) (auto intro: sleeplock_inv_step)
  then show ?thesis by (auto simp: sleeplock_inv_def holdingsleep_def)
qed

definition sleeplock_demo :: "(unit, unit) run \<times> proc list \<times> sleeplock" where
  "sleeplock_demo = acquiresleep (back_from_sleep 0 (procs family)) 0 3 \<lparr>sl_locked = False, sl_pid = 0\<rparr>"

theorem sleeplock_exclusive_witness:
  "holdingsleep (fst (snd sleeplock_demo)) 0 (snd (snd sleeplock_demo))"
proof -
  have "sleeplock_step 3 (procs family, \<lparr>sl_locked = False, sl_pid = 0\<rparr>, {})
      (fst (snd sleeplock_demo), snd (snd sleeplock_demo), insert 0 {})"
    by (rule sk_take) (simp_all add: sleeplock_demo_def acquiresleep_def demo_simps)
  then have r: "(sleeplock_step 3)\<^sup>*\<^sup>* (procs family, \<lparr>sl_locked = False, sl_pid = 0\<rparr>, {})
      (fst (snd sleeplock_demo), snd (snd sleeplock_demo), {0})" by (rule r_into_rtranclp)
  have "p_chan (procs family ! j) \<noteq> Some (ChSleeplock 3)" if "j < length (procs family)" for j
    using that by (auto simp: demo_simps nth_Cons split: nat.splits)
  with sleeplock_exclusive [OF r] show ?thesis by simp
qed

end
