(* ===== verification/Bio.thy ===== *)
theory Bio
  imports Lock
begin

text \<open>
  \<^verbatim>\<open>kernel/bio.c\<close>: the buffer cache, with its buffers on a doubly linked list in order of use.
  The list implements a sequence, and the cache is transparent: what \<^verbatim>\<open>bread\<close> returns is what
  was last written to the block, whether it is on the disk or still in a buffer.
\<close>

definition BSIZE :: nat where "BSIZE = 1024"
definition NBUF :: nat where "NBUF = 30"

record buf =
  b_valid :: bool
  b_dev :: nat
  b_blockno :: nat
  b_refcnt :: nat
  b_next :: nat
  b_prev :: nat
  b_data :: "u8 list"

text \<open>
  The cache is the array \<^verbatim>\<open>bcache.buf\<close> followed by \<^verbatim>\<open>bcache.head\<close>, which has the index \<open>NBUF\<close>. A
  pointer to a buffer is its index.
\<close>

type_synonym bcache = "buf list"
type_synonym disk = "nat \<Rightarrow> u8 list"

definition set_next :: "nat \<Rightarrow> nat \<Rightarrow> bcache \<Rightarrow> bcache" where
  "set_next i v bs = bs[i := (bs ! i)\<lparr>b_next := v\<rparr>]"

definition set_prev :: "nat \<Rightarrow> nat \<Rightarrow> bcache \<Rightarrow> bcache" where
  "set_prev i v bs = bs[i := (bs ! i)\<lparr>b_prev := v\<rparr>]"

definition link_front :: "nat \<Rightarrow> bcache \<Rightarrow> bcache" where
  "link_front b bs =
     (let bs1 = set_next b (b_next (bs ! NBUF)) bs;
          bs2 = set_prev b NBUF bs1;
          bs3 = set_prev (b_next (bs2 ! NBUF)) b bs2 in
      set_next NBUF b bs3)"

definition unlink_buf :: "nat \<Rightarrow> bcache \<Rightarrow> bcache" where
  "unlink_buf b bs =
     (let bs1 = set_prev (b_next (bs ! b)) (b_prev (bs ! b)) bs in
      set_next (b_prev (bs1 ! b)) (b_next (bs1 ! b)) bs1)"

definition binit :: "bcache \<Rightarrow> bcache" where
  "binit bs = fold link_front [0..<NBUF] (set_next NBUF NBUF (set_prev NBUF NBUF bs))"

text \<open>
  The loops of \<^verbatim>\<open>bget\<close> follow the list until it comes back to its head; the outer \<open>None\<close> is a
  loop that has not ended after the given number of steps.
\<close>

fun scan :: "nat \<Rightarrow> (nat \<Rightarrow> nat) \<Rightarrow> (nat \<Rightarrow> bool) \<Rightarrow> nat \<Rightarrow> nat option option" where
  "scan 0 nx P i = None"
| "scan (Suc fuel) nx P i =
     (if i = NBUF then Some None else if P i then Some (Some i) else scan fuel nx P (nx i))"

definition bget :: "bcache \<Rightarrow> nat \<Rightarrow> nat \<Rightarrow> (nat \<times> bcache) res option" where
  "bget bs dev blockno =
     (case scan (NBUF + 1) (\<lambda>i. b_next (bs ! i)) (\<lambda>i. b_dev (bs ! i) = dev \<and> b_blockno (bs ! i) = blockno)
         (b_next (bs ! NBUF)) of
        None \<Rightarrow> None
      | Some (Some b) \<Rightarrow> Some (Ok (b, bs[b := (bs ! b)\<lparr>b_refcnt := b_refcnt (bs ! b) + 1\<rparr>]))
      | Some None \<Rightarrow>
          (case scan (NBUF + 1) (\<lambda>i. b_prev (bs ! i)) (\<lambda>i. b_refcnt (bs ! i) = 0) (b_prev (bs ! NBUF)) of
             None \<Rightarrow> None
           | Some (Some b) \<Rightarrow> Some (Ok (b, bs[b := (bs ! b)\<lparr>b_dev := dev, b_blockno := blockno,
               b_valid := False, b_refcnt := 1\<rparr>]))
           | Some None \<Rightarrow> Some (Panic ''bget: no buffers'')))"

text \<open>\<^verbatim>\<open>virtio_disk_rw\<close>, as the transfer it performs: a block from the disk or to the disk.\<close>

definition disk_read :: "disk \<Rightarrow> nat \<Rightarrow> bcache \<Rightarrow> bcache" where
  "disk_read d b bs = bs[b := (bs ! b)\<lparr>b_data := d (b_blockno (bs ! b))\<rparr>]"

definition disk_write :: "disk \<Rightarrow> nat \<Rightarrow> bcache \<Rightarrow> disk" where
  "disk_write d b bs = d(b_blockno (bs ! b) := b_data (bs ! b))"

definition bread :: "disk \<Rightarrow> bcache \<Rightarrow> nat \<Rightarrow> nat \<Rightarrow> (nat \<times> bcache) res option" where
  "bread d bs dev blockno =
     (case bget bs dev blockno of
        None \<Rightarrow> None
      | Some r \<Rightarrow> Some (and_then r (\<lambda>(b, bs1).
          if \<not> b_valid (bs1 ! b)
          then (let bs2 = disk_read d b bs1 in Ok (b, bs2[b := (bs2 ! b)\<lparr>b_valid := True\<rparr>]))
          else Ok (b, bs1))))"

text \<open>\<open>h\<close> is what \<^verbatim>\<open>holdingsleep(&b->lock)\<close> answers.\<close>

definition bwrite :: "disk \<Rightarrow> bcache \<Rightarrow> bool \<Rightarrow> nat \<Rightarrow> disk res" where
  "bwrite d bs h b = (if \<not> h then Panic ''bwrite'' else Ok (disk_write d b bs))"

definition brelse :: "bcache \<Rightarrow> bool \<Rightarrow> nat \<Rightarrow> bcache res" where
  "brelse bs h b =
     (if \<not> h then Panic ''brelse''
      else (let bs1 = bs[b := (bs ! b)\<lparr>b_refcnt := b_refcnt (bs ! b) - 1\<rparr>] in
        if b_refcnt (bs1 ! b) = 0 then Ok (link_front b (unlink_buf b bs1)) else Ok bs1))"

definition bpin :: "bcache \<Rightarrow> nat \<Rightarrow> bcache" where
  "bpin bs b = bs[b := (bs ! b)\<lparr>b_refcnt := b_refcnt (bs ! b) + 1\<rparr>]"

definition bunpin :: "bcache \<Rightarrow> nat \<Rightarrow> bcache" where
  "bunpin bs b = bs[b := (bs ! b)\<lparr>b_refcnt := b_refcnt (bs ! b) - 1\<rparr>]"

section \<open>The linked list is a sequence\<close>

text \<open>From \<open>a\<close> the pointers lead through \<open>xs\<close> to \<open>b\<close>, and back.\<close>

fun lseg :: "(nat \<Rightarrow> nat) \<Rightarrow> (nat \<Rightarrow> nat) \<Rightarrow> nat \<Rightarrow> nat list \<Rightarrow> nat \<Rightarrow> bool" where
  "lseg nx pv a [] b \<longleftrightarrow> nx a = b \<and> pv b = a"
| "lseg nx pv a (x # xs) b \<longleftrightarrow> nx a = x \<and> pv x = a \<and> lseg nx pv x xs b"

lemma lseg_append: "lseg nx pv a (xs @ y # ys) b \<longleftrightarrow> lseg nx pv a xs y \<and> lseg nx pv y ys b"
  by (induction xs arbitrary: a) auto

lemma lseg_cong:
  assumes "lseg nx pv a xs b" "\<And>i. i \<in> insert a (set xs) \<Longrightarrow> nx' i = nx i" "\<And>i. i \<in> insert b (set xs) \<Longrightarrow> pv' i = pv i"
  shows "lseg nx' pv' a xs b"
  using assms by (induction xs arbitrary: a) auto

lemma lseg_ends:
  assumes "lseg nx pv a xs b"
  shows "nx a \<in> insert b (set xs)" "pv b \<in> insert a (set xs)"
proof -
  show "nx a \<in> insert b (set xs)" using assms by (cases xs) auto
  show "pv b \<in> insert a (set xs)" using assms by (induction xs arbitrary: a) auto
qed

lemma lseg_unlink:
  assumes "lseg nx pv a xs y" "lseg nx pv y ys b" "distinct (xs @ y # ys)" "a \<notin> set (xs @ y # ys)" "b \<notin> set (xs @ y # ys)"
  shows "lseg (nx(pv y := nx y)) (pv(nx y := pv y)) a (xs @ ys) b"
  using assms
proof (induction xs arbitrary: a)
  case Nil
  show ?case
  proof (cases ys)
    case (Cons z zs)
    have N: "lseg nx pv z zs b" "a \<noteq> z" "a \<notin> set zs" "z \<noteq> b" "z \<notin> set zs" using Nil.prems Cons by auto
    have "lseg (nx(a := z)) (pv(z := a)) z zs b" by (rule lseg_cong [OF N(1)]) (use N in auto)
    with Nil Cons show ?thesis by (simp add: fun_upd_def)
  qed (use Nil in simp)
next
  case (Cons x xs)
  have L: "nx a = x" "pv x = a" "lseg nx pv x xs y" using Cons.prems(1) by simp_all
  have "pv y \<in> insert x (set xs)" using lseg_ends(2) [OF L(3)] .
  then have 1: "pv y \<noteq> a" using Cons.prems(4) by auto
  have "nx y \<in> insert b (set ys)" using lseg_ends(1) [OF Cons.prems(2)] .
  then have 2: "nx y \<noteq> x" using Cons.prems(3,5) by auto
  have "lseg (nx(pv y := nx y)) (pv(nx y := pv y)) x (xs @ ys) b"
    by (rule Cons.IH [OF L(3) Cons.prems(2)]) (use Cons.prems(3,5) in auto)
  with 1 2 L show ?case by (simp add: fun_upd_def)
qed

lemma lseg_link:
  assumes "lseg nx pv a xs b" "y \<notin> insert a (insert b (set xs))" "distinct xs" "a \<notin> set xs" "b \<notin> set xs"
  shows "lseg (nx(y := nx a, a := y)) (pv(y := a, nx a := y)) a (y # xs) b"
proof (cases xs)
  case (Cons z zs)
  have L: "lseg nx pv z zs b" "nx a = z" "pv z = a" using assms(1) Cons by simp_all
  have N: "y \<noteq> a" "y \<noteq> b" "y \<noteq> z" "y \<notin> set zs" "a \<noteq> z" "a \<notin> set zs" "b \<noteq> z" "z \<notin> set zs" using assms Cons by auto
  have "lseg (nx(y := nx a, a := y)) (pv(y := a, nx a := y)) z zs b"
    by (rule lseg_cong [OF L(1)]) (use N L(2) in auto)
  with L N Cons show ?thesis by (simp add: fun_upd_def)
qed (use assms in auto)

text \<open>The cache as a sequence of its buffers, the most recently used first.\<close>

definition lru :: "bcache \<Rightarrow> nat list \<Rightarrow> bool" where
  "lru bs xs \<longleftrightarrow> length bs = NBUF + 1 \<and> distinct xs \<and> set xs \<subseteq> {..<NBUF} \<and>
     lseg (\<lambda>i. b_next (bs ! i)) (\<lambda>i. b_prev (bs ! i)) NBUF xs NBUF"

lemma length_set_links [simp]: "length (set_next i v bs) = length bs" "length (set_prev i v bs) = length bs"
  by (simp_all add: set_next_def set_prev_def)

lemma nth_update: "xs[i := v] ! j = (if i = j \<and> i < length xs then v else xs ! j)"
  by (cases "i < length xs") (auto simp: nth_list_update list_update_beyond)

lemma links_set:
  "b_next (set_next i v bs ! j) = (if i = j \<and> i < length bs then v else b_next (bs ! j))"
  "b_next (set_prev i v bs ! j) = b_next (bs ! j)"
  "b_prev (set_next i v bs ! j) = b_prev (bs ! j)"
  "b_prev (set_prev i v bs ! j) = (if i = j \<and> i < length bs then v else b_prev (bs ! j))"
  by (simp_all add: set_next_def set_prev_def nth_update)

lemma lru_link_front:
  assumes "lru bs xs" "b < NBUF" "b \<notin> set xs"
  shows "lru (link_front b bs) (b # xs)"
proof -
  let ?nx = "\<lambda>i. b_next (bs ! i)" and ?pv = "\<lambda>i. b_prev (bs ! i)"
  have L: "lseg ?nx ?pv NBUF xs NBUF" "length bs = NBUF + 1" "NBUF \<notin> set xs"
    using assms(1) by (auto simp: lru_def)
  have n: "?nx NBUF < NBUF + 1" "b \<noteq> ?nx NBUF" using lseg_ends(1) [OF L(1)] assms by (auto simp: lru_def)
  have "(\<lambda>i. b_next (link_front b bs ! i)) = ?nx(b := ?nx NBUF, NBUF := b)"
    "(\<lambda>i. b_prev (link_front b bs ! i)) = ?pv(b := NBUF, ?nx NBUF := b)"
    using L(2) assms(2) n by (auto simp: link_front_def Let_def links_set fun_eq_iff)
  moreover have "lseg (?nx(b := ?nx NBUF, NBUF := b)) (?pv(b := NBUF, ?nx NBUF := b)) NBUF (b # xs) NBUF"
    using assms L by (intro lseg_link) (auto simp: lru_def)
  moreover have "length (link_front b bs) = NBUF + 1" using L(2) by (simp add: link_front_def Let_def)
  ultimately show ?thesis using assms by (simp add: lru_def)
qed

lemma lru_unlink:
  assumes "lru bs (xs @ b # ys)"
  shows "lru (unlink_buf b bs) (xs @ ys)"
proof -
  let ?nx = "\<lambda>i. b_next (bs ! i)" and ?pv = "\<lambda>i. b_prev (bs ! i)"
  have L: "lseg ?nx ?pv NBUF xs b" "lseg ?nx ?pv b ys NBUF" "length bs = NBUF + 1" "NBUF \<notin> set (xs @ b # ys)"
    "distinct (xs @ b # ys)" "set (xs @ b # ys) \<subseteq> {..<NBUF}"
    using assms unfolding lru_def lseg_append by auto
  have n: "?nx b < length bs" "?pv b < length bs" "b \<noteq> ?nx b"
    using lseg_ends(1) [OF L(2)] lseg_ends(2) [OF L(1)] L(3-6) by auto
  have "(\<lambda>i. b_next (unlink_buf b bs ! i)) = ?nx(?pv b := ?nx b)" "(\<lambda>i. b_prev (unlink_buf b bs ! i)) = ?pv(?nx b := ?pv b)"
    using n by (auto simp: unlink_buf_def Let_def links_set fun_eq_iff)
  moreover have "lseg (?nx(?pv b := ?nx b)) (?pv(?nx b := ?pv b)) NBUF (xs @ ys) NBUF"
    using L(1,2,4,5) by (intro lseg_unlink) auto
  moreover have "length (unlink_buf b bs) = NBUF + 1" using L(3) by (simp add: unlink_buf_def Let_def)
  ultimately show ?thesis using L(5,6) by (auto simp: lru_def)
qed

lemma lru_binit: "length bs = NBUF + 1 \<Longrightarrow> lru (binit bs) (rev [0..<NBUF])"
proof -
  assume len: "length bs = NBUF + 1"
  let ?b0 = "set_next NBUF NBUF (set_prev NBUF NBUF bs)"
  have "lru (fold link_front [0..<n] ?b0) (rev [0..<n])" if "n \<le> NBUF" for n
    using that
  proof (induction n)
    case 0
    then show ?case using len by (simp add: lru_def links_set)
  next
    case (Suc n)
    then show ?case using lru_link_front [of "fold link_front [0..<n] ?b0" "rev [0..<n]" n] by simp
  qed
  then show ?thesis by (simp add: binit_def)
qed

text \<open>The loops of \<^verbatim>\<open>bget\<close> end and find the first buffer from the front or from the back.\<close>

lemma scan_next:
  "lseg nx pv a xs NBUF \<Longrightarrow> NBUF \<notin> set xs \<Longrightarrow> length xs < fuel \<Longrightarrow> scan fuel nx P (nx a) = Some (find P xs)"
proof (induction xs arbitrary: a fuel)
  case Nil
  then show ?case by (cases fuel) auto
next
  case (Cons x xs)
  then show ?case by (cases fuel) auto
qed

lemma lseg_rev: "lseg nx pv a xs b \<Longrightarrow> lseg pv nx b (rev xs) a"
proof (induction xs arbitrary: a)
  case (Cons x xs)
  then show ?case using lseg_append [of pv nx b "rev xs" x "[]" a] by simp
qed simp

lemma lru_scan:
  assumes "lru bs xs"
  shows "scan (NBUF + 1) (\<lambda>i. b_next (bs ! i)) P (b_next (bs ! NBUF)) = Some (find P xs)"
    "scan (NBUF + 1) (\<lambda>i. b_prev (bs ! i)) P (b_prev (bs ! NBUF)) = Some (find P (rev xs))"
proof -
  have L: "lseg (\<lambda>i. b_next (bs ! i)) (\<lambda>i. b_prev (bs ! i)) NBUF xs NBUF" "NBUF \<notin> set xs" "distinct xs" "set xs \<subseteq> {..<NBUF}"
    using assms by (auto simp: lru_def)
  have "card (set xs) \<le> NBUF" using card_mono [OF _ L(4)] by simp
  then have len: "length xs < NBUF + 1" using distinct_card [OF L(3)] by simp
  show "scan (NBUF + 1) (\<lambda>i. b_next (bs ! i)) P (b_next (bs ! NBUF)) = Some (find P xs)"
    by (rule scan_next [OF L(1,2) len])
  show "scan (NBUF + 1) (\<lambda>i. b_prev (bs ! i)) P (b_prev (bs ! NBUF)) = Some (find P (rev xs))"
    by (rule scan_next [OF lseg_rev [OF L(1)]]) (use L(2) len in auto)
qed

section \<open>The cache is transparent\<close>

text \<open>
  \<open>V\<close> is the contents of the blocks of device \<open>D\<close> as the users of the cache see it. They change
  it by changing the data of a buffer they hold. The last user lets a buffer go only when its
  data is on the disk: \<^verbatim>\<open>log_write\<close> pins the buffers that are not.
\<close>

definition buf_inv :: "nat \<Rightarrow> bcache \<Rightarrow> bool" where
  "buf_inv D bs \<longleftrightarrow> (\<exists>xs. lru bs xs \<and> set xs = {..<NBUF}) \<and>
     (\<forall>i < NBUF. 0 < b_refcnt (bs ! i) \<longrightarrow> b_dev (bs ! i) = D \<and> b_valid (bs ! i)) \<and>
     (\<forall>i < NBUF. \<forall>j < NBUF. b_dev (bs ! i) = D \<and> b_dev (bs ! j) = D \<and> b_blockno (bs ! i) = b_blockno (bs ! j) \<longrightarrow> i = j)"

definition caches :: "nat \<Rightarrow> bcache \<Rightarrow> disk \<Rightarrow> disk \<Rightarrow> bool" where
  "caches D bs d V \<longleftrightarrow> buf_inv D bs \<and>
     (\<forall>i < NBUF. b_dev (bs ! i) = D \<and> b_valid (bs ! i) \<longrightarrow> b_data (bs ! i) = V (b_blockno (bs ! i))) \<and>
     (\<forall>b. V b \<noteq> d b \<longrightarrow> (\<exists>i < NBUF. 0 < b_refcnt (bs ! i) \<and> b_blockno (bs ! i) = b))"

definition on_disk :: "bcache \<Rightarrow> disk \<Rightarrow> nat \<Rightarrow> bool" where
  "on_disk bs d i \<longleftrightarrow> 1 < b_refcnt (bs ! i) \<or> b_refcnt (bs ! i) = 1 \<and> b_data (bs ! i) = d (b_blockno (bs ! i))"

inductive cache_step :: "nat \<Rightarrow> bcache \<times> disk \<times> disk \<Rightarrow> bcache \<times> disk \<times> disk \<Rightarrow> bool" for D where
  ca_read: "bread d bs D b = Some (Ok (i, bs')) \<Longrightarrow> cache_step D (bs, d, V) (bs', d, V)"
| ca_modify: "i < NBUF \<Longrightarrow> 0 < b_refcnt (bs ! i) \<Longrightarrow>
    cache_step D (bs, d, V) (bs[i := (bs ! i)\<lparr>b_data := x\<rparr>], d, V(b_blockno (bs ! i) := x))"
| ca_write: "i < NBUF \<Longrightarrow> 0 < b_refcnt (bs ! i) \<Longrightarrow> bwrite d bs h i = Ok d' \<Longrightarrow> cache_step D (bs, d, V) (bs, d', V)"
| ca_release: "i < NBUF \<Longrightarrow> on_disk bs d i \<Longrightarrow> brelse bs h i = Ok bs' \<Longrightarrow> cache_step D (bs, d, V) (bs', d, V)"
| ca_pin: "i < NBUF \<Longrightarrow> 0 < b_refcnt (bs ! i) \<Longrightarrow> cache_step D (bs, d, V) (bpin bs i, d, V)"
| ca_unpin: "i < NBUF \<Longrightarrow> on_disk bs d i \<Longrightarrow> cache_step D (bs, d, V) (bunpin bs i, d, V)"

lemma buf_inv_lru:
  assumes "buf_inv D bs"
  obtains xs where "lru bs xs" "set xs = {..<NBUF}"
  using assms by (auto simp: buf_inv_def)

lemma lru_same_links:
  assumes "lru bs xs" "length bs' = length bs" "\<And>i. b_next (bs' ! i) = b_next (bs ! i)" "\<And>i. b_prev (bs' ! i) = b_prev (bs ! i)"
  shows "lru bs' xs"
  using assms by (simp add: lru_def)

text \<open>What \<^verbatim>\<open>bget\<close> finds: the buffer of the block, or else the least recently used free one.\<close>

lemma bget_eq:
  assumes "lru bs xs"
  shows "bget bs dev b = Some (case find (\<lambda>i. b_dev (bs ! i) = dev \<and> b_blockno (bs ! i) = b) xs of
      Some i \<Rightarrow> Ok (i, bs[i := (bs ! i)\<lparr>b_refcnt := b_refcnt (bs ! i) + 1\<rparr>])
    | None \<Rightarrow> (case find (\<lambda>i. b_refcnt (bs ! i) = 0) (rev xs) of
        Some i \<Rightarrow> Ok (i, bs[i := (bs ! i)\<lparr>b_dev := dev, b_blockno := b, b_valid := False, b_refcnt := 1\<rparr>])
      | None \<Rightarrow> Panic ''bget: no buffers''))"
  unfolding bget_def lru_scan [OF assms] by (simp split: option.split)

lemma find_Some_in: "find P xs = Some i \<Longrightarrow> i \<in> set xs \<and> P i"
  by (auto simp: find_Some_iff)

text \<open>\<^verbatim>\<open>bread\<close>, by cases: a hit on the buffer \<open>i\<close>, or a miss that recycles \<open>i\<close>.\<close>

lemma bread_cases:
  assumes inv: "buf_inv D bs" and r: "bread d bs D b = Some (Ok (i, bs'))"
  obtains g where "i < NBUF" "bs' = bs[i := g]" "b_next g = b_next (bs ! i)" "b_prev g = b_prev (bs ! i)" "b_dev g = D" "b_valid g"
    "b_blockno g = b" "b_refcnt g = b_refcnt (bs ! i) + 1"
    "b_dev (bs ! i) = D \<and> b_blockno (bs ! i) = b \<and> b_data g = (if b_valid (bs ! i) then b_data (bs ! i) else d b) \<or>
     b_refcnt (bs ! i) = 0 \<and> (\<forall>j < NBUF. b_dev (bs ! j) = D \<longrightarrow> b_blockno (bs ! j) \<noteq> b) \<and> b_data g = d b"
proof -
  obtain xs where xs: "lru bs xs" "set xs = {..<NBUF}" using buf_inv_lru [OF inv] .
  have len: "length bs = NBUF + 1" using xs(1) by (simp add: lru_def)
  show thesis
  proof (cases "find (\<lambda>i. b_dev (bs ! i) = D \<and> b_blockno (bs ! i) = b) xs")
    case (Some j)
    from find_Some_in [OF Some] xs(2) have j: "j < NBUF" "b_dev (bs ! j) = D" "b_blockno (bs ! j) = b" by auto
    let ?g = "(bs ! j)\<lparr>b_refcnt := b_refcnt (bs ! j) + 1\<rparr>"
    let ?g' = "if b_valid (bs ! j) then ?g else ?g\<lparr>b_data := d b, b_valid := True\<rparr>"
    have e: "i = j" "bs' = bs[j := ?g']"
      using r len j by (auto simp: bread_def bget_eq [OF xs(1)] Some disk_read_def Let_def split: if_splits)
    show thesis by (rule that [of ?g']) (use j e in simp_all)
  next
    case None
    then obtain j where F: "find (\<lambda>i. b_refcnt (bs ! i) = 0) (rev xs) = Some j"
      using r by (auto simp: bread_def bget_eq [OF xs(1)] split: option.splits)
    from find_Some_in [OF F] xs(2) have j: "j < NBUF" "b_refcnt (bs ! j) = 0" by auto
    have n: "\<forall>j < NBUF. b_dev (bs ! j) = D \<longrightarrow> b_blockno (bs ! j) \<noteq> b"
      using None xs(2) by (auto simp: find_None_iff)
    let ?g = "(bs ! j)\<lparr>b_dev := D, b_blockno := b, b_valid := False, b_refcnt := 1, b_data := d b, b_valid := True\<rparr>"
    have e: "i = j" "bs' = bs[j := ?g]"
      using r len j by (auto simp: bread_def bget_eq [OF xs(1)] None F disk_read_def Let_def)
    show thesis by (rule that [of ?g]) (use n j e in simp_all)
  qed
qed

lemma caches_update:
  assumes "caches D bs d V" "i < NBUF" "b_next g = b_next (bs ! i)" "b_prev g = b_prev (bs ! i)"
    and "b_dev g = D" "b_valid g" "b_data g = V' (b_blockno g)"
    and "\<And>j. j < NBUF \<Longrightarrow> j \<noteq> i \<Longrightarrow> b_dev (bs ! j) = D \<Longrightarrow> b_blockno (bs ! j) \<noteq> b_blockno g"
    and "\<And>b. b \<noteq> b_blockno g \<Longrightarrow> V' b = V b" "\<And>b. V' b \<noteq> d b \<Longrightarrow> (b = b_blockno g \<or> 0 < b_refcnt (bs ! i) \<and> b = b_blockno (bs ! i)) \<Longrightarrow>
      b = b_blockno g \<and> 0 < b_refcnt g"
  shows "caches D (bs[i := g]) d V'"
proof -
  have inv: "buf_inv D bs" using assms(1) by (simp add: caches_def)
  obtain xs where xs: "lru bs xs" "set xs = {..<NBUF}" using buf_inv_lru [OF inv] .
  have len: "length bs = NBUF + 1" using xs(1) by (simp add: lru_def)
  have "lru (bs[i := g]) xs" by (rule lru_same_links [OF xs(1)]) (auto simp: nth_update assms(3,4))
  then have "buf_inv D (bs[i := g])"
    using inv xs(2) assms(2,5,6,8) len unfolding buf_inv_def by (auto simp: nth_update) metis
  moreover have "\<exists>k < NBUF. 0 < b_refcnt (bs[i := g] ! k) \<and> b_blockno (bs[i := g] ! k) = b" if V: "V' b \<noteq> d b" for b
  proof (cases "b = b_blockno g")
    case True
    then show ?thesis using assms(2) assms(10) [OF V] len by (intro exI [of _ i]) simp
  next
    case False
    then obtain k where k: "k < NBUF" "0 < b_refcnt (bs ! k)" "b_blockno (bs ! k) = b"
      using V assms(1,9) by (auto simp: caches_def)
    then have "k \<noteq> i" using assms(10) [OF V] False by auto
    with k show ?thesis by (intro exI [of _ k]) simp
  qed
  ultimately show ?thesis
    using assms(1,2,6,7,8,9) len by (auto simp: caches_def nth_update)
qed

lemma fields_set_links [simp]:
  "b_dev (set_next i v bs ! j) = b_dev (bs ! j)" "b_dev (set_prev i v bs ! j) = b_dev (bs ! j)"
  "b_blockno (set_next i v bs ! j) = b_blockno (bs ! j)" "b_blockno (set_prev i v bs ! j) = b_blockno (bs ! j)"
  "b_valid (set_next i v bs ! j) = b_valid (bs ! j)" "b_valid (set_prev i v bs ! j) = b_valid (bs ! j)"
  "b_refcnt (set_next i v bs ! j) = b_refcnt (bs ! j)" "b_refcnt (set_prev i v bs ! j) = b_refcnt (bs ! j)"
  "b_data (set_next i v bs ! j) = b_data (bs ! j)" "b_data (set_prev i v bs ! j) = b_data (bs ! j)"
  by (simp_all add: set_next_def set_prev_def nth_update)

lemma caches_front:
  assumes "caches D bs d V" "i < NBUF"
  shows "caches D (link_front i (unlink_buf i bs)) d V"
proof -
  obtain xs where xs: "lru bs xs" "set xs = {..<NBUF}" using assms(1) by (auto simp: caches_def elim: buf_inv_lru)
  then obtain us vs where uv: "xs = us @ i # vs" using assms(2) by (metis lessThan_iff split_list)
  have "lru (link_front i (unlink_buf i bs)) (i # us @ vs)"
    using lru_link_front [OF lru_unlink [of bs us i vs]] xs(1) assms(2) uv by (simp add: lru_def)
  moreover have "set (i # us @ vs) = {..<NBUF}" using xs(2) uv by auto
  ultimately show ?thesis
    using assms(1) unfolding caches_def buf_inv_def by (auto simp: link_front_def unlink_buf_def Let_def)
qed

lemma cachesD:
  assumes "caches D bs d V"
  shows "i < NBUF \<Longrightarrow> 0 < b_refcnt (bs ! i) \<Longrightarrow> b_dev (bs ! i) = D" "i < NBUF \<Longrightarrow> 0 < b_refcnt (bs ! i) \<Longrightarrow> b_valid (bs ! i)"
    "i < NBUF \<Longrightarrow> j < NBUF \<Longrightarrow> b_dev (bs ! i) = D \<Longrightarrow> b_dev (bs ! j) = D \<Longrightarrow> b_blockno (bs ! i) = b_blockno (bs ! j) \<Longrightarrow> i = j"
    "i < NBUF \<Longrightarrow> b_dev (bs ! i) = D \<Longrightarrow> b_valid (bs ! i) \<Longrightarrow> b_data (bs ! i) = V (b_blockno (bs ! i))"
    "V b \<noteq> d b \<Longrightarrow> \<exists>i < NBUF. 0 < b_refcnt (bs ! i) \<and> b_blockno (bs ! i) = b"
  using assms unfolding caches_def buf_inv_def by blast+

lemma bread_caches:
  assumes c: "caches D bs d V" and r: "bread d bs D b = Some (Ok (i, bs'))"
  shows "caches D bs' d V" "b_data (bs' ! i) = V b" "b_blockno (bs' ! i) = b" "i < NBUF"
proof -
  have inv: "buf_inv D bs" using c by (simp add: caches_def)
  obtain g where g: "i < NBUF" "bs' = bs[i := g]" "b_next g = b_next (bs ! i)" "b_prev g = b_prev (bs ! i)" "b_dev g = D" "b_valid g"
    "b_blockno g = b" "b_refcnt g = b_refcnt (bs ! i) + 1"
    "b_dev (bs ! i) = D \<and> b_blockno (bs ! i) = b \<and> b_data g = (if b_valid (bs ! i) then b_data (bs ! i) else d b) \<or>
     b_refcnt (bs ! i) = 0 \<and> (\<forall>j < NBUF. b_dev (bs ! j) = D \<longrightarrow> b_blockno (bs ! j) \<noteq> b) \<and> b_data g = d b"
    using bread_cases [OF inv r] .
  have V: "b_data g = V b"
  proof (cases "V b = d b")
    case True
    with g(9) cachesD(4) [OF c g(1)] show ?thesis by auto
  next
    case False
    then obtain k where k: "k < NBUF" "0 < b_refcnt (bs ! k)" "b_blockno (bs ! k) = b" using cachesD(5) [OF c] by blast
    then have kD: "b_dev (bs ! k) = D" "b_valid (bs ! k)" using cachesD(1,2) [OF c] by blast+
    then have h: "b_dev (bs ! i) = D" "b_blockno (bs ! i) = b" "b_data g = (if b_valid (bs ! i) then b_data (bs ! i) else d b)"
      using g(9) k(1,3) by blast+
    have "k = i" by (rule cachesD(3) [OF c k(1) g(1) kD(1) h(1)]) (simp add: k(3) h(2))
    with h kD cachesD(4) [OF c g(1)] show ?thesis by simp
  qed
  have "caches D (bs[i := g]) d V"
  proof (rule caches_update [OF c g(1,3,4,5,6)])
    show "b_data g = V (b_blockno g)" using V g(7) by simp
    show "b_blockno (bs ! j) \<noteq> b_blockno g" if "j < NBUF" "j \<noteq> i" "b_dev (bs ! j) = D" for j
    proof
      assume e: "b_blockno (bs ! j) = b_blockno g"
      then have h: "b_dev (bs ! i) = D" "b_blockno (bs ! i) = b" using g(7,9) that(1,3) by blast+
      have "j = i" by (rule cachesD(3) [OF c that(1) g(1) that(3) h(1)]) (simp add: e g(7) h(2))
      with that(2) show False by simp
    qed
    show "b' = b_blockno g \<and> 0 < b_refcnt g"
      if "b' = b_blockno g \<or> 0 < b_refcnt (bs ! i) \<and> b' = b_blockno (bs ! i)" for b'
      using g(7,8,9) that by auto
  qed simp
  moreover have "length bs = NBUF + 1" using inv by (auto simp: buf_inv_def lru_def)
  ultimately show "caches D bs' d V" "b_data (bs' ! i) = V b" "b_blockno (bs' ! i) = b" "i < NBUF"
    using g(1,2,7) V by auto
qed

text \<open>A change to a buffer that is held, which keeps its block and leaves it held if it differs from the disk.\<close>

lemma caches_held:
  assumes c: "caches D bs d V" and i: "i < NBUF" "0 < b_refcnt (bs ! i)"
    and g: "b_next g = b_next (bs ! i)" "b_prev g = b_prev (bs ! i)" "b_dev g = b_dev (bs ! i)" "b_valid g = b_valid (bs ! i)"
      "b_blockno g = b_blockno (bs ! i)" "b_data g = V' (b_blockno (bs ! i))" "\<And>b. b \<noteq> b_blockno (bs ! i) \<Longrightarrow> V' b = V b"
      "V' (b_blockno (bs ! i)) \<noteq> d (b_blockno (bs ! i)) \<Longrightarrow> 0 < b_refcnt g"
  shows "caches D (bs[i := g]) d V'"
proof (rule caches_update [OF c i(1) g(1,2)])
  show "b_dev g = D" "b_valid g" using cachesD(1,2) [OF c i] g(3,4) by simp_all
  show "b_blockno (bs ! j) \<noteq> b_blockno g" if "j < NBUF" "j \<noteq> i" "b_dev (bs ! j) = D" for j
    using that g(5) cachesD(1) [OF c i] cachesD(3) [OF c that(1) i(1)] by auto
qed (use g in auto)

lemma caches_drop:
  assumes c: "caches D bs d V" and i: "i < NBUF" "on_disk bs d i"
  shows "caches D (bs[i := (bs ! i)\<lparr>b_refcnt := b_refcnt (bs ! i) - 1\<rparr>]) d V"
proof (rule caches_held [OF c i(1)])
  show r: "0 < b_refcnt (bs ! i)" using i(2) by (auto simp: on_disk_def)
  show "b_data ((bs ! i)\<lparr>b_refcnt := b_refcnt (bs ! i) - 1\<rparr>) = V (b_blockno (bs ! i))"
    using cachesD(4) [OF c i(1) cachesD(1,2) [OF c i(1) r]] by simp
  then show "0 < b_refcnt ((bs ! i)\<lparr>b_refcnt := b_refcnt (bs ! i) - 1\<rparr>)"
    if "V (b_blockno (bs ! i)) \<noteq> d (b_blockno (bs ! i))" using that i(2) by (auto simp: on_disk_def)
qed simp_all

lemma caches_step: "cache_step D a a' \<Longrightarrow> (case a of (bs, d, V) \<Rightarrow> caches D bs d V) \<Longrightarrow> (case a' of (bs, d, V) \<Rightarrow> caches D bs d V)"
proof (induction rule: cache_step.induct)
  case (ca_read d bs b i bs' V)
  then show ?case using bread_caches(1) by simp
next
  case (ca_modify i bs d V x)
  then show ?case by (auto intro!: caches_held)
next
  case (ca_write i bs d h d' V)
  then have c: "caches D bs d V" by simp
  have d': "d' = d(b_blockno (bs ! i) := b_data (bs ! i))" using ca_write(3) by (auto simp: bwrite_def disk_write_def split: if_splits)
  have "b_data (bs ! i) = V (b_blockno (bs ! i))" using cachesD(4) [OF c] cachesD(1,2) [OF c] ca_write(1,2) by blast
  with c show ?case by (auto simp: caches_def d')
next
  case (ca_release i bs d h bs' V)
  let ?bs = "bs[i := (bs ! i)\<lparr>b_refcnt := b_refcnt (bs ! i) - 1\<rparr>]"
  have c: "caches D ?bs d V" using caches_drop ca_release(1,2,4) by simp
  then have "caches D (link_front i (unlink_buf i ?bs)) d V" using caches_front ca_release(1) by blast
  with c ca_release(3) show ?case by (auto simp: brelse_def Let_def split: if_splits)
next
  case (ca_pin i bs d V)
  then have c: "caches D bs d V" by simp
  have "b_data (bs ! i) = V (b_blockno (bs ! i))" using cachesD(4) [OF c] cachesD(1,2) [OF c] ca_pin(1,2) by blast
  with c ca_pin(1,2) show ?case unfolding bpin_def by (auto intro!: caches_held)
next
  case (ca_unpin i bs d V)
  then show ?case using caches_drop by (simp add: bunpin_def)
qed

lemma binit_fields: "b_refcnt (binit bs ! j) = b_refcnt (bs ! j)" "b_dev (binit bs ! j) = b_dev (bs ! j)"
proof -
  have "b_refcnt (fold link_front is bs ! j) = b_refcnt (bs ! j)" "b_dev (fold link_front is bs ! j) = b_dev (bs ! j)" for "is" bs
    by (induction "is" arbitrary: bs) (auto simp: link_front_def Let_def)
  then show "b_refcnt (binit bs ! j) = b_refcnt (bs ! j)" "b_dev (binit bs ! j) = b_dev (bs ! j)"
    by (simp_all add: binit_def)
qed

text \<open>C18: The buffer cache is transparent. From a freshly initialised cache on, however buffers are
  read, changed, written, pinned and released, \<^verbatim>\<open>bread\<close> ends, and it either panics because all
  buffers are in use or returns a buffer for the block whose data is what was last put into the
  block, whether it has reached the disk or not. Every block that differs from the disk is in a
  buffer that cannot be recycled.\<close>

theorem bread_returns_last_contents:
  assumes "(cache_step D)\<^sup>*\<^sup>* (binit bs0, d0, d0) (bs, d, V)" "length bs0 = NBUF + 1"
    and "\<And>i. i < NBUF \<Longrightarrow> b_refcnt (bs0 ! i) = 0 \<and> b_dev (bs0 ! i) \<noteq> D"
  shows "(bread d bs D b = Some (Panic ''bget: no buffers'') \<and> (\<forall>i < NBUF. 0 < b_refcnt (bs ! i))) \<or>
    (\<exists>i bs'. bread d bs D b = Some (Ok (i, bs')) \<and> b_blockno (bs' ! i) = b \<and> b_data (bs' ! i) = V b)"
proof -
  have "caches D (binit bs0) d0 d0"
    using lru_binit [OF assms(2)] assms(3) by (auto simp: caches_def buf_inv_def binit_fields)
  then have c: "caches D bs d V" using rtranclp_induct [OF assms(1), of "\<lambda>a. case a of (bs, d, V) \<Rightarrow> caches D bs d V"] caches_step
    by (metis (mono_tags, lifting) case_prod_conv)
  obtain xs where xs: "lru bs xs" "set xs = {..<NBUF}" using c by (auto simp: caches_def elim: buf_inv_lru)
  show ?thesis
  proof (cases "\<exists>i bs'. bread d bs D b = Some (Ok (i, bs'))")
    case True
    then show ?thesis using bread_caches [OF c] by blast
  next
    case False
    then have "bget bs D b \<noteq> Some (Ok (i, bs1))" for i bs1
      by (cases "b_valid (bs1 ! i)") (auto simp: bread_def Let_def)
    then have n: "bget bs D b \<noteq> Some (Ok x)" for x by (cases x) auto
    have "find (\<lambda>i. b_dev (bs ! i) = D \<and> b_blockno (bs ! i) = b) xs = None"
      using n by (cases "find (\<lambda>i. b_dev (bs ! i) = D \<and> b_blockno (bs ! i) = b) xs") (auto simp: bget_eq [OF xs(1)])
    moreover from this have "find (\<lambda>i. b_refcnt (bs ! i) = 0) (rev xs) = None"
      using n by (cases "find (\<lambda>i. b_refcnt (bs ! i) = 0) (rev xs)") (auto simp: bget_eq [OF xs(1)])
    ultimately have "find (\<lambda>i. b_refcnt (bs ! i) = 0) (rev xs) = None" "bget bs D b = Some (Panic ''bget: no buffers'')"
      by (simp_all add: bget_eq [OF xs(1)])
    then show ?thesis using xs(2) by (auto simp: find_None_iff bread_def)
  qed
qed

definition empty_cache :: bcache where
  "empty_cache = replicate (NBUF + 1) \<lparr>b_valid = False, b_dev = 0, b_blockno = 0, b_refcnt = 0, b_next = 0, b_prev = 0, b_data = []\<rparr>"

theorem bread_returns_last_contents_witness:
  "\<exists>i bs'. bread (\<lambda>b. [of_nat b]) (binit empty_cache) 1 5 = Some (Ok (i, bs')) \<and> b_data (bs' ! i) = [5]"
proof -
  have "length empty_cache = NBUF + 1" by (simp add: empty_cache_def)
  moreover have e: "b_refcnt (empty_cache ! i) = 0 \<and> b_dev (empty_cache ! i) \<noteq> 1" if "i < NBUF" for i
    using that by (simp add: empty_cache_def nth_Cons split: nat.split)
  moreover have "0 < NBUF" "b_refcnt (binit empty_cache ! 0) = 0"
    using e [of 0] by (simp_all add: NBUF_def binit_fields)
  ultimately show ?thesis
    using bread_returns_last_contents [of 1 empty_cache "\<lambda>b. [of_nat b]" "binit empty_cache" "\<lambda>b. [of_nat b]" "\<lambda>b. [of_nat b]" 5]
    by auto
qed

end
