(* ===== verification/Bytes.thy ===== *)
theory Bytes
  imports Prelude
begin

text \<open>
  Structures in byte arrays. \<open>rd k off bs\<close> is the unsigned little-endian number in the \<open>k\<close> bytes
  of \<open>bs\<close> from \<open>off\<close> on; \<open>wr off xs bs\<close> overwrites the bytes from \<open>off\<close> on with \<open>xs\<close>.
\<close>

lemma u8_256: "(256 :: u8) = 0"
  by simp

lemma le_bytes_of_le_bytes: "le_bytes (length bs) (of_le_bytes bs) = bs"
proof (induction bs)
  case (Cons b bs)
  have "(unat b + 256 * of_le_bytes bs) div 256 = of_le_bytes bs"
    using unsigned_less [of b, where 'a = nat] by simp
  moreover have "256 * (of_nat x :: u8) = 0" for x
    using mult_zero_left [of "of_nat x :: u8"] by (metis (no_types) u8_256)
  ultimately show ?case using Cons by simp
qed simp

lemma of_le_bytes_bound: "of_le_bytes bs < 256 ^ length bs"
proof (induction bs)
  case (Cons b bs)
  then show ?case using unsigned_less [of b, where 'a = nat] by simp
qed simp

lemma bytes64_of_le_bytes:
  assumes "length bs = 8"
  shows "bytes64 (of_nat (of_le_bytes bs)) = bs"
proof -
  have "of_le_bytes bs < 2 ^ 64" using of_le_bytes_bound [of bs] assms by simp
  then have "unat (of_nat (of_le_bytes bs) :: u64) = of_le_bytes bs" by (simp add: unat_of_nat)
  then show ?thesis using le_bytes_of_le_bytes [of bs] assms by (simp add: bytes64_def)
qed

definition slice :: "nat \<Rightarrow> nat \<Rightarrow> u8 list \<Rightarrow> u8 list" where
  "slice off k bs = take k (drop off bs)"

definition rd :: "nat \<Rightarrow> nat \<Rightarrow> u8 list \<Rightarrow> nat" where
  "rd k off bs = of_le_bytes (slice off k bs)"

definition wr :: "nat \<Rightarrow> u8 list \<Rightarrow> u8 list \<Rightarrow> u8 list" where
  "wr off xs bs = take off bs @ xs @ drop (off + length xs) bs"

lemma length_wr [simp]: "off + length xs \<le> length bs \<Longrightarrow> length (wr off xs bs) = length bs"
  by (simp add: wr_def)

lemma length_slice [simp]: "off + k \<le> length bs \<Longrightarrow> length (slice off k bs) = k"
  by (simp add: slice_def)

lemma slice_nth: "off + k \<le> length bs \<Longrightarrow> i < k \<Longrightarrow> slice off k bs ! i = bs ! (off + i)"
  by (simp add: slice_def)

lemma wr_nth:
  assumes "off + length xs \<le> length bs" "i < length bs"
  shows "wr off xs bs ! i = (if off \<le> i \<and> i < off + length xs then xs ! (i - off) else bs ! i)"
  using assms by (auto simp: wr_def nth_append)

lemma slice_wr_same [simp]: "off + length xs \<le> length bs \<Longrightarrow> k = length xs \<Longrightarrow> slice off k (wr off xs bs) = xs"
  by (simp add: slice_def wr_def)

lemma slice_wr_other:
  assumes "off + length xs \<le> length bs" "i + k \<le> length bs" "i + k \<le> off \<or> off + length xs \<le> i"
  shows "slice i k (wr off xs bs) = slice i k bs"
  by (rule nth_equalityI) (use assms in \<open>auto simp: slice_nth wr_nth\<close>)

lemma wr_slice [simp]: "off + k \<le> length bs \<Longrightarrow> wr off (slice off k bs) bs = bs"
  by (rule nth_equalityI) (auto simp: wr_nth slice_nth)

lemma rd_wr_same: "off + k \<le> length bs \<Longrightarrow> rd k off (wr off (le_bytes k v) bs) = v mod 256 ^ k"
  by (simp add: rd_def of_le_bytes_le_bytes)

lemma rd_wr_other:
  assumes "off + length xs \<le> length bs" "i + k \<le> length bs" "i + k \<le> off \<or> off + length xs \<le> i"
  shows "rd k i (wr off xs bs) = rd k i bs"
  using slice_wr_other [OF assms] by (simp add: rd_def)

lemma rd_bound: "rd k off bs < 256 ^ k"
proof -
  have "of_le_bytes (slice off k bs) < 256 ^ length (slice off k bs)" by (rule of_le_bytes_bound)
  also have "\<dots> \<le> 256 ^ k" by (rule power_increasing) (simp_all add: slice_def)
  finally show ?thesis by (simp add: rd_def)
qed

end
