(* ===== verification/Log.thy ===== *)
theory Log
  imports Bio Bytes
begin

text \<open>
  \<^verbatim>\<open>kernel/log.c\<close>: the redo log. By theory \<open>Bio\<close> the buffer cache shows an array of blocks, of which
  the disk holds older contents for the blocks that are pinned; this theory works on the two
  arrays. Every write to the disk is recorded, in order: a crash may happen after any of them.
\<close>

definition MAXOPBLOCKS :: nat where "MAXOPBLOCKS = 10"
definition LOGSIZE :: nat where "LOGSIZE = MAXOPBLOCKS * 3"

record bdev =
  dk :: disk
  vw :: disk
  pins :: "nat \<Rightarrow> nat"
  writes :: "(nat \<times> u8 list) list"

text \<open>\<^verbatim>\<open>bread\<close>, a change of the whole data, \<^verbatim>\<open>bwrite\<close> and \<^verbatim>\<open>brelse\<close> on block \<open>b\<close>.\<close>

definition put_block :: "nat \<Rightarrow> u8 list \<Rightarrow> bdev \<Rightarrow> bdev" where
  "put_block b x s = s\<lparr>vw := (vw s)(b := x), dk := (dk s)(b := x), writes := writes s @ [(b, x)]\<rparr>"

definition unpin_block :: "nat \<Rightarrow> bdev \<Rightarrow> bdev" where
  "unpin_block b s = s\<lparr>pins := (pins s)(b := pins s b - 1)\<rparr>"

record log =
  lg_start :: nat
  lg_size :: nat
  lg_outstanding :: int
  lg_committing :: bool
  lh_n :: nat
  lh_block :: "nat list"

definition install_step :: "log \<Rightarrow> bool \<Rightarrow> nat \<Rightarrow> bdev \<Rightarrow> bdev" where
  "install_step lg recovering tail s =
     (let lbuf = vw s (lg_start lg + tail + 1);
          s1 = put_block (lh_block lg ! tail) lbuf s in
      if recovering then s1 else unpin_block (lh_block lg ! tail) s1)"

definition install_trans :: "log \<Rightarrow> bool \<Rightarrow> bdev \<Rightarrow> bdev" where
  "install_trans lg recovering s = fold (install_step lg recovering) [0..<lh_n lg] s"

text \<open>The on-disk header: \<^verbatim>\<open>n\<close> and the block numbers, four bytes each.\<close>

definition head_n :: "u8 list \<Rightarrow> nat" where "head_n bs = rd 4 0 bs"
definition head_block :: "u8 list \<Rightarrow> nat \<Rightarrow> nat" where "head_block bs i = rd 4 (4 + 4 * i) bs"

definition read_head :: "log \<Rightarrow> bdev \<Rightarrow> log" where
  "read_head lg s =
     (let buf = vw s (lg_start lg); n = head_n buf in
      lg\<lparr>lh_n := n, lh_block := map (head_block buf) [0..<n] @ drop n (lh_block lg)\<rparr>)"

definition fill_head :: "log \<Rightarrow> u8 list \<Rightarrow> u8 list" where
  "fill_head lg buf =
     fold (\<lambda>i b. wr (4 + 4 * i) (le_bytes 4 (lh_block lg ! i)) b) [0..<lh_n lg] (wr 0 (le_bytes 4 (lh_n lg)) buf)"

definition write_head :: "log \<Rightarrow> bdev \<Rightarrow> bdev" where
  "write_head lg s = put_block (lg_start lg) (fill_head lg (vw s (lg_start lg))) s"

definition recover_from_log :: "log \<times> bdev \<Rightarrow> log \<times> bdev" where
  "recover_from_log = (\<lambda>(lg, s).
     let lg1 = read_head lg s;
         s1 = install_trans lg1 True s;
         lg2 = lg1\<lparr>lh_n := 0\<rparr> in
     (lg2, write_head lg2 s1))"

text \<open>\<^verbatim>\<open>initlog\<close> with the log area that the super block names.\<close>

definition initlog :: "nat \<Rightarrow> nat \<Rightarrow> log \<times> bdev \<Rightarrow> (log \<times> bdev) res" where
  "initlog logstart nlog = (\<lambda>(lg, s).
     if BSIZE \<le> 4 + 4 * LOGSIZE then Panic ''initlog: too big logheader''
     else Ok (recover_from_log (lg\<lparr>lg_start := logstart, lg_size := nlog\<rparr>, s)))"

text \<open>
  A pass of \<^verbatim>\<open>begin_op\<close> by process \<open>p\<close>; \<^verbatim>\<open>end_op\<close> up to its call of \<^verbatim>\<open>commit\<close>, with whether it has to
  commit, and what follows the commit.
\<close>

definition begin_op :: "proc list \<Rightarrow> nat \<Rightarrow> log \<Rightarrow> (unit, unit) run \<times> proc list \<times> log" where
  "begin_op ps p lg =
     (if lg_committing lg then (Sleeps (), go_to_sleep p ChLog ps, lg)
      else if int (lh_n lg) + (lg_outstanding lg + 1) * int MAXOPBLOCKS > int LOGSIZE
      then (Sleeps (), go_to_sleep p ChLog ps, lg)
      else (Returns (), ps, lg\<lparr>lg_outstanding := lg_outstanding lg + 1\<rparr>))"

definition end_op_start :: "proc list \<Rightarrow> nat \<Rightarrow> log \<Rightarrow> (bool \<times> proc list \<times> log) res" where
  "end_op_start ps p lg =
     (let lg1 = lg\<lparr>lg_outstanding := lg_outstanding lg - 1\<rparr> in
      if lg_committing lg1 then Panic ''log.committing''
      else if lg_outstanding lg1 = 0 then Ok (True, ps, lg1\<lparr>lg_committing := True\<rparr>)
      else Ok (False, wakeup (Some p) (Some ChLog) ps, lg1))"

definition end_op_finish :: "proc list \<Rightarrow> nat \<Rightarrow> log \<Rightarrow> proc list \<times> log" where
  "end_op_finish ps p lg = (wakeup (Some p) (Some ChLog) ps, lg\<lparr>lg_committing := False\<rparr>)"

definition write_log_step :: "log \<Rightarrow> nat \<Rightarrow> bdev \<Rightarrow> bdev" where
  "write_log_step lg tail s = put_block (lg_start lg + tail + 1) (vw s (lh_block lg ! tail)) s"

definition write_log :: "log \<Rightarrow> bdev \<Rightarrow> bdev" where
  "write_log lg s = fold (write_log_step lg) [0..<lh_n lg] s"

definition commit :: "log \<times> bdev \<Rightarrow> log \<times> bdev" where
  "commit = (\<lambda>(lg, s).
     if lh_n lg > 0
     then (let s1 = write_log lg s;
               s2 = write_head lg s1;
               s3 = install_trans lg False s2;
               lg1 = lg\<lparr>lh_n := 0\<rparr> in
           (lg1, write_head lg1 s3))
     else (lg, s))"

definition log_find :: "log \<Rightarrow> nat \<Rightarrow> nat" where
  "log_find lg b = (case find (\<lambda>i. lh_block lg ! i = b) [0..<lh_n lg] of Some i \<Rightarrow> i | None \<Rightarrow> lh_n lg)"

text \<open>\<open>log_write lg b\<close>: the new log, and whether the buffer is pinned.\<close>

definition log_write :: "log \<Rightarrow> nat \<Rightarrow> (log \<times> bool) res" where
  "log_write lg b =
     (if lh_n lg \<ge> LOGSIZE \<or> int (lh_n lg) \<ge> int (lg_size lg) - 1 then Panic ''too big a transaction''
      else if lg_outstanding lg < 1 then Panic ''log_write outside of trans''
      else (let i = log_find lg b; lg1 = lg\<lparr>lh_block := (lh_block lg)[i := b]\<rparr> in
        if i = lh_n lg then Ok (lg1\<lparr>lh_n := lh_n lg + 1\<rparr>, True) else Ok (lg1, False)))"

section \<open>Disk writes\<close>

definition apply_writes :: "(nat \<times> u8 list) list \<Rightarrow> disk \<Rightarrow> disk" where
  "apply_writes ws d = fold (\<lambda>(b, x) d. d(b := x)) ws d"

lemma apply_writes_simps [simp]:
  "apply_writes [] d = d" "apply_writes ((b, x) # ws) d = apply_writes ws (d(b := x))"
  "apply_writes (ws @ vs) d = apply_writes vs (apply_writes ws d)"
  by (simp_all add: apply_writes_def)

text \<open>The writes a routine makes: \<open>emits s ws s'\<close> when it takes \<open>s\<close> to \<open>s'\<close>.\<close>

definition emits :: "bdev \<Rightarrow> (nat \<times> u8 list) list \<Rightarrow> bdev \<Rightarrow> bool" where
  "emits s ws s' \<longleftrightarrow> writes s' = writes s @ ws \<and> dk s' = apply_writes ws (dk s) \<and> vw s' = apply_writes ws (vw s)"

lemma emits_refl: "emits s [] s"
  by (simp add: emits_def)

lemma emits_trans: "emits s ws s' \<Longrightarrow> emits s' vs s'' \<Longrightarrow> emits s (ws @ vs) s''"
  by (simp add: emits_def)

lemma emits_put: "emits s [(b, x)] (put_block b x s)"
  by (simp add: emits_def put_block_def)

lemma emits_unpin: "emits s ws s' \<Longrightarrow> emits s ws (unpin_block b s')"
  by (simp add: emits_def unpin_block_def)

lemma apply_writes_other: "b \<notin> fst ` set ws \<Longrightarrow> apply_writes ws d b = d b"
  by (induction ws arbitrary: d) auto

text \<open>The log area and the blocks a transaction has logged.\<close>

definition log_area :: "log \<Rightarrow> nat set" where
  "log_area lg = {lg_start lg..<lg_start lg + lg_size lg}"

definition logged :: "log \<Rightarrow> nat list" where
  "logged lg = take (lh_n lg) (lh_block lg)"

definition log_ok :: "log \<Rightarrow> bool" where
  "log_ok lg \<longleftrightarrow> lh_n lg \<le> LOGSIZE \<and> lh_n lg < lg_size lg \<and> length (lh_block lg) \<ge> lh_n lg \<and> distinct (logged lg) \<and>
     (\<forall>b \<in> set (logged lg). b \<notin> log_area lg \<and> b < 2 ^ 32)"

lemma logged_nth: "log_ok lg \<Longrightarrow> i < lh_n lg \<Longrightarrow> lh_block lg ! i = logged lg ! i \<and> length (logged lg) = lh_n lg"
  by (auto simp: log_ok_def logged_def)

lemma in_area: "log_ok lg \<Longrightarrow> i < lh_n lg \<Longrightarrow> lg_start lg + i + 1 \<in> log_area lg"
  "log_ok lg \<Longrightarrow> lg_start lg \<in> log_area lg"
  by (auto simp: log_ok_def log_area_def)

lemma logged_not_area: "log_ok lg \<Longrightarrow> i < lh_n lg \<Longrightarrow> lh_block lg ! i \<notin> log_area lg"
  using logged_nth [of lg i] nth_mem [of i "logged lg"] by (auto simp: log_ok_def)

lemma emits_write_log:
  assumes "log_ok lg" "n \<le> lh_n lg"
  shows "emits s (map (\<lambda>i. (lg_start lg + i + 1, vw s (lh_block lg ! i))) [0..<n]) (fold (write_log_step lg) [0..<n] s)"
  using assms(2)
proof (induction n)
  case 0
  then show ?case by (simp add: emits_refl)
next
  case (Suc n)
  let ?ws = "map (\<lambda>i. (lg_start lg + i + 1, vw s (lh_block lg ! i))) [0..<n]" and ?s = "fold (write_log_step lg) [0..<n] s"
  have IH: "emits s ?ws ?s" using Suc by simp
  have "lh_block lg ! n \<notin> fst ` set ?ws"
    using logged_not_area [OF assms(1), of n] in_area(1) [OF assms(1)] Suc.prems by auto
  then have "vw ?s (lh_block lg ! n) = vw s (lh_block lg ! n)"
    using IH apply_writes_other [of _ ?ws] by (simp add: emits_def del: set_map)
  then have "emits ?s [(lg_start lg + n + 1, vw s (lh_block lg ! n))] (write_log_step lg n ?s)"
    using emits_put [of ?s] by (simp add: write_log_step_def)
  from emits_trans [OF IH this] show ?case by simp
qed

lemma emits_install_step:
  "vw s (lg_start lg + n + 1) = x \<Longrightarrow> emits s [(lh_block lg ! n, x)] (install_step lg r n s)"
  using emits_put [of s] emits_unpin [OF emits_put [of s]] by (cases r) (simp_all add: install_step_def Let_def)

lemma emits_install:
  assumes "log_ok lg" "n \<le> lh_n lg"
  shows "emits s (map (\<lambda>i. (lh_block lg ! i, vw s (lg_start lg + i + 1))) [0..<n]) (fold (install_step lg r) [0..<n] s)"
  using assms(2)
proof (induction n)
  case 0
  then show ?case by (simp add: emits_refl)
next
  case (Suc n)
  let ?ws = "map (\<lambda>i. (lh_block lg ! i, vw s (lg_start lg + i + 1))) [0..<n]" and ?s = "fold (install_step lg r) [0..<n] s"
  have IH: "emits s ?ws ?s" using Suc by simp
  have "lg_start lg + n + 1 \<notin> fst ` set ?ws"
    using logged_not_area [OF assms(1)] in_area(1) [OF assms(1), of n] Suc.prems by auto
  then have "vw ?s (lg_start lg + n + 1) = vw s (lg_start lg + n + 1)"
    using IH apply_writes_other [of _ ?ws] by (simp add: emits_def del: set_map)
  then have "emits ?s [(lh_block lg ! n, vw s (lg_start lg + n + 1))] (install_step lg r n ?s)"
    by (rule emits_install_step)
  from emits_trans [OF IH this] show ?case by simp
qed

section \<open>The header\<close>

lemma fill_head_fold:
  assumes "length buf = BSIZE" "n \<le> LOGSIZE"
  shows "let h = fold (\<lambda>i b. wr (4 + 4 * i) (le_bytes 4 (f i)) b) [0..<n] (wr 0 (le_bytes 4 v) buf) in
    length h = BSIZE \<and> head_n h = v mod 2 ^ 32 \<and> (\<forall>i < n. head_block h i = f i mod 2 ^ 32)"
  using assms(2)
proof (induction n)
  case 0
  then show ?case using assms(1) by (simp add: head_n_def rd_wr_same BSIZE_def Let_def)
next
  case (Suc n)
  let ?h = "fold (\<lambda>i b. wr (4 + 4 * i) (le_bytes 4 (f i)) b) [0..<n] (wr 0 (le_bytes 4 v) buf)"
  have IH: "length ?h = BSIZE" "head_n ?h = v mod 2 ^ 32" "\<forall>i < n. head_block ?h i = f i mod 2 ^ 32"
    using Suc by (simp_all add: Let_def)
  have n: "4 + 4 * n + 4 \<le> length ?h" using Suc.prems IH(1) by (simp add: LOGSIZE_def MAXOPBLOCKS_def BSIZE_def)
  let ?h' = "wr (4 + 4 * n) (le_bytes 4 (f n)) ?h"
  have "head_n ?h' = head_n ?h" unfolding head_n_def using n by (intro rd_wr_other) simp_all
  moreover have "head_block ?h' i = f i mod 2 ^ 32" if "i < Suc n" for i
  proof (cases "i = n")
    case True
    then show ?thesis unfolding head_block_def using rd_wr_same [OF n, of "f n"] by simp
  next
    case False
    then have "head_block ?h' i = head_block ?h i" unfolding head_block_def using n that by (intro rd_wr_other) simp_all
    with IH(3) False that show ?thesis by simp
  qed
  ultimately show ?case using IH n by (simp add: Let_def)
qed

lemma fill_head:
  assumes "length buf = BSIZE" "log_ok lg"
  shows "length (fill_head lg buf) = BSIZE" "head_n (fill_head lg buf) = lh_n lg"
    "i < lh_n lg \<Longrightarrow> head_block (fill_head lg buf) i = lh_block lg ! i"
proof -
  have n: "lh_n lg \<le> LOGSIZE" "lh_n lg < 2 ^ 32" using assms(2) by (auto simp: log_ok_def LOGSIZE_def MAXOPBLOCKS_def)
  have b: "lh_block lg ! i < 2 ^ 32" if "i < lh_n lg" for i
    using logged_nth [OF assms(2) that] that assms(2) nth_mem [of i "logged lg"] by (auto simp: log_ok_def)
  from fill_head_fold [OF assms(1) n(1), of "\<lambda>i. lh_block lg ! i" "lh_n lg"] n b
  show "length (fill_head lg buf) = BSIZE" "head_n (fill_head lg buf) = lh_n lg"
    "i < lh_n lg \<Longrightarrow> head_block (fill_head lg buf) i = lh_block lg ! i"
    unfolding fill_head_def Let_def by auto
qed

lemma fill_head_0:
  assumes "length buf = BSIZE" "lh_n lg = 0"
  shows "length (fill_head lg buf) = BSIZE" "head_n (fill_head lg buf) = 0"
  using fill_head_fold [OF assms(1), of 0 "\<lambda>_. 0" 0] assms by (simp_all add: fill_head_def Let_def)

section \<open>Crashes\<close>

text \<open>
  What the disk looks like during a commit of the transaction in \<open>lg\<close>, which turns the contents
  \<open>old\<close> into \<open>new\<close>. Before the header is written the log is empty and the home blocks are old;
  with the header written the log holds the new contents and the home blocks may be old or new;
  when the header has been cleared the home blocks are new.
\<close>

definition clean :: "log \<Rightarrow> disk \<Rightarrow> disk \<Rightarrow> bool" where
  "clean lg cur d \<longleftrightarrow> length (d (lg_start lg)) = BSIZE \<and> head_n (d (lg_start lg)) = 0 \<and> (\<forall>b. b \<notin> log_area lg \<longrightarrow> d b = cur b)"

definition committed :: "log \<Rightarrow> disk \<Rightarrow> disk \<Rightarrow> disk \<Rightarrow> bool" where
  "committed lg old new d \<longleftrightarrow> length (d (lg_start lg)) = BSIZE \<and> head_n (d (lg_start lg)) = lh_n lg \<and>
     (\<forall>i < lh_n lg. head_block (d (lg_start lg)) i = lh_block lg ! i \<and> d (lg_start lg + i + 1) = new (lh_block lg ! i)) \<and>
     (\<forall>b. b \<notin> log_area lg \<longrightarrow> d b = old b \<or> d b = new b) \<and>
     (\<forall>b. b \<notin> log_area lg \<longrightarrow> b \<notin> set (logged lg) \<longrightarrow> d b = new b)"

lemma committed_put:
  assumes "log_ok lg" "committed lg old new d" "c \<notin> log_area lg"
  shows "committed lg old new (d(c := new c))"
proof -
  have "lg_start lg \<noteq> c" "\<forall>i < lh_n lg. lg_start lg + i + 1 \<noteq> c" using in_area [OF assms(1)] assms(3) by auto
  with assms(2) show ?thesis unfolding committed_def by simp
qed

lemma committed_install:
  assumes "log_ok lg" "committed lg old new d" "n \<le> lh_n lg"
  shows "committed lg old new (apply_writes (map (\<lambda>i. (lh_block lg ! i, new (lh_block lg ! i))) [0..<n]) d)"
  using assms(3)
proof (induction n)
  case 0
  with assms(2) show ?case by simp
next
  case (Suc n)
  then have "lh_block lg ! n \<notin> log_area lg" using logged_not_area [OF assms(1)] by simp
  with Suc committed_put [OF assms(1), of old new _ "lh_block lg ! n"] show ?case by (simp add: fun_upd_def)
qed

lemma apply_writes_new: "b \<in> set cs \<Longrightarrow> apply_writes (map (\<lambda>c. (c, new c)) cs) d b = new b"
proof (induction cs rule: rev_induct)
  case (snoc c cs)
  then show ?case by (cases "b = c") auto
qed simp

lemma installed:
  assumes "log_ok lg" "committed lg old new d" "b \<notin> log_area lg"
  shows "apply_writes (map (\<lambda>i. (lh_block lg ! i, new (lh_block lg ! i))) [0..<lh_n lg]) d b = new b"
proof -
  let ?d = "apply_writes (map (\<lambda>i. (lh_block lg ! i, new (lh_block lg ! i))) [0..<lh_n lg]) d"
  have m: "map (\<lambda>i. (lh_block lg ! i, new (lh_block lg ! i))) [0..<lh_n lg] = map (\<lambda>c. (c, new c)) (logged lg)"
    using logged_nth [OF assms(1)] assms(1) by (intro nth_equalityI) (auto simp: log_ok_def logged_def)
  show ?thesis
  proof (cases "b \<in> set (logged lg)")
    case True
    then show ?thesis using apply_writes_new [of b "logged lg" new d] m by simp
  next
    case False
    then show ?thesis using committed_install [OF assms(1,2) order_refl] assms(3) by (auto simp: committed_def)
  qed
qed

text \<open>The writes of a recovery from a disk on which a transaction is committed.\<close>

definition boot :: "disk \<Rightarrow> bdev" where
  "boot d = \<lparr>dk = d, vw = d, pins = \<lambda>_. 0, writes = []\<rparr>"

lemma recover_committed:
  assumes "log_ok lg" "committed lg old new d" "lg_start lgi = lg_start lg" "lg_size lgi = lg_size lg"
    and "recover_from_log (lgi, boot d) = (lg', s')"
  shows "\<exists>h. writes s' = map (\<lambda>i. (lh_block lg ! i, new (lh_block lg ! i))) [0..<lh_n lg] @ [(lg_start lg, h)] \<and>
    length h = BSIZE \<and> head_n h = 0 \<and> dk s' = apply_writes (writes s') d \<and> lh_n lg' = 0"
proof -
  let ?lg1 = "read_head lgi (boot d)"
  have n: "lh_n ?lg1 = lh_n lg" "lg_start ?lg1 = lg_start lg" "lg_size ?lg1 = lg_size lg"
    using assms(2-4) by (simp_all add: read_head_def Let_def boot_def committed_def)
  have b: "lh_block ?lg1 ! i = lh_block lg ! i" if "i < lh_n lg" for i
    using assms(2,3) that by (simp add: read_head_def Let_def boot_def committed_def nth_append)
  have len: "lh_n lg \<le> length (lh_block ?lg1)"
    using assms(2,3) by (simp add: read_head_def Let_def boot_def committed_def)
  have "logged ?lg1 = logged lg"
    using b len n(1) assms(1) by (intro nth_equalityI) (auto simp: logged_def log_ok_def)
  then have ok: "log_ok ?lg1" using assms(1) n len by (simp add: log_ok_def log_area_def)
  let ?ws = "map (\<lambda>i. (lh_block lg ! i, new (lh_block lg ! i))) [0..<lh_n lg]"
  have ws: "map (\<lambda>i. (lh_block ?lg1 ! i, vw (boot d) (lg_start ?lg1 + i + 1))) [0..<lh_n ?lg1] = ?ws"
    using b n assms(2) by (auto simp: boot_def committed_def)
  let ?s1 = "install_trans ?lg1 True (boot d)"
  have e1: "emits (boot d) ?ws ?s1"
    using emits_install [OF ok order_refl, of "boot d" True] unfolding ws install_trans_def .
  have e2: "emits ?s1 [(lg_start lg, fill_head (?lg1\<lparr>lh_n := 0\<rparr>) (vw ?s1 (lg_start lg)))] s'" and lg': "lh_n lg' = 0"
    using assms(5) n(2) emits_put by (auto simp: recover_from_log_def Let_def write_head_def)
  have "vw ?s1 = apply_writes ?ws d" using e1 by (simp add: emits_def boot_def)
  then have "length (vw ?s1 (lg_start lg)) = BSIZE"
    using committed_install [OF assms(1,2) order_refl] by (simp add: committed_def)
  from fill_head_0 [OF this, of "?lg1\<lparr>lh_n := 0\<rparr>"] emits_trans [OF e1 e2] lg' show ?thesis
    by (intro exI [of _ "fill_head (?lg1\<lparr>lh_n := 0\<rparr>) (vw ?s1 (lg_start lg))"]) (simp add: emits_def boot_def)
qed

lemma recover_clean:
  assumes "clean lg cur d" "lg_start lgi = lg_start lg" "recover_from_log (lgi, boot d) = (lg', s')"
  shows "\<exists>h. writes s' = [(lg_start lg, h)] \<and> length h = BSIZE \<and> head_n h = 0 \<and> dk s' = d(lg_start lg := h) \<and> lh_n lg' = 0"
proof -
  let ?lg1 = "read_head lgi (boot d)"
  have n: "lh_n ?lg1 = 0" "lg_start ?lg1 = lg_start lg"
    using assms(1,2) by (simp_all add: read_head_def Let_def boot_def clean_def)
  then have "s' = put_block (lg_start lg) (fill_head (?lg1\<lparr>lh_n := 0\<rparr>) (d (lg_start lg))) (boot d)" "lh_n lg' = 0"
    using assms(3) by (auto simp: recover_from_log_def Let_def write_head_def install_trans_def) (simp add: boot_def)
  moreover have "length (d (lg_start lg)) = BSIZE" using assms(1) by (simp add: clean_def)
  ultimately show ?thesis
    using fill_head_0 [of "d (lg_start lg)" "?lg1\<lparr>lh_n := 0\<rparr>"] by (simp add: put_block_def boot_def)
qed

text \<open>
  A transaction that is about to be committed: the log on the disk is empty, and the blocks of
  which the cache has newer contents are the logged ones.
\<close>

definition ready :: "log \<Rightarrow> bdev \<Rightarrow> bool" where
  "ready lg s \<longleftrightarrow> log_ok lg \<and> clean lg (dk s) (dk s) \<and> vw s (lg_start lg) = dk s (lg_start lg) \<and>
     (\<forall>b. b \<notin> log_area lg \<longrightarrow> b \<notin> set (logged lg) \<longrightarrow> vw s b = dk s b)"

lemma clean_area:
  assumes "clean lg cur d" "fst ` set ws \<subseteq> log_area lg - {lg_start lg}"
  shows "clean lg cur (apply_writes ws d)"
  using assms(1) apply_writes_other [of _ ws d] assms(2) unfolding clean_def by (metis Diff_iff singletonI subsetD)

text \<open>The writes of a commit: the log blocks, the header, the home blocks, the empty header.\<close>

lemma commit_writes:
  assumes "ready lg s" "0 < lh_n lg" "commit (lg, s) = (lg', s')"
  obtains h h' where
    "writes s' = writes s @ map (\<lambda>i. (lg_start lg + i + 1, vw s (lh_block lg ! i))) [0..<lh_n lg] @ [(lg_start lg, h)] @
       map (\<lambda>i. (lh_block lg ! i, vw s (lh_block lg ! i))) [0..<lh_n lg] @ [(lg_start lg, h')]"
    "length h = BSIZE" "head_n h = lh_n lg" "\<forall>i < lh_n lg. head_block h i = lh_block lg ! i" "length h' = BSIZE" "head_n h' = 0"
    "emits s (drop (length (writes s)) (writes s')) s'" "lh_n lg' = 0"
proof -
  have ok: "log_ok lg" using assms(1) by (simp add: ready_def)
  let ?W = "map (\<lambda>i. (lg_start lg + i + 1, vw s (lh_block lg ! i))) [0..<lh_n lg]"
  let ?I = "map (\<lambda>i. (lh_block lg ! i, vw s (lh_block lg ! i))) [0..<lh_n lg]"
  let ?s1 = "write_log lg s" let ?s2 = "write_head lg ?s1" let ?s3 = "install_trans lg False ?s2"
  let ?h = "fill_head lg (vw ?s1 (lg_start lg))" let ?h' = "fill_head (lg\<lparr>lh_n := 0\<rparr>) (vw ?s3 (lg_start lg))"
  have s': "s' = write_head (lg\<lparr>lh_n := 0\<rparr>) ?s3" "lh_n lg' = 0" using assms(2,3) by (auto simp: commit_def Let_def)
  have e1: "emits s ?W ?s1" unfolding write_log_def by (rule emits_write_log [OF ok order_refl])
  have e2: "emits ?s1 [(lg_start lg, ?h)] ?s2" unfolding write_head_def by (rule emits_put)
  have "lg_start lg \<notin> fst ` set ?W" by auto
  then have "vw ?s1 (lg_start lg) = vw s (lg_start lg)"
    using e1 apply_writes_other [of "lg_start lg" ?W] by (simp add: emits_def del: set_map)
  then have l1: "length (vw ?s1 (lg_start lg)) = BSIZE" using assms(1) by (simp add: ready_def clean_def)
  note H = fill_head [OF l1 ok]
  have v2: "vw ?s2 = apply_writes (?W @ [(lg_start lg, ?h)]) (vw s)" using emits_trans [OF e1 e2] by (simp add: emits_def)
  have "vw ?s2 (lg_start lg + i + 1) = vw s (lh_block lg ! i)" if "i < lh_n lg" for i
  proof -
    have "apply_writes ?W (vw s) (lg_start lg + i + 1) = vw s (lh_block lg ! i)"
      using apply_writes_new [of "lg_start lg + i + 1" "map (\<lambda>i. lg_start lg + i + 1) [0..<lh_n lg]"
          "\<lambda>c. vw s (lh_block lg ! (c - lg_start lg - 1))" "vw s"] that by (simp add: comp_def)
    then show ?thesis unfolding v2 by simp
  qed
  then have I: "map (\<lambda>i. (lh_block lg ! i, vw ?s2 (lg_start lg + i + 1))) [0..<lh_n lg] = ?I" by simp
  have e3: "emits ?s2 ?I ?s3"
    using emits_install [OF ok order_refl, of ?s2 False] unfolding I install_trans_def .
  have e4: "emits ?s3 [(lg_start lg, ?h')] s'" unfolding s' write_head_def using emits_put by simp
  have "lg_start lg \<notin> fst ` set ?I" using logged_not_area [OF ok] in_area(2) [OF ok] by auto
  then have "vw ?s3 (lg_start lg) = ?h"
    using e3 apply_writes_other [of "lg_start lg" ?I] v2 by (simp add: emits_def del: set_map)
  then have l3: "length (vw ?s3 (lg_start lg)) = BSIZE" using H(1) by simp
  note H' = fill_head_0 [OF l3, of "lg\<lparr>lh_n := 0\<rparr>"]
  have e: "emits s (?W @ [(lg_start lg, ?h)] @ ?I @ [(lg_start lg, ?h')]) s'"
    using emits_trans [OF emits_trans [OF emits_trans [OF e1 e2] e3] e4] by simp
  then have w: "writes s' = writes s @ ?W @ [(lg_start lg, ?h)] @ ?I @ [(lg_start lg, ?h')]" by (simp add: emits_def)
  show thesis
    by (rule that [of ?h ?h']) (use w e H H' s'(2) in simp_all)
qed

text \<open>The three stages that the disk goes through.\<close>

lemma stage_log:
  assumes "ready lg s" "n \<le> lh_n lg"
  shows "clean lg (dk s) (apply_writes (map (\<lambda>i. (lg_start lg + i + 1, vw s (lh_block lg ! i))) [0..<n]) (dk s))"
  using assms in_area(1) [of lg] by (intro clean_area) (auto simp: ready_def)

lemma stage_head:
  assumes "ready lg s" "length h = BSIZE" "head_n h = lh_n lg" "\<forall>i < lh_n lg. head_block h i = lh_block lg ! i"
  shows "committed lg (dk s) (vw s)
    (apply_writes (map (\<lambda>i. (lg_start lg + i + 1, vw s (lh_block lg ! i))) [0..<lh_n lg] @ [(lg_start lg, h)]) (dk s))"
proof -
  let ?d = "apply_writes (map (\<lambda>i. (lg_start lg + i + 1, vw s (lh_block lg ! i))) [0..<lh_n lg]) (dk s)"
  have "?d (lg_start lg + i + 1) = vw s (lh_block lg ! i)" if "i < lh_n lg" for i
    using apply_writes_new [of "lg_start lg + i + 1" "map (\<lambda>i. lg_start lg + i + 1) [0..<lh_n lg]"
        "\<lambda>c. vw s (lh_block lg ! (c - lg_start lg - 1))" "dk s"] that by (simp add: comp_def)
  moreover have "?d b = dk s b" if "b \<notin> log_area lg" for b
    using stage_log [OF assms(1) order_refl] that by (simp add: clean_def)
  moreover have "lg_start lg \<in> log_area lg" using assms(1) in_area(2) by (auto simp: ready_def)
  ultimately show ?thesis
    using assms unfolding committed_def ready_def by auto
qed

lemma stage_clear:
  assumes "log_ok lg" "committed lg old new d" "length h = BSIZE" "head_n h = 0"
  shows "clean lg new (apply_writes (map (\<lambda>i. (lh_block lg ! i, new (lh_block lg ! i))) [0..<lh_n lg] @ [(lg_start lg, h)]) d)"
  using installed [OF assms(1,2)] assms(3,4) in_area(2) [OF assms(1)] by (auto simp: clean_def)

definition stage :: "log \<Rightarrow> bdev \<Rightarrow> disk \<Rightarrow> bool" where
  "stage lg s d \<longleftrightarrow> clean lg (dk s) d \<or> committed lg (dk s) (vw s) d \<or> clean lg (vw s) d"

lemma take_append_cases:
  assumes "k \<le> length (xs @ [y] @ zs @ [w])"
  obtains "k \<le> length xs" "take k (xs @ [y] @ zs @ [w]) = take k xs"
  | j where "j \<le> length zs" "take k (xs @ [y] @ zs @ [w]) = xs @ [y] @ take j zs"
  | "take k (xs @ [y] @ zs @ [w]) = xs @ [y] @ zs @ [w]"
proof -
  consider "k \<le> length xs" | j where "k = Suc (length xs) + j" "j \<le> length zs" | "k = length xs + length zs + 2"
    using assms by (auto simp: le_Suc_eq) (metis add_Suc le_add_diff_inverse nat_add_left_cancel_le not_less_eq_eq)
  then show thesis
    by cases (use that in auto)
qed

lemma take_map_upt: "k \<le> n \<Longrightarrow> take k (map f [0..<n]) = map f [0..<k]"
  by (simp add: take_map)

lemma commit_stages:
  assumes "ready lg s" "commit (lg, s) = (lg', s')"
  shows "stage lg s (apply_writes (take k (drop (length (writes s)) (writes s'))) (dk s))"
proof (cases "0 < lh_n lg")
  case False
  then show ?thesis using assms by (auto simp: commit_def stage_def ready_def)
next
  case True
  have ok: "log_ok lg" using assms(1) by (simp add: ready_def)
  let ?W = "map (\<lambda>i. (lg_start lg + i + 1, vw s (lh_block lg ! i))) [0..<lh_n lg]"
  let ?I = "map (\<lambda>i. (lh_block lg ! i, vw s (lh_block lg ! i))) [0..<lh_n lg]"
  obtain h h' where w: "writes s' = writes s @ ?W @ [(lg_start lg, h)] @ ?I @ [(lg_start lg, h')]"
    and h: "length h = BSIZE" "head_n h = lh_n lg" "\<forall>i < lh_n lg. head_block h i = lh_block lg ! i"
    and h': "length h' = BSIZE" "head_n h' = 0"
    by (rule commit_writes [OF assms(1) True assms(2)]) (rule that)
  let ?all = "?W @ [(lg_start lg, h)] @ ?I @ [(lg_start lg, h')]"
  have d: "drop (length (writes s)) (writes s') = ?all" using w by simp
  note C = stage_head [OF assms(1) h]
  have "stage lg s (apply_writes (take k ?all) (dk s))" if "k \<le> length ?all" for k
    using that
  proof (cases rule: take_append_cases)
    case 1
    then show ?thesis using stage_log [OF assms(1), of k] by (simp add: stage_def take_map_upt)
  next
    case (2 j)
    then show ?thesis
      using committed_install [OF ok C, of j] by (simp add: stage_def take_map_upt)
  next
    case 3
    then show ?thesis using stage_clear [OF ok C h'] by (simp add: stage_def)
  qed
  then have "stage lg s (apply_writes (take (min k (length ?all)) ?all) (dk s))" by simp
  then show ?thesis unfolding d by (metis (no_types, lifting) linear min.absorb1 min.absorb2 take_all_iff)
qed

text \<open>
  The disks that a machine may be left with: it stops after any number of the writes of the
  commit, and then after any number of the writes of the recoveries that follow.
\<close>

inductive crashed :: "log \<Rightarrow> bdev \<Rightarrow> disk \<Rightarrow> bool" for lg s where
  in_commit: "commit (lg, s) = (lg', s') \<Longrightarrow>
    crashed lg s (apply_writes (take k (drop (length (writes s)) (writes s'))) (dk s))"
| in_recovery: "crashed lg s d \<Longrightarrow> initlog (lg_start lg) (lg_size lg) (lgi, boot d) = Ok (lg', s') \<Longrightarrow>
    crashed lg s (apply_writes (take k (writes s')) d)"

lemma initlog_ok:
  "initlog b n (lg, s) = Ok (recover_from_log (lg\<lparr>lg_start := b, lg_size := n\<rparr>, s))"
  by (simp add: initlog_def BSIZE_def LOGSIZE_def MAXOPBLOCKS_def)

lemma recovery_stages:
  assumes "ready lg s" "stage lg s d" "initlog (lg_start lg) (lg_size lg) (lgi, boot d) = Ok (lg', s')"
  shows "stage lg s (apply_writes (take k (writes s')) d)"
    "(clean lg (dk s) (dk s') \<or> clean lg (vw s) (dk s')) \<and> lh_n lg' = 0"
proof -
  have ok: "log_ok lg" using assms(1) by (simp add: ready_def)
  have r: "recover_from_log (lgi\<lparr>lg_start := lg_start lg, lg_size := lg_size lg\<rparr>, boot d) = (lg', s')"
    using assms(3) by (simp add: initlog_ok)
  have 1: "clean lg cur (apply_writes (take k (writes s')) d) \<and> clean lg cur (dk s') \<and> lh_n lg' = 0"
    if c: "clean lg cur d" for cur
    using recover_clean [OF c _ r] c in_area(2) [OF ok] by (cases k) (auto simp: clean_def)
  have 2: "(committed lg (dk s) (vw s) (apply_writes (take k (writes s')) d) \<or> clean lg (vw s) (apply_writes (take k (writes s')) d)) \<and>
      clean lg (vw s) (dk s') \<and> lh_n lg' = 0"
    if c: "committed lg (dk s) (vw s) d"
  proof -
    let ?I = "map (\<lambda>i. (lh_block lg ! i, vw s (lh_block lg ! i))) [0..<lh_n lg]"
    obtain h where w: "writes s' = ?I @ [(lg_start lg, h)]" "length h = BSIZE" "head_n h = 0"
      "dk s' = apply_writes (writes s') d" "lh_n lg' = 0"
      using recover_committed [OF ok c _ _ r] by auto
    have f: "clean lg (vw s) (dk s')" using stage_clear [OF ok c w(2,3)] w(1,4) by simp
    show ?thesis
    proof (cases "k \<le> lh_n lg")
      case True
      then show ?thesis using committed_install [OF ok c True] w f by (simp add: take_map_upt)
    next
      case False
      then have "take k (writes s') = writes s'" using w(1) by simp
      then show ?thesis using f w(4,5) by simp
    qed
  qed
  show "stage lg s (apply_writes (take k (writes s')) d)" using 1 2 assms(2) by (auto simp: stage_def)
  show "(clean lg (dk s) (dk s') \<or> clean lg (vw s) (dk s')) \<and> lh_n lg' = 0" using 1 2 assms(2) by (auto simp: stage_def)
qed

lemma crashed_stage:
  assumes "crashed lg s d" "ready lg s"
  shows "stage lg s d"
  using assms by (induction rule: crashed.induct) (auto intro: commit_stages recovery_stages(1))

lemma commit_done:
  assumes "ready lg s" "0 < lh_n lg" "commit (lg, s) = (lg', s')"
  shows "clean lg (vw s) (dk s')" "lh_n lg' = 0"
proof -
  have ok: "log_ok lg" using assms(1) by (simp add: ready_def)
  obtain h h' where
    w: "writes s' = writes s @ map (\<lambda>i. (lg_start lg + i + 1, vw s (lh_block lg ! i))) [0..<lh_n lg] @ [(lg_start lg, h)] @
       map (\<lambda>i. (lh_block lg ! i, vw s (lh_block lg ! i))) [0..<lh_n lg] @ [(lg_start lg, h')]"
    and h: "length h = BSIZE" "head_n h = lh_n lg" "\<forall>i < lh_n lg. head_block h i = lh_block lg ! i"
    and h': "length h' = BSIZE" "head_n h' = 0"
    and e: "emits s (drop (length (writes s)) (writes s')) s'" and n: "lh_n lg' = 0"
    by (rule commit_writes [OF assms]) (rule that)
  from e w stage_clear [OF ok stage_head [OF assms(1) h] h'] show "clean lg (vw s) (dk s')"
    by (simp add: emits_def)
  from n show "lh_n lg' = 0" .
qed

text \<open>
  A transaction of one block, on a disk of zeros.
\<close>

definition demo_log :: log where
  "demo_log = \<lparr>lg_start = 2, lg_size = 31, lg_outstanding = 0, lg_committing = True, lh_n = 1, lh_block = 45 # replicate 29 0\<rparr>"

definition demo_bdev :: bdev where
  "demo_bdev = \<lparr>dk = \<lambda>_. replicate BSIZE 0, vw = (\<lambda>_. replicate BSIZE 0)(45 := replicate BSIZE 7), pins = (\<lambda>_. 0)(45 := 1), writes = []\<rparr>"

definition demo_crash :: disk where
  "demo_crash = apply_writes (take 2 (writes (snd (commit (demo_log, demo_bdev))))) (dk demo_bdev)"

lemma demo_ready: "ready demo_log demo_bdev"
proof -
  have "head_n (replicate BSIZE 0) = 0" by (simp add: head_n_def rd_def slice_def BSIZE_def numeral_eq_Suc)
  then show ?thesis
    by (auto simp: ready_def log_ok_def clean_def demo_log_def demo_bdev_def log_area_def logged_def LOGSIZE_def MAXOPBLOCKS_def)
qed

lemma demo_crashed: "crashed demo_log demo_bdev demo_crash"
proof -
  have "commit (demo_log, demo_bdev) = (fst (commit (demo_log, demo_bdev)), snd (commit (demo_log, demo_bdev)))" by simp
  from crashed.in_commit [OF this, of 2] show ?thesis by (simp add: demo_crash_def demo_bdev_def)
qed

text \<open>C26: Transactions are atomic. If the machine stops anywhere in a commit, and anywhere in any
  number of recoveries after it, then the next \<^verbatim>\<open>initlog\<close> leaves the disk with an empty log and
  outside the log area either every block as it was before the transaction or every block as
  the transaction left it.\<close>

theorem commit_is_atomic:
  assumes "ready lg s" "crashed lg s d"
  shows "\<exists>lg' s'. initlog (lg_start lg) (lg_size lg) (lgi, boot d) = Ok (lg', s') \<and>
    lh_n lg' = 0 \<and> head_n (dk s' (lg_start lg)) = 0 \<and>
    ((\<forall>b. b \<notin> log_area lg \<longrightarrow> dk s' b = dk s b) \<or> (\<forall>b. b \<notin> log_area lg \<longrightarrow> dk s' b = vw s b))"
proof -
  obtain lg' s' where r: "initlog (lg_start lg) (lg_size lg) (lgi, boot d) = Ok (lg', s')"
    by (simp add: initlog_ok) (metis surj_pair)
  from recovery_stages(2) [OF assms(1) crashed_stage [OF assms(2,1)] r] r show ?thesis
    by (auto simp: clean_def)
qed

theorem commit_is_atomic_witness:
  "\<exists>lg' s'. initlog 2 31 (demo_log, boot demo_crash) = Ok (lg', s') \<and> lh_n lg' = 0 \<and> head_n (dk s' 2) = 0 \<and>
    (dk s' 45 = replicate BSIZE 0 \<or> dk s' 45 = replicate BSIZE 7)"
  using commit_is_atomic [OF demo_ready demo_crashed, of demo_log]
  by (force simp: demo_log_def demo_bdev_def log_area_def)

section \<open>Log space\<close>

text \<open>
  The transactions in progress: the processes between \<^verbatim>\<open>begin_op\<close> and \<^verbatim>\<open>end_op\<close>, with the number
  of blocks each may still add to the log, and the process that is committing.
\<close>

record lstate =
  ls_sys :: sys
  ls_log :: log
  ls_active :: "nat set"
  ls_left :: "nat \<Rightarrow> nat"
  ls_committer :: "nat option"

inductive log_step :: "lstate \<Rightarrow> lstate \<Rightarrow> bool" where
  ls_begin: "p < length (procs (ls_sys t)) \<Longrightarrow> p_state (prc (ls_sys t) p) = RUNNING \<Longrightarrow> p \<notin> ls_active t \<Longrightarrow>
    begin_op (procs (ls_sys t)) p (ls_log t) = (Returns (), ps, lg') \<Longrightarrow>
    log_step t (t\<lparr>ls_sys := (ls_sys t)\<lparr>procs := ps\<rparr>, ls_log := lg', ls_active := insert p (ls_active t),
      ls_left := (ls_left t)(p := MAXOPBLOCKS)\<rparr>)"
| ls_wait: "p < length (procs (ls_sys t)) \<Longrightarrow> p_state (prc (ls_sys t) p) = RUNNING \<Longrightarrow> p \<notin> ls_active t \<Longrightarrow>
    begin_op (procs (ls_sys t)) p (ls_log t) = (Sleeps (), ps, lg') \<Longrightarrow>
    log_step t (t\<lparr>ls_sys := (ls_sys t)\<lparr>procs := ps\<rparr>, ls_log := lg'\<rparr>)"
| ls_write: "p \<in> ls_active t \<Longrightarrow> 0 < ls_left t p \<Longrightarrow> log_write (ls_log t) b = Ok (lg', pinned) \<Longrightarrow>
    log_step t (t\<lparr>ls_log := lg', ls_left := (ls_left t)(p := if pinned then ls_left t p - 1 else ls_left t p)\<rparr>)"
| ls_end: "p \<in> ls_active t \<Longrightarrow> p_state (prc (ls_sys t) p) = RUNNING \<Longrightarrow>
    end_op_start (procs (ls_sys t)) p (ls_log t) = Ok (do_commit, ps, lg') \<Longrightarrow>
    log_step t (t\<lparr>ls_sys := (ls_sys t)\<lparr>procs := ps\<rparr>, ls_log := lg', ls_active := ls_active t - {p},
      ls_committer := if do_commit then Some p else ls_committer t\<rparr>)"
| ls_commit: "ls_committer t = Some p \<Longrightarrow> p_state (prc (ls_sys t) p) = RUNNING \<Longrightarrow>
    commit (ls_log t, d) = (lg', d') \<Longrightarrow> end_op_finish (procs (ls_sys t)) p lg' = (ps, lg'') \<Longrightarrow>
    log_step t (t\<lparr>ls_sys := (ls_sys t)\<lparr>procs := ps\<rparr>, ls_log := lg'', ls_committer := None\<rparr>)"
| ls_other: "(\<And>j. sleeps_on s' ChLog j \<Longrightarrow> sleeps_on (ls_sys t) ChLog j) \<Longrightarrow> log_step t (t\<lparr>ls_sys := s'\<rparr>)"

definition space_inv :: "lstate \<Rightarrow> bool" where
  "space_inv t \<longleftrightarrow> finite (ls_active t) \<and> lg_outstanding (ls_log t) = int (card (ls_active t)) \<and>
     (\<forall>p \<in> ls_active t. ls_left t p \<le> MAXOPBLOCKS) \<and>
     lh_n (ls_log t) + (\<Sum>p \<in> ls_active t. ls_left t p) \<le> LOGSIZE \<and> LOGSIZE < lg_size (ls_log t)"

definition commit_inv :: "lstate \<Rightarrow> bool" where
  "commit_inv t \<longleftrightarrow> (lg_committing (ls_log t) \<longleftrightarrow> ls_committer t \<noteq> None) \<and>
     (lg_committing (ls_log t) \<longrightarrow> ls_active t = {}) \<and>
     (\<not> lg_committing (ls_log t) \<longrightarrow> ls_active t = {} \<longrightarrow> lh_n (ls_log t) = 0) \<and>
     (\<forall>j. sleeps_on (ls_sys t) ChLog j \<longrightarrow> lg_committing (ls_log t) \<or>
        int (lh_n (ls_log t)) + (lg_outstanding (ls_log t) + 1) * int MAXOPBLOCKS > int LOGSIZE)"

lemma commit_fields:
  assumes "commit (lg, d) = (lg', d')"
  shows "lg_outstanding lg' = lg_outstanding lg" "lg_size lg' = lg_size lg" "lg_committing lg' = lg_committing lg" "lh_n lg' = 0"
  using assms by (auto simp: commit_def Let_def split: if_splits)

lemma log_write_fields:
  assumes "log_write lg b = Ok (lg', pinned)"
  shows "lg_outstanding lg' = lg_outstanding lg" "lg_size lg' = lg_size lg" "lg_committing lg' = lg_committing lg"
    "lh_n lg' = lh_n lg + (if pinned then 1 else 0)"
  using assms by (auto simp: log_write_def Let_def split: if_splits)

lemma sum_left_upd: "finite A \<Longrightarrow> p \<in> A \<Longrightarrow> (\<Sum>j\<in>A. ((f::nat \<Rightarrow> nat)(p := v)) j) + f p = (\<Sum>j\<in>A. f j) + v"
  by (simp add: sum.remove [of A p])

lemma sum_left_bound: "finite A \<Longrightarrow> (\<And>p. p \<in> A \<Longrightarrow> f p \<le> k) \<Longrightarrow> (\<Sum>p\<in>A. f p) \<le> card A * (k::nat)"
  using sum_bounded_above [of A f k] by simp

lemma space_step:
  assumes "log_step t t'" "space_inv t"
  shows "space_inv t'"
  using assms
proof (induction rule: log_step.induct)
  case (ls_begin p t ps lg')
  from ls_begin.hyps(4) have b: "lg' = (ls_log t)\<lparr>lg_outstanding := lg_outstanding (ls_log t) + 1\<rparr>"
    "int (lh_n (ls_log t)) + (lg_outstanding (ls_log t) + 1) * int MAXOPBLOCKS \<le> int LOGSIZE"
    by (auto simp: begin_op_def split: if_splits)
  let ?A = "ls_active t"
  have "(\<Sum>j\<in>?A. ls_left t j) \<le> card ?A * MAXOPBLOCKS"
    by (rule sum_left_bound) (use ls_begin.prems in \<open>auto simp: space_inv_def\<close>)
  moreover have "lg_outstanding (ls_log t) = int (card ?A)" using ls_begin.prems by (simp add: space_inv_def)
  moreover have "(\<Sum>j\<in>?A. ((ls_left t)(p := MAXOPBLOCKS)) j) = (\<Sum>j\<in>?A. ls_left t j)"
    using ls_begin.hyps(3) by (intro sum.cong) auto
  ultimately show ?case using ls_begin.prems ls_begin.hyps(3) b
    by (auto simp: space_inv_def MAXOPBLOCKS_def LOGSIZE_def)
next
  case (ls_wait p t ps lg')
  then show ?case by (auto simp: space_inv_def begin_op_def split: if_splits)
next
  case (ls_write p t b lg' pinned)
  let ?v = "if pinned then ls_left t p - 1 else ls_left t p"
  have "(\<Sum>j\<in>ls_active t. ((ls_left t)(p := ?v)) j) + ls_left t p = (\<Sum>j\<in>ls_active t. ls_left t j) + ?v"
    by (rule sum_left_upd) (use ls_write in \<open>auto simp: space_inv_def\<close>)
  then show ?case using ls_write.prems ls_write.hyps(2) log_write_fields [OF ls_write.hyps(3)]
    unfolding space_inv_def by (cases pinned) (auto simp: le_diff_conv)
next
  case (ls_end p t do_commit ps lg')
  have "(\<Sum>j\<in>ls_active t - {p}. ls_left t j) \<le> (\<Sum>j\<in>ls_active t. ls_left t j)"
    by (rule sum_mono2) (use ls_end in \<open>auto simp: space_inv_def\<close>)
  moreover have "0 < card (ls_active t)" using ls_end by (auto simp: space_inv_def card_gt_0_iff)
  ultimately show ?case using ls_end
    by (auto simp: space_inv_def end_op_start_def Let_def split: if_splits)
next
  case (ls_commit t p d lg' d' ps lg'')
  then show ?case using commit_fields [OF ls_commit.hyps(3)] by (auto simp: space_inv_def end_op_finish_def)
next
  case (ls_other s' t)
  then show ?case by (simp add: space_inv_def)
qed

lemma commit_step:
  assumes "log_step t t'" "space_inv t" "commit_inv t"
  shows "commit_inv t'"
  using assms
proof (induction rule: log_step.induct)
  case (ls_begin p t ps lg')
  then show ?case by (force simp: commit_inv_def begin_op_def split: if_splits)
next
  case (ls_wait p t ps lg')
  then show ?case
    by (auto simp: commit_inv_def begin_op_def sleeps_on_sleep split: if_splits)
next
  case (ls_write p t b lg' pinned)
  then show ?case using log_write_fields [OF ls_write.hyps(3)] by (force simp: commit_inv_def)
next
  case (ls_end p t do_commit ps lg')
  let ?lg = "(ls_log t)\<lparr>lg_outstanding := lg_outstanding (ls_log t) - 1\<rparr>" and ?A = "ls_active t - {p}"
  have A: "lg_outstanding (ls_log t) - 1 = int (card ?A)" "finite ?A"
    using ls_end.prems ls_end.hyps(1) card_Suc_Diff1 [of "ls_active t" p] by (auto simp: space_inv_def)
  consider "card ?A = 0" "do_commit" "ps = procs (ls_sys t)" "lg' = ?lg\<lparr>lg_committing := True\<rparr>" "\<not> lg_committing (ls_log t)"
    | "card ?A \<noteq> 0" "\<not> do_commit" "ps = wakeup (Some p) (Some ChLog) (procs (ls_sys t))" "lg' = ?lg" "\<not> lg_committing (ls_log t)"
    using ls_end.hyps(3) A(1) by (auto simp: end_op_start_def Let_def split: if_splits)
  then show ?case
  proof cases
    case 1
    then show ?thesis using A(2) by (simp add: commit_inv_def)
  next
    case 2
    moreover from this have "?A \<noteq> {}" by fastforce
    moreover have "ls_committer t = None" using ls_end.prems 2 by (simp add: commit_inv_def)
    ultimately show ?thesis using ls_end.hyps(2) by (simp add: commit_inv_def sleeps_on_wakeup)
  qed
next
  case (ls_commit t p d lg' d' ps lg'')
  then show ?case using commit_fields [OF ls_commit.hyps(3)] by (auto simp: commit_inv_def end_op_finish_def sleeps_on_wakeup)
next
  case (ls_other s' t)
  then show ?case by (auto simp: commit_inv_def)
qed

text \<open>Two operations in a state where nothing is logged.\<close>

definition demo_lstate :: lstate where
  "demo_lstate = \<lparr>ls_sys = family, ls_log = demo_log\<lparr>lg_committing := False, lh_n := 0\<rparr>, ls_active = {}, ls_left = \<lambda>_. 0, ls_committer = None\<rparr>"

definition demo_begun :: lstate where
  "demo_begun = demo_lstate\<lparr>ls_log := (ls_log demo_lstate)\<lparr>lg_outstanding := 1\<rparr>, ls_active := {0}, ls_left := (\<lambda>_. 0)(0 := MAXOPBLOCKS)\<rparr>"

lemma demo_log_step: "log_step demo_lstate demo_begun"
proof -
  have "begin_op (procs (ls_sys demo_lstate)) 0 (ls_log demo_lstate) =
      (Returns (), procs family, (ls_log demo_lstate)\<lparr>lg_outstanding := 1\<rparr>)"
    by (simp add: begin_op_def demo_lstate_def demo_log_def MAXOPBLOCKS_def LOGSIZE_def)
  from log_step.ls_begin [OF _ _ _ this] show ?thesis
    by (simp add: demo_lstate_def demo_begun_def demo_simps)
qed

text \<open>C27: The reservation made by \<^verbatim>\<open>begin_op\<close> is enough and no wakeup of the log is lost. If the log
  area has room for \<^verbatim>\<open>LOGSIZE\<close> blocks and a header, then, however the operations interleave, an
  operation that has not used up its \<^verbatim>\<open>MAXOPBLOCKS\<close> blocks can call \<^verbatim>\<open>log_write\<close>, and any operation
  \<^verbatim>\<open>end_op\<close>, without panic; and while a process sleeps in \<^verbatim>\<open>begin_op\<close>, a commit or another operation
  is in progress, whose end wakes it up.\<close>

theorem log_space_suffices:
  assumes "log_step\<^sup>*\<^sup>* t t'" "ls_active t = {}" "ls_committer t = None" "lg_outstanding (ls_log t) = 0"
    and "\<not> lg_committing (ls_log t)" "lh_n (ls_log t) = 0" "LOGSIZE < lg_size (ls_log t)"
    and "\<And>j. \<not> sleeps_on (ls_sys t) ChLog j"
  shows "(p \<in> ls_active t' \<and> 0 < ls_left t' p \<longrightarrow> (\<exists>r. log_write (ls_log t') b = Ok r)) \<and>
    (p \<in> ls_active t' \<longrightarrow> (\<exists>r. end_op_start (procs (ls_sys t')) p (ls_log t') = Ok r)) \<and>
    (sleeps_on (ls_sys t') ChLog j \<longrightarrow> ls_committer t' \<noteq> None \<or> ls_active t' \<noteq> {})"
proof -
  have "space_inv t" "commit_inv t" using assms(2-8) by (simp_all add: space_inv_def commit_inv_def)
  with assms(1) have inv: "space_inv t' \<and> commit_inv t'"
    by (induction rule: rtranclp_induct) (blast intro: space_step commit_step)+
  have 1: "\<exists>r. log_write (ls_log t') b = Ok r" if "p \<in> ls_active t'" "0 < ls_left t' p"
  proof -
    have "ls_left t' p \<le> (\<Sum>q\<in>ls_active t'. ls_left t' q)"
      by (rule member_le_sum) (use inv that in \<open>auto simp: space_inv_def\<close>)
    then have "lh_n (ls_log t') < LOGSIZE" "lh_n (ls_log t') < lg_size (ls_log t') - 1"
      using inv that(2) by (auto simp: space_inv_def)
    moreover have "1 \<le> lg_outstanding (ls_log t')"
      using inv that(1) by (auto simp: space_inv_def Suc_le_eq card_gt_0_iff)
    ultimately show ?thesis by (auto simp: log_write_def Let_def)
  qed
  have 2: "\<exists>r. end_op_start (procs (ls_sys t')) p (ls_log t') = Ok r" if "p \<in> ls_active t'"
    using inv that by (auto simp: commit_inv_def end_op_start_def Let_def)
  have 3: "ls_committer t' \<noteq> None \<or> ls_active t' \<noteq> {}" if "sleeps_on (ls_sys t') ChLog j"
    using inv that by (auto simp: commit_inv_def space_inv_def MAXOPBLOCKS_def LOGSIZE_def)
  from 1 2 3 show ?thesis by blast
qed

theorem log_space_suffices_witness:
  "log_step\<^sup>*\<^sup>* demo_lstate demo_begun \<and> (\<exists>r. log_write (ls_log demo_begun) 45 = Ok r)"
proof -
  have "\<not> sleeps_on (ls_sys demo_lstate) ChLog j" for j
    by (auto simp: demo_lstate_def sleeps_on_def demo_simps nth_Cons split: nat.splits)
  from log_space_suffices [OF r_into_rtranclp [of log_step, OF demo_log_step] _ _ _ _ _ _ this, of 0 45 0] demo_log_step
  show ?thesis by (auto simp: demo_lstate_def demo_begun_def demo_log_def LOGSIZE_def MAXOPBLOCKS_def)
qed

text \<open>
  \<^verbatim>\<open>mkfs\<close> makes a log area of \<^verbatim>\<open>LOGSIZE\<close> blocks, header included. Then \<^verbatim>\<open>begin_op\<close> admits three
  operations whose reservations need one block more than \<^verbatim>\<open>log_write\<close> accepts.
\<close>

lemma log_one_block_short:
  "log_write (demo_log\<lparr>lg_size := LOGSIZE, lg_outstanding := 3, lg_committing := False, lh_n := 29\<rparr>) b = Panic ''too big a transaction''"
  "lg_outstanding lg = 2 \<Longrightarrow> lh_n lg = 0 \<Longrightarrow> \<not> lg_committing lg \<Longrightarrow> begin_op ps p lg = (Returns (), ps, lg\<lparr>lg_outstanding := 3\<rparr>)"
  by (simp_all add: log_write_def begin_op_def LOGSIZE_def MAXOPBLOCKS_def)

end
