(* ===== verification/Fs_Block.thy ===== *)
theory Fs_Block
  imports Log
begin

text \<open>
  The lowest layer of \<^verbatim>\<open>kernel/fs.c\<close>: the super block and the allocation of disk blocks, on the array
  of blocks that the cache shows. A routine of the file system returns, panics, or has to wait: for
  the sleep lock of an entry of the inode table, for space in the log, for a pipe. What a waiting
  process does and who wakes it is the subject of the theories on locks, the log and pipes.
\<close>

unbundle bit_operations_syntax

datatype 'a fs = Done 'a | Died string | Waits chan

fun fbind :: "'a fs \<Rightarrow> ('a \<Rightarrow> 'b fs) \<Rightarrow> 'b fs" where
  "fbind (Done x) f = f x"
| "fbind (Died e) f = Died e"
| "fbind (Waits c) f = Waits c"

fun of_res :: "'a res \<Rightarrow> 'a fs" where
  "of_res (Ok x) = Done x"
| "of_res (Panic e) = Died e"

lemma fbind_Done_iff [simp]: "fbind r f = Done y \<longleftrightarrow> (\<exists>x. r = Done x \<and> f x = Done y)"
  by (cases r) auto

lemma Done_fbind_iff [simp]: "Done y = fbind r f \<longleftrightarrow> (\<exists>x. r = Done x \<and> f x = Done y)"
  by (cases r) auto

lemma of_res_Done_iff [simp]: "of_res r = Done x \<longleftrightarrow> r = Ok x"
  by (cases r) auto

section \<open>State\<close>

record superblock =
  sb_magic :: nat
  sb_size :: nat
  sb_nblocks :: nat
  sb_ninodes :: nat
  sb_nlog :: nat
  sb_logstart :: nat
  sb_inodestart :: nat
  sb_bmapstart :: nat

definition FSMAGIC :: nat where "FSMAGIC = 0x10203040"
definition BPB :: nat where "BPB = BSIZE * 8"

definition BBLOCK :: "nat \<Rightarrow> superblock \<Rightarrow> nat" where
  "BBLOCK b sb = b div BPB + sb_bmapstart sb"

text \<open>An entry of the inode table; \<open>i_lock\<close> is the pid of the process that holds its sleep lock.\<close>

record inode =
  i_dev :: nat
  i_inum :: nat
  i_ref :: int
  i_lock :: "int option"
  i_valid :: bool
  i_type :: u16
  i_major :: u16
  i_minor :: u16
  i_nlink :: u16
  i_size :: nat
  i_addrs :: "nat list"

record fsys =
  fs_sb :: superblock
  fs_log :: log
  fs_dev :: bdev
  fs_itable :: "inode list"

text \<open>The contents that \<^verbatim>\<open>bread\<close> shows, and \<^verbatim>\<open>log_write\<close> of a buffer whose data is now \<open>x\<close>.\<close>

definition blk :: "fsys \<Rightarrow> nat \<Rightarrow> u8 list" where
  "blk s b = vw (fs_dev s) b"

definition set_blk :: "nat \<Rightarrow> u8 list \<Rightarrow> fsys \<Rightarrow> fsys" where
  "set_blk b x s = s\<lparr>fs_dev := (fs_dev s)\<lparr>vw := (vw (fs_dev s))(b := x)\<rparr>\<rparr>"

definition log_put :: "nat \<Rightarrow> u8 list \<Rightarrow> fsys \<Rightarrow> fsys fs" where
  "log_put b x s =
     fbind (of_res (log_write (fs_log s) b)) (\<lambda>(lg, pinned).
       let s1 = set_blk b x s in
       Done (s1\<lparr>fs_log := lg,
         fs_dev := (fs_dev s1)\<lparr>pins := if pinned then (pins (fs_dev s1))(b := pins (fs_dev s1) b + 1) else pins (fs_dev s1)\<rparr>\<rparr>))"

section \<open>Operations\<close>

definition readsb :: "bdev \<Rightarrow> superblock" where
  "readsb d =
     (let x = vw d 1 in
      \<lparr>sb_magic = rd 4 0 x, sb_size = rd 4 4 x, sb_nblocks = rd 4 8 x, sb_ninodes = rd 4 12 x,
       sb_nlog = rd 4 16 x, sb_logstart = rd 4 20 x, sb_inodestart = rd 4 24 x, sb_bmapstart = rd 4 28 x\<rparr>)"

definition fsinit :: "fsys \<Rightarrow> fsys fs" where
  "fsinit s =
     (let sb = readsb (fs_dev s) in
      if sb_magic sb \<noteq> FSMAGIC then Died ''invalid file system''
      else fbind (of_res (initlog (sb_logstart sb) (sb_nlog sb) (fs_log s, fs_dev s))) (\<lambda>(lg, d).
        Done (s\<lparr>fs_sb := sb, fs_log := lg, fs_dev := d\<rparr>)))"

definition bzero :: "nat \<Rightarrow> fsys \<Rightarrow> fsys fs" where
  "bzero bno s = log_put bno (replicate BSIZE 0) s"

definition bit_used :: "u8 list \<Rightarrow> nat \<Rightarrow> bool" where
  "bit_used data bi \<longleftrightarrow> (data ! (bi div 8)) AND push_bit (bi mod 8) 1 \<noteq> 0"

definition mark_used :: "nat \<Rightarrow> u8 list \<Rightarrow> u8 list" where
  "mark_used bi data = data[bi div 8 := (data ! (bi div 8)) OR push_bit (bi mod 8) 1]"

definition mark_free :: "nat \<Rightarrow> u8 list \<Rightarrow> u8 list" where
  "mark_free bi data = data[bi div 8 := (data ! (bi div 8)) AND NOT (push_bit (bi mod 8) 1)]"

text \<open>
  The two loops of \<^verbatim>\<open>balloc\<close>: over the bits \<open>bi\<close> of the bitmap block of \<open>b\<close> (\<open>k\<close> of them are left),
  and over the bitmap blocks.
\<close>

fun balloc_bits :: "u8 list \<Rightarrow> nat \<Rightarrow> nat \<Rightarrow> nat \<Rightarrow> nat \<Rightarrow> nat option" where
  "balloc_bits data sz b bi 0 = None"
| "balloc_bits data sz b bi (Suc k) =
     (if b + bi < sz
      then if \<not> bit_used data bi then Some bi else balloc_bits data sz b (Suc bi) k
      else None)"

function balloc_from :: "fsys \<Rightarrow> nat \<Rightarrow> (nat \<times> fsys) fs" where
  "balloc_from s b =
     (if b < sb_size (fs_sb s)
      then case balloc_bits (blk s (BBLOCK b (fs_sb s))) (sb_size (fs_sb s)) b 0 BPB of
          Some bi \<Rightarrow>
            fbind (log_put (BBLOCK b (fs_sb s)) (mark_used bi (blk s (BBLOCK b (fs_sb s)))) s) (\<lambda>s1.
            fbind (bzero (b + bi) s1) (\<lambda>s2. Done (b + bi, s2)))
        | None \<Rightarrow> balloc_from s (b + BPB)
      else Done (0, s))"
  by auto
termination
  by (relation "measure (\<lambda>(s, b). sb_size (fs_sb s) - b)") (auto simp: BPB_def BSIZE_def)

definition balloc :: "fsys \<Rightarrow> (nat \<times> fsys) fs" where
  "balloc s = balloc_from s 0"

definition bfree :: "nat \<Rightarrow> fsys \<Rightarrow> fsys fs" where
  "bfree b s =
     (let bb = BBLOCK b (fs_sb s); bi = b mod BPB in
      if \<not> bit_used (blk s bb) bi then Died ''freeing free block''
      else log_put bb (mark_free bi (blk s bb)) s)"

declare balloc_from.simps [simp del]

section \<open>The bitmap\<close>

definition in_use :: "fsys \<Rightarrow> nat \<Rightarrow> bool" where
  "in_use s b \<longleftrightarrow> bit_used (blk s (BBLOCK b (fs_sb s))) (b mod BPB)"

lemma bit_used_bit: "bit_used data bi \<longleftrightarrow> bit (data ! (bi div 8)) (bi mod 8)"
  by (simp add: bit_used_def bit_iff_and_push_bit_not_eq_0)

lemma div_mod_8_eq: "bi div 8 = bj div 8 \<Longrightarrow> bi mod 8 = bj mod 8 \<longleftrightarrow> bi = (bj::nat)"
  by (metis mult_div_mod_eq)

lemma bit_exp_8: "bit ((2::u8) ^ (i mod 8)) m \<longleftrightarrow> i mod 8 = m"
  by (auto simp: bit_exp_iff)

lemma bit_used_mark_used:
  assumes "bi < 8 * length data"
  shows "bit_used (mark_used bi data) bj \<longleftrightarrow> bj = bi \<or> bit_used data bj"
proof -
  have l: "bi div 8 < length data" using assms by simp
  show ?thesis
  proof (cases "bj div 8 = bi div 8")
    case True
    with l div_mod_8_eq [OF True] show ?thesis
      by (auto simp: bit_used_bit mark_used_def bit_or_iff bit_exp_8)
  next
    case False
    then show ?thesis by (auto simp: bit_used_bit mark_used_def)
  qed
qed

lemma bit_used_mark_free:
  assumes "bi < 8 * length data"
  shows "bit_used (mark_free bi data) bj \<longleftrightarrow> bj \<noteq> bi \<and> bit_used data bj"
proof -
  have l: "bi div 8 < length data" using assms by simp
  show ?thesis
  proof (cases "bj div 8 = bi div 8")
    case True
    with l div_mod_8_eq [OF True] show ?thesis
      by (auto simp: bit_used_bit mark_free_def bit_and_iff bit_not_iff bit_exp_8)
  next
    case False
    then show ?thesis by (auto simp: bit_used_bit mark_free_def)
  qed
qed

lemma length_mark [simp]: "length (mark_used bi data) = length data" "length (mark_free bi data) = length data"
  by (simp_all add: mark_used_def mark_free_def)

text \<open>Room for \<open>k\<close> more blocks in the log, inside an operation.\<close>

definition room :: "fsys \<Rightarrow> nat \<Rightarrow> bool" where
  "room s k \<longleftrightarrow> lh_n (fs_log s) + k \<le> LOGSIZE \<and> lh_n (fs_log s) + k < lg_size (fs_log s) \<and> 1 \<le> lg_outstanding (fs_log s)"

lemma log_put_Done:
  assumes "log_put b x s = Done s'"
  shows "blk s' = (blk s)(b := x)" "fs_sb s' = fs_sb s" "fs_itable s' = fs_itable s"
  using assms by (auto simp: log_put_def Let_def blk_def set_blk_def)

lemma log_put_room:
  assumes "room s (Suc k)"
  obtains s' where "log_put b x s = Done s'" "room s' k"
proof -
  from assms obtain lg pinned where w: "log_write (fs_log s) b = Ok (lg, pinned)"
    by (cases "log_find (fs_log s) b = lh_n (fs_log s)") (auto simp: room_def log_write_def Let_def)
  with assms log_write_fields [OF w] that show thesis
    by (auto simp: room_def log_put_def Let_def set_blk_def split: if_splits)
qed

lemma room_mono: "room s k \<Longrightarrow> j \<le> k \<Longrightarrow> room s j"
  by (simp add: room_def)

lemma balloc_bits_Some:
  "balloc_bits data sz b bi k = Some r \<Longrightarrow> bi \<le> r \<and> r < bi + k \<and> b + r < sz \<and> \<not> bit_used data r"
  by (induction data sz b bi k rule: balloc_bits.induct) (auto split: if_splits)

lemma balloc_bits_None:
  "balloc_bits data sz b bi k = None \<Longrightarrow> bi \<le> j \<Longrightarrow> j < bi + k \<Longrightarrow> b + j < sz \<Longrightarrow> bit_used data j"
proof (induction data sz b bi k rule: balloc_bits.induct)
  case (2 data sz b bi k)
  then show ?case by (cases "j = bi") (auto split: if_splits)
qed simp

lemma BPB_pos: "0 < BPB"
  by (simp add: BPB_def BSIZE_def)

lemma in_group:
  assumes "b mod BPB = 0" "bi < BPB"
  shows "(b + bi) mod BPB = bi" "BBLOCK (b + bi) sb = BBLOCK b sb"
  using assms by (auto simp: BBLOCK_def mod_add_left_eq [symmetric, of b] elim!: mod_eqE)

text \<open>What \<^verbatim>\<open>balloc\<close> does with the block it finds.\<close>

definition take_block :: "nat \<Rightarrow> fsys \<Rightarrow> fsys fs" where
  "take_block b s = fbind (log_put (BBLOCK b (fs_sb s)) (mark_used (b mod BPB) (blk s (BBLOCK b (fs_sb s)))) s) (bzero b)"

lemma balloc_from_spec:
  assumes "b mod BPB = 0"
  shows "(\<exists>r. b \<le> r \<and> r < sb_size (fs_sb s) \<and> \<not> in_use s r \<and> balloc_from s b = fbind (take_block r s) (\<lambda>s'. Done (r, s'))) \<or>
    (\<forall>c. b \<le> c \<and> c < sb_size (fs_sb s) \<longrightarrow> in_use s c) \<and> balloc_from s b = Done (0, s)"
  using assms
proof (induction s b rule: balloc_from.induct)
  case (1 s b)
  let ?sz = "sb_size (fs_sb s)" let ?bits = "balloc_bits (blk s (BBLOCK b (fs_sb s))) ?sz b 0 BPB"
  show ?case
  proof (cases "b < ?sz")
    case False
    then show ?thesis by (intro disjI2) (auto simp: balloc_from.simps)
  next
    case lt: True
    show ?thesis
    proof (cases ?bits)
      case (Some bi)
      from balloc_bits_Some [OF Some] have bi: "bi < BPB" "b + bi < ?sz" "\<not> bit_used (blk s (BBLOCK b (fs_sb s))) bi" by auto
      note g = in_group [OF 1(2) bi(1)]
      have "fbind (fbind r f) h = fbind r (\<lambda>x. fbind (f x) h)" for r :: "fsys fs" and f :: "fsys \<Rightarrow> fsys fs" and h :: "fsys \<Rightarrow> (nat \<times> fsys) fs"
        by (cases r) auto
      then have "balloc_from s b = fbind (take_block (b + bi) s) (\<lambda>s'. Done (b + bi, s'))"
        using lt Some g by (simp add: balloc_from.simps [of s b] take_block_def)
      then show ?thesis using bi g by (intro disjI1 exI [of _ "b + bi"]) (simp add: in_use_def)
    next
      case None
      have u: "in_use s c" if "b \<le> c" "c < b + BPB" "c < ?sz" for c
      proof -
        have "bit_used (blk s (BBLOCK b (fs_sb s))) (c - b)" using balloc_bits_None [OF None, of "c - b"] that by simp
        then show ?thesis using in_group [OF 1(2), of "c - b"] that by (simp add: in_use_def)
      qed
      from None lt have e: "balloc_from s b = balloc_from s (b + BPB)" by (simp add: balloc_from.simps [of s b])
      have "(b + BPB) mod BPB = 0" using 1(2) by simp
      from 1(1) [OF lt None this] show ?thesis unfolding e by (meson add_leD1 linorder_not_le u)
    qed
  qed
qed

text \<open>
  A bitmap in which the blocks up to the end of the bitmap itself (boot block, super block, log,
  inodes, bitmap) are in use.
\<close>

definition bmap_end :: "superblock \<Rightarrow> nat" where
  "bmap_end sb = BBLOCK (sb_size sb - 1) sb"

definition bitmap_ok :: "fsys \<Rightarrow> bool" where
  "bitmap_ok s \<longleftrightarrow> (\<forall>b. length (blk s b) = BSIZE) \<and> (\<forall>b \<le> bmap_end (fs_sb s). in_use s b)"

lemma BBLOCK_le: "b < sb_size sb \<Longrightarrow> BBLOCK b sb \<le> bmap_end sb"
  by (simp add: bmap_end_def BBLOCK_def div_le_mono)

lemma in_use_log_put:
  assumes "\<And>c. length (blk s c) = BSIZE" "x = mark_used (b mod BPB) (blk s (BBLOCK b (fs_sb s)))"
    and "log_put (BBLOCK b (fs_sb s)) x s = Done s'"
  shows "in_use s' c \<longleftrightarrow> c = b \<or> in_use s c"
proof -
  have "b mod BPB < 8 * BSIZE" by (simp add: BPB_def BSIZE_def)
  then have u: "bit_used x j \<longleftrightarrow> j = b mod BPB \<or> bit_used (blk s (BBLOCK b (fs_sb s))) j" for j
    unfolding assms(2) by (intro bit_used_mark_used) (simp add: assms(1))
  show ?thesis
  proof (cases "c div BPB = b div BPB")
    case True
    then have "c mod BPB = b mod BPB \<longleftrightarrow> c = b" by (metis mult_div_mod_eq)
    with True show ?thesis using log_put_Done [OF assms(3)] u by (simp add: in_use_def BBLOCK_def)
  next
    case False
    then have "c \<noteq> b" by blast
    with False show ?thesis using log_put_Done [OF assms(3)] by (simp add: in_use_def BBLOCK_def)
  qed
qed

lemma in_use_log_put_free:
  assumes "\<And>c. length (blk s c) = BSIZE" "x = mark_free (b mod BPB) (blk s (BBLOCK b (fs_sb s)))"
    and "log_put (BBLOCK b (fs_sb s)) x s = Done s'"
  shows "in_use s' c \<longleftrightarrow> c \<noteq> b \<and> in_use s c"
proof -
  have "b mod BPB < 8 * BSIZE" by (simp add: BPB_def BSIZE_def)
  then have u: "bit_used x j \<longleftrightarrow> j \<noteq> b mod BPB \<and> bit_used (blk s (BBLOCK b (fs_sb s))) j" for j
    unfolding assms(2) by (intro bit_used_mark_free) (simp add: assms(1))
  show ?thesis
  proof (cases "c div BPB = b div BPB")
    case True
    then have "c mod BPB = b mod BPB \<longleftrightarrow> c = b" by (metis mult_div_mod_eq)
    with True show ?thesis using log_put_Done [OF assms(3)] u by (simp add: in_use_def BBLOCK_def)
  next
    case False
    then have "c \<noteq> b" by blast
    with False show ?thesis using log_put_Done [OF assms(3)] by (simp add: in_use_def BBLOCK_def)
  qed
qed

lemma take_block_Done:
  assumes "bitmap_ok s" "b < sb_size (fs_sb s)" "\<not> in_use s b" "take_block b s = Done s'"
  shows "c < sb_size (fs_sb s) \<Longrightarrow> in_use s' c \<longleftrightarrow> c = b \<or> in_use s c"
    "blk s' b = replicate BSIZE 0" "c \<noteq> b \<Longrightarrow> bmap_end (fs_sb s) < c \<or> c < sb_bmapstart (fs_sb s) \<Longrightarrow> blk s' c = blk s c"
    "bitmap_ok s'" "fs_sb s' = fs_sb s" "fs_itable s' = fs_itable s" "bmap_end (fs_sb s) < b"
proof -
  let ?x = "mark_used (b mod BPB) (blk s (BBLOCK b (fs_sb s)))"
  obtain s1 where 1: "log_put (BBLOCK b (fs_sb s)) ?x s = Done s1" "log_put b (replicate BSIZE 0) s1 = Done s'"
    using assms(4) by (auto simp: take_block_def bzero_def)
  have len: "length (blk s c) = BSIZE" for c using assms(1) by (simp add: bitmap_ok_def)
  note u = in_use_log_put [OF len refl 1(1)] and p1 = log_put_Done [OF 1(1)] and p2 = log_put_Done [OF 1(2)]
  show e: "bmap_end (fs_sb s) < b" using assms(1,3) by (auto simp: bitmap_ok_def not_le [symmetric])
  have up: "in_use s' c \<longleftrightarrow> in_use s1 c" if "BBLOCK c (fs_sb s) \<noteq> b" for c using p1(2) p2 that by (simp add: in_use_def)
  show in_use: "in_use s' c \<longleftrightarrow> c = b \<or> in_use s c" if "c < sb_size (fs_sb s)" for c
    using up [of c] u BBLOCK_le [OF that] e by auto
  show "blk s' b = replicate BSIZE 0" using p2(1) by simp
  show "fs_sb s' = fs_sb s" "fs_itable s' = fs_itable s" using p1 p2 by simp_all
  have B: "sb_bmapstart (fs_sb s) \<le> BBLOCK b (fs_sb s)" by (simp add: BBLOCK_def)
  show "blk s' c = blk s c" if "c \<noteq> b" "bmap_end (fs_sb s) < c \<or> c < sb_bmapstart (fs_sb s)"
    using that BBLOCK_le [OF assms(2)] B p1(1) p2(1) by auto
  have "length (blk s' c) = BSIZE" for c using p1(1) p2(1) len by (auto simp: BSIZE_def)
  moreover have "in_use s' c" if "c \<le> bmap_end (fs_sb s')" for c
  proof (cases "c < sb_size (fs_sb s)")
    case True
    then show ?thesis using in_use assms(1) that p1 p2 by (simp add: bitmap_ok_def)
  next
    case False
    then show ?thesis using that assms(2) e p1 p2 by simp
  qed
  ultimately show "bitmap_ok s'" by (simp add: bitmap_ok_def)
qed

lemma take_block_room:
  assumes "room s (Suc (Suc k))"
  obtains s' where "take_block b s = Done s'" "room s' k"
  by (rule log_put_room [OF assms, of "BBLOCK b (fs_sb s)" "mark_used (b mod BPB) (blk s (BBLOCK b (fs_sb s)))"])
    (rule log_put_room, assumption, rule that, auto simp: take_block_def bzero_def)

lemma bfree_Done:
  assumes "bitmap_ok s" "bmap_end (fs_sb s) < b" "b < sb_size (fs_sb s)" "bfree b s = Done s'"
  shows "in_use s' c \<longleftrightarrow> c \<noteq> b \<and> in_use s c" "bmap_end (fs_sb s) < c \<or> c < sb_bmapstart (fs_sb s) \<Longrightarrow> blk s' c = blk s c"
    "bitmap_ok s'" "fs_sb s' = fs_sb s" "fs_itable s' = fs_itable s"
proof -
  let ?x = "mark_free (b mod BPB) (blk s (BBLOCK b (fs_sb s)))"
  have 1: "log_put (BBLOCK b (fs_sb s)) ?x s = Done s'"
    using assms(4) by (auto simp: bfree_def Let_def split: if_splits)
  have len: "length (blk s c) = BSIZE" for c using assms(1) by (simp add: bitmap_ok_def)
  note u = in_use_log_put_free [OF len refl 1] and p = log_put_Done [OF 1]
  show "in_use s' c \<longleftrightarrow> c \<noteq> b \<and> in_use s c" by (rule u)
  show "fs_sb s' = fs_sb s" "fs_itable s' = fs_itable s" using p by simp_all
  have B: "sb_bmapstart (fs_sb s) \<le> BBLOCK b (fs_sb s)" by (simp add: BBLOCK_def)
  show "blk s' c = blk s c" if "bmap_end (fs_sb s) < c \<or> c < sb_bmapstart (fs_sb s)"
    using that BBLOCK_le [OF assms(3)] B p(1) by auto
  show "bitmap_ok s'" using assms(1,2) u p len by (auto simp: bitmap_ok_def)
qed

lemma bfree_room:
  assumes "room s (Suc k)" "in_use s b"
  obtains s' where "bfree b s = Done s'" "room s' k"
  by (rule log_put_room [OF assms(1)], rule that) (use assms(2) in \<open>auto simp: bfree_def in_use_def Let_def\<close>)

lemma balloc_cases:
  assumes "room s 2"
  obtains (full) "\<And>c. c < sb_size (fs_sb s) \<Longrightarrow> in_use s c" "balloc s = Done (0, s)"
  | (got) b s' where "b < sb_size (fs_sb s)" "\<not> in_use s b" "take_block b s = Done s'" "balloc s = Done (b, s')"
proof -
  have "0 mod BPB = 0" by simp
  from balloc_from_spec [OF this, of s] show thesis
  proof (elim disjE exE conjE)
    fix r assume r: "r < sb_size (fs_sb s)" "\<not> in_use s r" "balloc_from s 0 = fbind (take_block r s) (\<lambda>s'. Done (r, s'))"
    obtain s' where "take_block r s = Done s'" using take_block_room [of s 0] assms by (metis numeral_2_eq_2)
    with r got show thesis by (simp add: balloc_def)
  qed (use full in \<open>auto simp: balloc_def\<close>)
qed

text \<open>C29: \<^verbatim>\<open>balloc\<close> and \<^verbatim>\<open>bfree\<close>. With room in the log, \<^verbatim>\<open>balloc\<close> returns 0 and changes nothing exactly
  when every block is in use; otherwise it returns a free block beyond the bitmap, marks it and
  only it as used and fills it with zeros, and changes no other block outside the bitmap. Freeing
  the block makes the set of used blocks what it was.\<close>

theorem balloc_bfree_correct:
  assumes "bitmap_ok s" "room s 3"
  shows "(\<forall>c < sb_size (fs_sb s). in_use s c) \<and> balloc s = Done (0, s) \<or>
    (\<exists>b s1 s2. balloc s = Done (b, s1) \<and> b < sb_size (fs_sb s) \<and> bmap_end (fs_sb s) < b \<and> \<not> in_use s b \<and>
      (\<forall>c < sb_size (fs_sb s). in_use s1 c \<longleftrightarrow> c = b \<or> in_use s c) \<and> blk s1 b = replicate BSIZE 0 \<and>
      (\<forall>c. c \<noteq> b \<and> (bmap_end (fs_sb s) < c \<or> c < sb_bmapstart (fs_sb s)) \<longrightarrow> blk s1 c = blk s c) \<and>
      bfree b s1 = Done s2 \<and> (\<forall>c < sb_size (fs_sb s). in_use s2 c \<longleftrightarrow> in_use s c))"
  using room_mono [OF assms(2), of 2, simplified]
proof (cases rule: balloc_cases)
  case full
  then show ?thesis by blast
next
  case (got b s1)
  have r: "room s (Suc (Suc 1))" using assms(2) by (simp add: numeral_eq_Suc)
  from take_block_room [OF r, of b] got(3) have "room s1 (Suc 0)" by auto
  note t = take_block_Done [OF assms(1) got(1-3)]
  from t(1) [OF got(1)] have "in_use s1 b" by simp
  with bfree_room [OF \<open>room s1 (Suc 0)\<close>] obtain s2 where s2: "bfree b s1 = Done s2" by auto
  have "bmap_end (fs_sb s1) < b" "b < sb_size (fs_sb s1)" using t(5,7) got(1) by simp_all
  note f = bfree_Done [OF t(4) this s2]
  show ?thesis
    by (intro disjI2 exI [of _ b] exI [of _ s1] exI [of _ s2]) (use got t f s2 in auto)
qed

text \<open>A file system of 100 blocks, of which the first 48 are in use.\<close>

definition demo_sb :: superblock where
  "demo_sb = \<lparr>sb_magic = FSMAGIC, sb_size = 100, sb_nblocks = 54, sb_ninodes = 100, sb_nlog = 31, sb_logstart = 2,
     sb_inodestart = 33, sb_bmapstart = 45\<rparr>"

definition demo_bitmap :: "u8 list" where
  "demo_bitmap = replicate 6 255 @ replicate 1018 0"

definition demo_fs :: fsys where
  "demo_fs = \<lparr>fs_sb = demo_sb, fs_log = demo_log\<lparr>lg_outstanding := 1, lg_committing := False, lh_n := 0\<rparr>,
     fs_dev = \<lparr>dk = \<lambda>_. replicate BSIZE 0, vw = (\<lambda>_. replicate BSIZE 0)(45 := demo_bitmap), pins = \<lambda>_. 0, writes = []\<rparr>,
     fs_itable = replicate 2 \<lparr>i_dev = 0, i_inum = 0, i_ref = 0, i_lock = None, i_valid = False, i_type = 0, i_major = 0, i_minor = 0,
       i_nlink = 0, i_size = 0, i_addrs = replicate 13 0\<rparr>\<rparr>"

lemma bit_used_demo: "b < 8192 \<Longrightarrow> bit_used demo_bitmap b \<longleftrightarrow> b < 48"
proof -
  assume b: "b < 8192"
  have m1: "(255 :: u8) = - 1" by simp
  have "bit (255 :: u8) (b mod 8)" unfolding m1 bit_minus_1_iff by simp
  moreover have "demo_bitmap ! (b div 8) = (if b < 48 then 255 else 0)"
    using b by (auto simp: demo_bitmap_def nth_append)
  ultimately show ?thesis by (simp add: bit_used_bit)
qed

lemma demo_fs_ok: "bitmap_ok demo_fs" "room demo_fs 30" "in_use demo_fs b \<longleftrightarrow> b mod 8192 < 48 \<and> b < 8192"
proof -
  have z: "\<not> bit_used (replicate BSIZE 0) (b mod BPB)" for b
    by (simp add: bit_used_bit BPB_def BSIZE_def less_mult_imp_div_less)
  have u: "in_use demo_fs b \<longleftrightarrow> b mod 8192 < 48 \<and> b < 8192" for b
    using bit_used_demo [of "b mod 8192"] z [of b]
    by (cases "b < 8192") (auto simp: in_use_def demo_fs_def demo_sb_def blk_def BBLOCK_def BPB_def BSIZE_def)
  then show "bitmap_ok demo_fs"
    by (auto simp: bitmap_ok_def bmap_end_def BBLOCK_def BPB_def BSIZE_def demo_fs_def demo_sb_def blk_def demo_bitmap_def)
  from u show "in_use demo_fs b \<longleftrightarrow> b mod 8192 < 48 \<and> b < 8192" .
  show "room demo_fs 30" by (simp add: room_def demo_fs_def demo_log_def LOGSIZE_def MAXOPBLOCKS_def)
qed

theorem balloc_bfree_correct_witness:
  "\<exists>b s1. balloc demo_fs = Done (b, s1) \<and> \<not> in_use demo_fs b \<and> in_use s1 b \<and> blk s1 b = replicate BSIZE 0"
proof -
  have f: "\<not> in_use demo_fs 50" "sb_size (fs_sb demo_fs) = 100" by (simp_all add: demo_fs_ok(3)) (simp add: demo_fs_def demo_sb_def)
  have "room demo_fs 3" by (rule room_mono [OF demo_fs_ok(2)]) simp
  from balloc_bfree_correct [OF demo_fs_ok(1) this] f show ?thesis by fastforce
qed

end
