(* ===== verification/Fs_Inode.thy ===== *)
theory Fs_Inode
  imports Fs_Block
begin

text \<open>
  Inodes in \<^verbatim>\<open>kernel/fs.c\<close>: the inode table, inodes on the disk, and the map from the blocks of a
  file to disk blocks. A pointer to an inode is the index of its entry in the table.
\<close>

definition NDIRECT :: nat where "NDIRECT = 12"
definition NINDIRECT :: nat where "NINDIRECT = BSIZE div 4"
definition MAXFILE :: nat where "MAXFILE = NDIRECT + NINDIRECT"
definition IPB :: nat where "IPB = BSIZE div 64"
definition ROOTDEV :: nat where "ROOTDEV = 1"
definition ROOTINO :: nat where "ROOTINO = 1"
definition T_DIR :: u16 where "T_DIR = 1"
definition T_FILE :: u16 where "T_FILE = 2"
definition T_DEVICE :: u16 where "T_DEVICE = 3"

definition IBLOCK :: "nat \<Rightarrow> superblock \<Rightarrow> nat" where
  "IBLOCK i sb = i div IPB + sb_inodestart sb"

text \<open>The offset of an inode in its block. The fields of an inode on the disk are at 0 (type),
  2 (major), 4 (minor), 6 (nlink), 8 (size) and 12 (addrs).\<close>

definition dinode_off :: "nat \<Rightarrow> nat" where
  "dinode_off inum = 64 * (inum mod IPB)"

abbreviation ino :: "fsys \<Rightarrow> nat \<Rightarrow> inode" where
  "ino s i \<equiv> fs_itable s ! i"

definition upd_ino :: "nat \<Rightarrow> (inode \<Rightarrow> inode) \<Rightarrow> fsys \<Rightarrow> fsys" where
  "upd_ino i f s = s\<lparr>fs_itable := (fs_itable s)[i := f (ino s i)]\<rparr>"

section \<open>Operations\<close>

definition iinit :: "fsys \<Rightarrow> fsys" where
  "iinit s = s\<lparr>fs_itable := map (\<lambda>ip. ip\<lparr>i_lock := None\<rparr>) (fs_itable s)\<rparr>"

text \<open>The loop of \<^verbatim>\<open>iget\<close>: the entry that has the inode, or the first free entry.\<close>

fun iget_scan :: "inode list \<Rightarrow> nat \<Rightarrow> nat \<Rightarrow> nat \<Rightarrow> nat option \<Rightarrow> nat + nat option" where
  "iget_scan [] dev inum i emp = Inr emp"
| "iget_scan (ip # ips) dev inum i emp =
     (if i_ref ip > 0 \<and> i_dev ip = dev \<and> i_inum ip = inum then Inl i
      else iget_scan ips dev inum (Suc i) (if emp = None \<and> i_ref ip = 0 then Some i else emp))"

definition iget :: "nat \<Rightarrow> nat \<Rightarrow> fsys \<Rightarrow> (nat \<times> fsys) fs" where
  "iget dev inum s =
     (case iget_scan (fs_itable s) dev inum 0 None of
        Inl i \<Rightarrow> Done (i, upd_ino i (\<lambda>ip. ip\<lparr>i_ref := i_ref ip + 1\<rparr>) s)
      | Inr None \<Rightarrow> Died ''iget: no inodes''
      | Inr (Some i) \<Rightarrow> Done (i, upd_ino i (\<lambda>ip. ip\<lparr>i_dev := dev, i_inum := inum, i_ref := 1, i_valid := False\<rparr>) s))"

fun ialloc_from :: "nat \<Rightarrow> u16 \<Rightarrow> nat \<Rightarrow> nat \<Rightarrow> fsys \<Rightarrow> (nat option \<times> fsys) fs" where
  "ialloc_from dev ty inum 0 s = Done (None, s)"
| "ialloc_from dev ty inum (Suc k) s =
     (let b = IBLOCK inum (fs_sb s); bp = blk s b; off = dinode_off inum in
      if rd 2 off bp = 0
      then fbind (log_put b (wr off (le_bytes 2 (unat ty)) (wr off (replicate 64 0) bp)) s) (\<lambda>s1.
           fbind (iget dev inum s1) (\<lambda>(i, s2). Done (Some i, s2)))
      else ialloc_from dev ty (Suc inum) k s)"

definition ialloc :: "nat \<Rightarrow> u16 \<Rightarrow> fsys \<Rightarrow> (nat option \<times> fsys) fs" where
  "ialloc dev ty s = ialloc_from dev ty 1 (sb_ninodes (fs_sb s) - 1) s"

definition store_dinode :: "inode \<Rightarrow> u8 list \<Rightarrow> u8 list" where
  "store_dinode ip bp =
     (let off = dinode_off (i_inum ip);
          bp = wr off (le_bytes 2 (unat (i_type ip))) bp;
          bp = wr (off + 2) (le_bytes 2 (unat (i_major ip))) bp;
          bp = wr (off + 4) (le_bytes 2 (unat (i_minor ip))) bp;
          bp = wr (off + 6) (le_bytes 2 (unat (i_nlink ip))) bp;
          bp = wr (off + 8) (le_bytes 4 (i_size ip)) bp in
      wr (off + 12) (concat (map (le_bytes 4) (i_addrs ip))) bp)"

definition iupdate :: "nat \<Rightarrow> fsys \<Rightarrow> fsys fs" where
  "iupdate i s =
     (let b = IBLOCK (i_inum (ino s i)) (fs_sb s) in log_put b (store_dinode (ino s i) (blk s b)) s)"

definition idup :: "nat \<Rightarrow> fsys \<Rightarrow> nat \<times> fsys" where
  "idup i s = (i, upd_ino i (\<lambda>ip. ip\<lparr>i_ref := i_ref ip + 1\<rparr>) s)"

definition load_dinode :: "u8 list \<Rightarrow> inode \<Rightarrow> inode" where
  "load_dinode bp ip =
     (let off = dinode_off (i_inum ip) in
      ip\<lparr>i_type := of_nat (rd 2 off bp), i_major := of_nat (rd 2 (off + 2) bp), i_minor := of_nat (rd 2 (off + 4) bp),
         i_nlink := of_nat (rd 2 (off + 6) bp), i_size := rd 4 (off + 8) bp,
         i_addrs := map (\<lambda>j. rd 4 (off + 12 + 4 * j) bp) [0..<NDIRECT + 1]\<rparr>)"

definition ilock :: "int \<Rightarrow> nat \<Rightarrow> fsys \<Rightarrow> fsys fs" where
  "ilock me i s =
     (if i_ref (ino s i) < 1 then Died ''ilock''
      else if i_lock (ino s i) \<noteq> None then Waits (ChSleeplock i)
      else
        (let s1 = upd_ino i (\<lambda>ip. ip\<lparr>i_lock := Some me\<rparr>) s in
         if i_valid (ino s1 i) then Done s1
         else
           (let bp = blk s1 (IBLOCK (i_inum (ino s1 i)) (fs_sb s1));
                s2 = upd_ino i (\<lambda>ip. (load_dinode bp ip)\<lparr>i_valid := True\<rparr>) s1 in
            if i_type (ino s2 i) = 0 then Died ''ilock: no type'' else Done s2)))"

definition iunlock :: "int \<Rightarrow> nat \<Rightarrow> fsys \<Rightarrow> fsys fs" where
  "iunlock me i s =
     (if i_lock (ino s i) \<noteq> Some me \<or> i_ref (ino s i) < 1 then Died ''iunlock''
      else Done (upd_ino i (\<lambda>ip. ip\<lparr>i_lock := None\<rparr>) s))"

definition bmap :: "nat \<Rightarrow> nat \<Rightarrow> fsys \<Rightarrow> (nat \<times> fsys) fs" where
  "bmap i bn s =
     (if bn < NDIRECT then
        (let addr = i_addrs (ino s i) ! bn in
         if addr = 0 then
           fbind (balloc s) (\<lambda>(addr, s1).
             if addr = 0 then Done (0, s1)
             else Done (addr, upd_ino i (\<lambda>ip. ip\<lparr>i_addrs := (i_addrs ip)[bn := addr]\<rparr>) s1))
         else Done (addr, s))
      else if bn - NDIRECT < NINDIRECT then
        fbind
          (if i_addrs (ino s i) ! NDIRECT = 0 then
             fbind (balloc s) (\<lambda>(addr, s1).
               if addr = 0 then Done (0, s1)
               else Done (addr, upd_ino i (\<lambda>ip. ip\<lparr>i_addrs := (i_addrs ip)[NDIRECT := addr]\<rparr>) s1))
           else Done (i_addrs (ino s i) ! NDIRECT, s))
          (\<lambda>(ind, s1).
             if ind = 0 then Done (0, s1)
             else
               (let bp = blk s1 ind; addr = rd 4 (4 * (bn - NDIRECT)) bp in
                if addr = 0 then
                  fbind (balloc s1) (\<lambda>(addr, s2).
                    if addr \<noteq> 0 then
                      fbind (log_put ind (wr (4 * (bn - NDIRECT)) (le_bytes 4 addr) bp) s2) (\<lambda>s3. Done (addr, s3))
                    else Done (0, s2))
                else Done (addr, s1)))
      else Died ''bmap: out of range'')"

fun itrunc_direct :: "nat \<Rightarrow> nat list \<Rightarrow> fsys \<Rightarrow> fsys fs" where
  "itrunc_direct i [] s = Done s"
| "itrunc_direct i (j # js) s =
     (if i_addrs (ino s i) ! j \<noteq> 0
      then fbind (bfree (i_addrs (ino s i) ! j) s) (\<lambda>s1.
        itrunc_direct i js (upd_ino i (\<lambda>ip. ip\<lparr>i_addrs := (i_addrs ip)[j := 0]\<rparr>) s1))
      else itrunc_direct i js s)"

fun itrunc_indirect :: "nat list \<Rightarrow> fsys \<Rightarrow> fsys fs" where
  "itrunc_indirect [] s = Done s"
| "itrunc_indirect (a # as) s =
     (if a \<noteq> 0 then fbind (bfree a s) (itrunc_indirect as) else itrunc_indirect as s)"

definition ind_entries :: "u8 list \<Rightarrow> nat list" where
  "ind_entries bp = map (\<lambda>j. rd 4 (4 * j) bp) [0..<NINDIRECT]"

definition itrunc :: "nat \<Rightarrow> fsys \<Rightarrow> fsys fs" where
  "itrunc i s =
     fbind (itrunc_direct i [0..<NDIRECT] s) (\<lambda>s1.
     fbind
       (let ind = i_addrs (ino s1 i) ! NDIRECT in
        if ind \<noteq> 0 then
          fbind (itrunc_indirect (ind_entries (blk s1 ind)) s1) (\<lambda>s2.
          fbind (bfree ind s2) (\<lambda>s3.
            Done (upd_ino i (\<lambda>ip. ip\<lparr>i_addrs := (i_addrs ip)[NDIRECT := 0]\<rparr>) s3)))
        else Done s1)
       (\<lambda>s4. iupdate i (upd_ino i (\<lambda>ip. ip\<lparr>i_size := 0\<rparr>) s4)))"

definition iput :: "nat \<Rightarrow> fsys \<Rightarrow> fsys fs" where
  "iput i s =
     fbind
       (if i_ref (ino s i) = 1 \<and> i_valid (ino s i) \<and> i_nlink (ino s i) = 0 then
          if i_lock (ino s i) \<noteq> None then Waits (ChSleeplock i)
          else
            fbind (itrunc i s) (\<lambda>s1.
            fbind (iupdate i (upd_ino i (\<lambda>ip. ip\<lparr>i_type := 0\<rparr>) s1)) (\<lambda>s2.
              Done (upd_ino i (\<lambda>ip. ip\<lparr>i_valid := False\<rparr>) s2)))
        else Done s)
       (\<lambda>s3. Done (upd_ino i (\<lambda>ip. ip\<lparr>i_ref := i_ref ip - 1\<rparr>) s3))"

definition iunlockput :: "int \<Rightarrow> nat \<Rightarrow> fsys \<Rightarrow> fsys fs" where
  "iunlockput me i s = fbind (iunlock me i s) (iput i)"

text \<open>\<^verbatim>\<open>struct stat\<close>.\<close>

record stat =
  st_dev :: nat
  st_ino :: nat
  st_type :: u16
  st_nlink :: u16
  st_size :: u64

definition stati :: "nat \<Rightarrow> fsys \<Rightarrow> stat" where
  "stati i s = \<lparr>st_dev = i_dev (ino s i), st_ino = i_inum (ino s i), st_type = i_type (ino s i), st_nlink = i_nlink (ino s i),
     st_size = of_nat (i_size (ino s i))\<rparr>"

section \<open>Inodes on the disk\<close>

lemma slice_wr_inside:
  assumes "o1 + length xs \<le> length bs" "i + k \<le> length xs"
  shows "slice (o1 + i) k (wr o1 xs bs) = slice i k xs"
  by (rule nth_equalityI) (use assms in \<open>auto simp: slice_nth wr_nth\<close>)

lemma length_concat_le_bytes [simp]: "length (concat (map (le_bytes k) as)) = k * length as"
  by (induction as) simp_all

lemma slice_concat_le_bytes: "j < length as \<Longrightarrow> slice (k * j) k (concat (map (le_bytes k) as)) = le_bytes k (as ! j)"
proof (induction as arbitrary: j)
  case (Cons a as)
  then show ?case by (cases j) (simp_all add: slice_def)
qed simp

lemma rd_wr_concat:
  assumes "o1 + k * length as \<le> length bs" "j < length as"
  shows "rd k (o1 + k * j) (wr o1 (concat (map (le_bytes k) as)) bs) = as ! j mod 256 ^ k"
proof -
  have "k * j + k \<le> k * length as" using assms(2) by (metis Suc_leI mult_Suc_right mult_le_mono2 add.commute)
  then have "slice (o1 + k * j) k (wr o1 (concat (map (le_bytes k) as)) bs) = le_bytes k (as ! j)"
    using assms slice_wr_inside [of o1 "concat (map (le_bytes k) as)" bs "k * j" k] by (simp add: slice_concat_le_bytes)
  then show ?thesis by (simp add: rd_def of_le_bytes_le_bytes)
qed

text \<open>The fields of an inode that live on the disk, as they are there and in an entry of the table.\<close>

definition dfields :: "inode \<Rightarrow> u16 \<times> u16 \<times> u16 \<times> u16 \<times> nat \<times> nat list" where
  "dfields ip = (i_type ip, i_major ip, i_minor ip, i_nlink ip, i_size ip, i_addrs ip)"

definition disk_inode :: "fsys \<Rightarrow> nat \<Rightarrow> u16 \<times> u16 \<times> u16 \<times> u16 \<times> nat \<times> nat list" where
  "disk_inode s n =
     (let bp = blk s (IBLOCK n (fs_sb s)); off = dinode_off n in
      (of_nat (rd 2 off bp), of_nat (rd 2 (off + 2) bp), of_nat (rd 2 (off + 4) bp), of_nat (rd 2 (off + 6) bp), rd 4 (off + 8) bp,
       map (\<lambda>j. rd 4 (off + 12 + 4 * j) bp) [0..<13]))"

lemma dfields_load: "i_inum ip = n \<Longrightarrow> dfields (load_dinode (blk s (IBLOCK n (fs_sb s))) ip) = disk_inode s n"
  by (simp add: dfields_def load_dinode_def disk_inode_def Let_def NDIRECT_def)

definition inode_wf :: "inode \<Rightarrow> bool" where
  "inode_wf ip \<longleftrightarrow> i_size ip < 2 ^ 32 \<and> length (i_addrs ip) = 13 \<and> (\<forall>a \<in> set (i_addrs ip). a < 2 ^ 32)"

lemma dinode_off_bound: "dinode_off n + 64 \<le> BSIZE"
proof -
  have "n mod IPB \<le> 15" by (simp add: IPB_def BSIZE_def less_Suc_eq_le [symmetric])
  then show ?thesis by (simp add: dinode_off_def BSIZE_def)
qed

lemma store_dinode_other:
  assumes "length bp = BSIZE" "length (i_addrs ip) = 13" "i + k \<le> BSIZE"
    and "i + k \<le> dinode_off (i_inum ip) \<or> dinode_off (i_inum ip) + 64 \<le> i"
  shows "rd k i (store_dinode ip bp) = rd k i bp"
  using assms(4) by (elim disjE)
    (use assms(1-3) dinode_off_bound [of "i_inum ip"] in \<open>simp_all add: store_dinode_def Let_def rd_wr_other\<close>)

lemma length_store_dinode [simp]:
  "length bp = BSIZE \<Longrightarrow> length (i_addrs ip) = 13 \<Longrightarrow> length (store_dinode ip bp) = BSIZE"
  using dinode_off_bound [of "i_inum ip"] by (simp add: store_dinode_def Let_def)

lemma store_dinode_same:
  assumes "length bp = BSIZE" "inode_wf ip"
  defines "off \<equiv> dinode_off (i_inum ip)"
  shows "rd 2 off (store_dinode ip bp) = unat (i_type ip)" "rd 2 (off + 2) (store_dinode ip bp) = unat (i_major ip)"
    "rd 2 (off + 4) (store_dinode ip bp) = unat (i_minor ip)" "rd 2 (off + 6) (store_dinode ip bp) = unat (i_nlink ip)"
    "rd 4 (off + 8) (store_dinode ip bp) = i_size ip" "j < 13 \<Longrightarrow> rd 4 (off + 12 + 4 * j) (store_dinode ip bp) = i_addrs ip ! j"
proof -
  have b: "off + 64 \<le> length bp" "length (i_addrs ip) = 13" "i_size ip < 2 ^ 32"
    using dinode_off_bound [of "i_inum ip"] assms by (simp_all add: inode_wf_def)
  have u: "unat (x :: u16) mod 65536 = unat x" for x using unsigned_less [of x, where 'a = nat] by simp
  note D = store_dinode_def Let_def off_def [symmetric]
  show "rd 2 off (store_dinode ip bp) = unat (i_type ip)" using b u rd_wr_same [of off 2] by (simp add: D rd_wr_other)
  show "rd 2 (off + 2) (store_dinode ip bp) = unat (i_major ip)" using b u rd_wr_same [of "off + 2" 2] by (simp add: D rd_wr_other)
  show "rd 2 (off + 4) (store_dinode ip bp) = unat (i_minor ip)" using b u rd_wr_same [of "off + 4" 2] by (simp add: D rd_wr_other)
  show "rd 2 (off + 6) (store_dinode ip bp) = unat (i_nlink ip)" using b u rd_wr_same [of "off + 6" 2] by (simp add: D rd_wr_other)
  show "rd 4 (off + 8) (store_dinode ip bp) = i_size ip" using b rd_wr_same [of "off + 8" 4] by (simp add: D rd_wr_other)
  have "i_addrs ip ! j < 2 ^ 32" if "j < 13" using assms(2) that by (simp add: inode_wf_def)
  then show "rd 4 (off + 12 + 4 * j) (store_dinode ip bp) = i_addrs ip ! j" if "j < 13"
    using b that rd_wr_concat [of "off + 12" 4 "i_addrs ip"] by (simp add: D)
qed

lemma disk_inode_store:
  assumes "length (blk s (IBLOCK (i_inum ip) (fs_sb s))) = BSIZE" "inode_wf ip"
    and "blk s' = (blk s)(IBLOCK (i_inum ip) (fs_sb s) := store_dinode ip (blk s (IBLOCK (i_inum ip) (fs_sb s))))" "fs_sb s' = fs_sb s"
  shows "disk_inode s' n = (if n = i_inum ip then dfields ip else disk_inode s n)"
proof (cases "IBLOCK n (fs_sb s) = IBLOCK (i_inum ip) (fs_sb s)")
  case False
  then show ?thesis using assms(3,4) by (auto simp: disk_inode_def)
next
  case same: True
  show ?thesis
  proof (cases "n = i_inum ip")
    case True
    have "map (\<lambda>j. i_addrs ip ! j) [0..<13] = i_addrs ip"
      using assms(2) by (metis inode_wf_def map_nth)
    moreover have "map (\<lambda>j. rd 4 (dinode_off (i_inum ip) + 12 + 4 * j) (store_dinode ip (blk s (IBLOCK (i_inum ip) (fs_sb s))))) [0..<13] =
        map (\<lambda>j. i_addrs ip ! j) [0..<13]"
      using store_dinode_same(6) [OF assms(1,2)] by (intro map_cong) auto
    ultimately show ?thesis
      using True assms(3,4) store_dinode_same(1-5) [OF assms(1,2)]
      by (simp add: disk_inode_def dfields_def del: upt.simps upt_Suc upt_conv_Cons add: Let_def)
  next
    case False
    with same have "n mod IPB \<noteq> i_inum ip mod IPB"
      by (auto simp: IBLOCK_def) (metis mult_div_mod_eq)
    then have d: "dinode_off n + 64 \<le> dinode_off (i_inum ip) \<or> dinode_off (i_inum ip) + 64 \<le> dinode_off n"
      by (auto simp: dinode_off_def)
    have "rd k (dinode_off n + j) (store_dinode ip (blk s (IBLOCK (i_inum ip) (fs_sb s)))) =
        rd k (dinode_off n + j) (blk s (IBLOCK (i_inum ip) (fs_sb s)))" if "j + k \<le> 64" for j k
      by (rule store_dinode_other [OF assms(1)]) (use d that assms(2) dinode_off_bound [of n] in \<open>auto simp: inode_wf_def\<close>)
    note R = this this [of 0, simplified]
    have "map (\<lambda>j. rd 4 (dinode_off n + (12 + 4 * j)) (store_dinode ip (blk s (IBLOCK (i_inum ip) (fs_sb s))))) [0..<13] =
        map (\<lambda>j. rd 4 (dinode_off n + (12 + 4 * j)) (blk s (IBLOCK (i_inum ip) (fs_sb s)))) [0..<13]"
      by (rule map_cong) (auto intro!: R(1))
    then show ?thesis
      using False same assms(3,4) R(2) [of 2] R(1) [of 2 2] R(1) [of 4 2] R(1) [of 6 2] R(1) [of 8 4]
      by (simp add: disk_inode_def Let_def add.assoc del: upt.simps upt_Suc upt_conv_Cons)
  qed
qed

text \<open>An inode 5 in the table, to be written to the disk, and an empty slot that has been given to it again.\<close>

definition demo_inode :: inode where
  "demo_inode = \<lparr>i_dev = 1, i_inum = 5, i_ref = 1, i_lock = None, i_valid = True, i_type = T_FILE, i_major = 0, i_minor = 0,
     i_nlink = 1, i_size = 700, i_addrs = 49 # replicate 12 0\<rparr>"

definition demo_fs2 :: fsys where
  "demo_fs2 = demo_fs\<lparr>fs_itable := [demo_inode, demo_inode\<lparr>i_valid := False, i_addrs := replicate 13 0, i_size := 0\<rparr>]\<rparr>"

text \<open>C30: Inodes survive the way to the disk. With room in the log \<^verbatim>\<open>iupdate\<close> succeeds, changes exactly
  the inode it is called for, and a later \<^verbatim>\<open>ilock\<close> of an entry whose contents are not valid finds
  the values that \<^verbatim>\<open>iupdate\<close> stored.\<close>

theorem inode_roundtrip:
  assumes "room s (Suc k)" "inode_wf (ino s i)" "\<And>b. length (blk s b) = BSIZE"
  shows "\<exists>s1. iupdate i s = Done s1 \<and> fs_itable s1 = fs_itable s \<and>
    (\<forall>n. disk_inode s1 n = (if n = i_inum (ino s i) then dfields (ino s i) else disk_inode s n)) \<and>
    (\<forall>me j. j < length (fs_itable s) \<and> \<not> i_valid (ino s j) \<and> i_lock (ino s j) = None \<and> 1 \<le> i_ref (ino s j) \<and>
       fst (disk_inode s1 (i_inum (ino s j))) \<noteq> 0 \<longrightarrow>
       (\<exists>s2. ilock me j s1 = Done s2 \<and> i_valid (ino s2 j) \<and> dfields (ino s2 j) = disk_inode s1 (i_inum (ino s j))))"
proof -
  let ?b = "IBLOCK (i_inum (ino s i)) (fs_sb s)"
  obtain s1 where s1: "log_put ?b (store_dinode (ino s i) (blk s ?b)) s = Done s1"
    using log_put_room [OF assms(1)] by blast
  note p = log_put_Done [OF s1]
  have d: "disk_inode s1 n = (if n = i_inum (ino s i) then dfields (ino s i) else disk_inode s n)" for n
    by (rule disk_inode_store [OF assms(3,2) p(1,2)])
  have l: "\<exists>s2. ilock me j s1 = Done s2 \<and> i_valid (ino s2 j) \<and> dfields (ino s2 j) = disk_inode s1 (i_inum (ino s j))"
    if j: "j < length (fs_itable s)" "\<not> i_valid (ino s j)" "i_lock (ino s j) = None" "1 \<le> i_ref (ino s j)"
      "fst (disk_inode s1 (i_inum (ino s j))) \<noteq> 0" for me j
  proof -
    let ?bp = "blk s1 (IBLOCK (i_inum (ino s j)) (fs_sb s1))"
    have "dfields (load_dinode ?bp ((ino s j)\<lparr>i_lock := Some me\<rparr>)) = disk_inode s1 (i_inum (ino s j))"
      by (rule dfields_load) simp
    moreover from this j(5) have "i_type (load_dinode ?bp ((ino s j)\<lparr>i_lock := Some me\<rparr>)) \<noteq> 0"
      by (metis dfields_def fst_conv)
    ultimately show ?thesis using j(1-4) p(3)
      by (simp add: ilock_def upd_ino_def Let_def blk_def dfields_def)
  qed
  show ?thesis
    by (rule exI [of _ s1]) (use s1 p(3) d l in \<open>simp add: iupdate_def Let_def\<close>)
qed

theorem inode_roundtrip_witness:
  "\<exists>s1 s2. iupdate 0 demo_fs2 = Done s1 \<and> ilock 7 1 s1 = Done s2 \<and> i_size (ino s2 1) = 700 \<and> i_addrs (ino s2 1) = 49 # replicate 12 0"
proof -
  have r: "room demo_fs2 (Suc 0)" by (simp add: room_def demo_fs2_def demo_fs_def demo_log_def LOGSIZE_def MAXOPBLOCKS_def)
  have w: "inode_wf (ino demo_fs2 0)" by (simp add: inode_wf_def demo_fs2_def demo_inode_def)
  have b: "length (blk demo_fs2 b) = BSIZE" for b
    by (simp add: blk_def demo_fs2_def demo_fs_def demo_bitmap_def BSIZE_def)
  have t: "ino demo_fs2 0 = demo_inode" "ino demo_fs2 1 = demo_inode\<lparr>i_valid := False, i_addrs := replicate 13 0, i_size := 0\<rparr>"
    "length (fs_itable demo_fs2) = 2" by (simp_all add: demo_fs2_def)
  from inode_roundtrip [OF r w b] obtain s1 where s1: "iupdate 0 demo_fs2 = Done s1"
    and d: "\<forall>n. disk_inode s1 n = (if n = i_inum (ino demo_fs2 0) then dfields (ino demo_fs2 0) else disk_inode demo_fs2 n)"
    and l: "\<forall>me j. j < length (fs_itable demo_fs2) \<and> \<not> i_valid (ino demo_fs2 j) \<and> i_lock (ino demo_fs2 j) = None \<and>
       1 \<le> i_ref (ino demo_fs2 j) \<and> fst (disk_inode s1 (i_inum (ino demo_fs2 j))) \<noteq> 0 \<longrightarrow>
       (\<exists>s2. ilock me j s1 = Done s2 \<and> i_valid (ino s2 j) \<and> dfields (ino s2 j) = disk_inode s1 (i_inum (ino demo_fs2 j)))"
    by blast
  have d5: "disk_inode s1 5 = dfields demo_inode" using spec [OF d, of 5] t(1) by (simp add: demo_inode_def)
  from spec [OF spec [OF l, of 7], of 1] d5 obtain s2 where "ilock 7 1 s1 = Done s2" "dfields (ino s2 1) = dfields demo_inode"
    unfolding t by (auto simp: demo_inode_def dfields_def T_FILE_def)
  with s1 show ?thesis by (auto simp: dfields_def demo_inode_def)
qed

section \<open>The inode table\<close>

text \<open>The part of the table that \<^verbatim>\<open>itable.lock\<close> protects. Only \<^verbatim>\<open>iget\<close>, \<^verbatim>\<open>idup\<close> and \<^verbatim>\<open>iput\<close> change it.\<close>

definition refs :: "fsys \<Rightarrow> (nat \<times> nat \<times> int) list" where
  "refs s = map (\<lambda>ip. (i_dev ip, i_inum ip, i_ref ip)) (fs_itable s)"

lemma refs_upd:
  assumes "i_dev (f (ino s i)) = i_dev (ino s i)" "i_inum (f (ino s i)) = i_inum (ino s i)" "i_ref (f (ino s i)) = i_ref (ino s i)"
  shows "refs (upd_ino i f s) = refs s"
proof (cases "i < length (fs_itable s)")
  case True
  with assms have "refs (upd_ino i f s) = (refs s)[i := refs s ! i]" by (simp add: refs_def upd_ino_def map_update)
  then show ?thesis by simp
qed (simp add: upd_ino_def refs_def not_less list_update_beyond)

lemma refs_log_put: "log_put b x s = Done s' \<Longrightarrow> refs s' = refs s"
  by (simp add: refs_def log_put_Done(3))

lemma refs_take_block: "take_block b s = Done s' \<Longrightarrow> refs s' = refs s"
  by (auto simp: take_block_def bzero_def dest!: refs_log_put)

lemma refs_balloc: "balloc s = Done (b, s') \<Longrightarrow> refs s' = refs s"
  using balloc_from_spec [of 0 s] by (auto simp: balloc_def dest: refs_take_block)

lemma refs_bfree: "bfree b s = Done s' \<Longrightarrow> refs s' = refs s"
  by (auto simp: bfree_def Let_def dest: refs_log_put split: if_splits)

lemma refs_iupdate: "iupdate i s = Done s' \<Longrightarrow> refs s' = refs s"
  by (auto simp: iupdate_def Let_def dest: refs_log_put)

lemma refs_ilock: "ilock me i s = Done s' \<Longrightarrow> refs s' = refs s"
  by (auto simp: ilock_def Let_def refs_upd load_dinode_def split: if_splits)

lemma refs_iunlock: "iunlock me i s = Done s' \<Longrightarrow> refs s' = refs s"
  by (auto simp: iunlock_def refs_upd split: if_splits)

lemma refs_bmap: "bmap i bn s = Done (a, s') \<Longrightarrow> refs s' = refs s"
  by (auto simp: bmap_def Let_def refs_upd dest!: refs_balloc refs_log_put split: if_splits)

lemma refs_itrunc_direct: "itrunc_direct i js s = Done s' \<Longrightarrow> refs s' = refs s"
  by (induction i js s rule: itrunc_direct.induct) (auto simp: refs_upd dest!: refs_bfree split: if_splits)

lemma refs_itrunc_indirect: "itrunc_indirect as s = Done s' \<Longrightarrow> refs s' = refs s"
  by (induction as s rule: itrunc_indirect.induct) (auto dest!: refs_bfree split: if_splits)

lemma refs_itrunc: "itrunc i s = Done s' \<Longrightarrow> refs s' = refs s"
  by (auto simp: itrunc_def Let_def refs_upd dest!: refs_itrunc_direct refs_itrunc_indirect refs_bfree refs_iupdate split: if_splits)

lemmas refs_keep = refs_log_put refs_balloc refs_bfree refs_iupdate refs_ilock refs_iunlock refs_bmap refs_itrunc

lemma refs_nth: "refs s = refs s' \<Longrightarrow> i < length (fs_itable s) \<Longrightarrow>
  i_dev (ino s i) = i_dev (ino s' i) \<and> i_inum (ino s i) = i_inum (ino s' i) \<and> i_ref (ino s i) = i_ref (ino s' i)"
  by (auto simp: refs_def list_eq_iff_nth_eq)

lemma refs_length: "refs s = refs s' \<Longrightarrow> length (fs_itable s) = length (fs_itable s')"
  using map_eq_imp_length_eq by (auto simp: refs_def)

lemma refs_iput:
  assumes "iput i s = Done s'"
  shows "refs s' = (refs s)[i := (i_dev (ino s i), i_inum (ino s i), i_ref (ino s i) - 1)] \<or> length (fs_itable s) \<le> i \<and> refs s' = refs s"
proof -
  from assms obtain s3 where s': "s' = upd_ino i (\<lambda>ip. ip\<lparr>i_ref := i_ref ip - 1\<rparr>) s3"
    and "s3 = s \<or> (\<exists>s1 s2. itrunc i s = Done s1 \<and> iupdate i (upd_ino i (\<lambda>ip. ip\<lparr>i_type := 0\<rparr>) s1) = Done s2 \<and>
      s3 = upd_ino i (\<lambda>ip. ip\<lparr>i_valid := False\<rparr>) s2)"
    by (auto simp: iput_def split: if_splits)
  then have "refs s3 = refs s" by (auto simp: refs_upd dest!: refs_itrunc refs_iupdate)
  note s3 = this s'
  then show ?thesis
  proof (cases "i < length (fs_itable s)")
    case True
    with refs_nth [OF s3(1)] refs_length [OF s3(1)] s3 show ?thesis
      by (auto simp: upd_ino_def refs_def map_update)
  next
    case False
    with refs_length [OF s3(1)] s3 show ?thesis by (simp add: upd_ino_def refs_def not_less list_update_beyond)
  qed
qed

lemma iget_scan_Inl:
  "iget_scan ips dev inum k emp = Inl i \<Longrightarrow>
   \<exists>j < length ips. i = k + j \<and> i_ref (ips ! j) > 0 \<and> i_dev (ips ! j) = dev \<and> i_inum (ips ! j) = inum"
proof (induction ips dev inum k emp rule: iget_scan.induct)
  case (2 ip ips dev inum k emp)
  show ?case
  proof (cases "i_ref ip > 0 \<and> i_dev ip = dev \<and> i_inum ip = inum")
    case False
    with 2 obtain j where "j < length ips" "i = Suc k + j" "i_ref (ips ! j) > 0" "i_dev (ips ! j) = dev" "i_inum (ips ! j) = inum"
      by (auto split: if_splits)
    then show ?thesis by (intro exI [of _ "Suc j"]) simp
  qed (use 2 in auto)
qed simp

lemma iget_scan_Inr:
  "iget_scan ips dev inum k emp = Inr r \<Longrightarrow>
   (\<forall>ip \<in> set ips. \<not> (i_ref ip > 0 \<and> i_dev ip = dev \<and> i_inum ip = inum)) \<and>
   (\<forall>i. r = Some i \<longrightarrow> emp = Some i \<or> (\<exists>j < length ips. i = k + j \<and> i_ref (ips ! j) = 0))"
proof (induction ips dev inum k emp rule: iget_scan.induct)
  case (2 ip ips dev inum k emp)
  then have n: "\<not> (i_ref ip > 0 \<and> i_dev ip = dev \<and> i_inum ip = inum)" by auto
  let ?emp = "if emp = None \<and> i_ref ip = 0 then Some k else emp"
  have IH: "(\<forall>ip \<in> set ips. \<not> (i_ref ip > 0 \<and> i_dev ip = dev \<and> i_inum ip = inum)) \<and>
    (\<forall>i. r = Some i \<longrightarrow> ?emp = Some i \<or> (\<exists>j < length ips. i = Suc k + j \<and> i_ref (ips ! j) = 0))"
    using 2 n by auto
  have "emp = Some i \<or> (\<exists>j < Suc (length ips). i = k + j \<and> i_ref ((ip # ips) ! j) = 0)" if "r = Some i" for i
  proof -
    from IH that consider "?emp = Some i" | j where "j < length ips" "i = Suc k + j" "i_ref (ips ! j) = 0" by blast
    then show ?thesis
    proof cases
      case 1
      then show ?thesis by (auto split: if_splits)
    next
      case (2 j)
      then show ?thesis by (intro disjI2 exI [of _ "Suc j"]) simp
    qed
  qed
  with IH n show ?case by simp
qed auto

lemma iget_cases:
  assumes "iget dev inum s = Done (i, s')"
  obtains (hit) "i < length (fs_itable s)" "i_ref (ino s i) > 0" "i_dev (ino s i) = dev" "i_inum (ino s i) = inum"
      "s' = upd_ino i (\<lambda>ip. ip\<lparr>i_ref := i_ref ip + 1\<rparr>) s"
  | (new) "i < length (fs_itable s)" "i_ref (ino s i) = 0"
      "\<forall>ip \<in> set (fs_itable s). \<not> (i_ref ip > 0 \<and> i_dev ip = dev \<and> i_inum ip = inum)"
      "s' = upd_ino i (\<lambda>ip. ip\<lparr>i_dev := dev, i_inum := inum, i_ref := 1, i_valid := False\<rparr>) s"
  using assms iget_scan_Inl [of "fs_itable s" dev inum 0 None] iget_scan_Inr [of "fs_itable s" dev inum 0 None]
  unfolding iget_def by (auto split: sum.splits option.splits)

text \<open>
  The references to the entries of the table that the callers of \<^verbatim>\<open>iget\<close>, \<^verbatim>\<open>ialloc\<close> and \<^verbatim>\<open>idup\<close> hold,
  counted beside the model.
\<close>

inductive ref_step :: "fsys \<times> (nat \<Rightarrow> nat) \<Rightarrow> fsys \<times> (nat \<Rightarrow> nat) \<Rightarrow> bool" where
  rs_iget: "iget dev inum s = Done (i, s') \<Longrightarrow> ref_step (s, h) (s', h(i := h i + 1))"
| rs_ialloc: "ialloc dev ty s = Done (Some i, s') \<Longrightarrow> ref_step (s, h) (s', h(i := h i + 1))"
| rs_idup: "0 < h i \<Longrightarrow> idup i s = (i, s') \<Longrightarrow> ref_step (s, h) (s', h(i := h i + 1))"
| rs_iput: "0 < h i \<Longrightarrow> iput i s = Done s' \<Longrightarrow> ref_step (s, h) (s', h(i := h i - 1))"
| rs_other: "refs s' = refs s \<Longrightarrow> ref_step (s, h) (s', h)"

definition table_inv :: "fsys \<Rightarrow> (nat \<Rightarrow> nat) \<Rightarrow> bool" where
  "table_inv s h \<longleftrightarrow> (\<forall>i < length (fs_itable s). i_ref (ino s i) = int (h i)) \<and> (\<forall>i \<ge> length (fs_itable s). h i = 0) \<and>
     (\<forall>i < length (fs_itable s). \<forall>j < length (fs_itable s). 0 < h i \<longrightarrow> 0 < h j \<longrightarrow>
        i_dev (ino s i) = i_dev (ino s j) \<longrightarrow> i_inum (ino s i) = i_inum (ino s j) \<longrightarrow> i = j)"

definition keeps_names :: "fsys \<Rightarrow> (nat \<Rightarrow> nat) \<Rightarrow> fsys \<Rightarrow> bool" where
  "keeps_names s h s' \<longleftrightarrow> (\<forall>i. 0 < h i \<longrightarrow> i_dev (ino s' i) = i_dev (ino s i) \<and> i_inum (ino s' i) = i_inum (ino s i))"

lemma table_inv_refs:
  assumes "refs s' = refs s" "table_inv s h"
  shows "table_inv s' h" "keeps_names s h s'"
proof -
  have l: "length (fs_itable s') = length (fs_itable s)" by (rule refs_length [OF assms(1)])
  have n: "i_dev (ino s' i) = i_dev (ino s i) \<and> i_inum (ino s' i) = i_inum (ino s i) \<and> i_ref (ino s' i) = i_ref (ino s i)"
    if "i < length (fs_itable s)" for i using refs_nth [OF assms(1), of i] that l by simp
  from assms(2) show "table_inv s' h" unfolding table_inv_def l using n by (metis (no_types, lifting))
  have "i < length (fs_itable s)" if "0 < h i" for i using assms(2) that by (auto simp: table_inv_def not_less [symmetric])
  with n show "keeps_names s h s'" by (auto simp: keeps_names_def)
qed

lemma table_inv_incr:
  assumes "table_inv s h" "i < length (fs_itable s)" "0 < h i" "s' = upd_ino i (\<lambda>ip. ip\<lparr>i_ref := i_ref ip + 1\<rparr>) s"
  shows "table_inv s' (h(i := h i + 1))" "keeps_names s h s'"
proof -
  have n: "i_dev (ino s' j) = i_dev (ino s j) \<and> i_inum (ino s' j) = i_inum (ino s j) \<and>
      i_ref (ino s' j) = i_ref (ino s j) + (if j = i then 1 else 0)" for j
    using assms(2,4) by (auto simp: upd_ino_def nth_list_update)
  have l: "length (fs_itable s') = length (fs_itable s)" using assms(4) by (simp add: upd_ino_def)
  have p: "0 < (h(i := h i + 1)) j \<longleftrightarrow> 0 < h j" for j using assms(3) by simp
  from assms(1,2) show "table_inv s' (h(i := h i + 1))"
    unfolding table_inv_def l p by (simp add: n)
  show "keeps_names s h s'" using n by (simp add: keeps_names_def)
qed

lemma table_inv_decr:
  assumes "table_inv s h" "0 < h i" "refs s' = (refs s)[i := (i_dev (ino s i), i_inum (ino s i), i_ref (ino s i) - 1)]"
  shows "table_inv s' (h(i := h i - 1))" "keeps_names s h s'"
proof -
  have i: "i < length (fs_itable s)" using assms(1,2) by (auto simp: table_inv_def not_less [symmetric])
  let ?t = "upd_ino i (\<lambda>ip. ip\<lparr>i_ref := i_ref ip - 1\<rparr>) s"
  have r: "refs s' = refs ?t" using assms(3) i by (simp add: refs_def upd_ino_def map_update)
  have n: "i_dev (ino ?t j) = i_dev (ino s j) \<and> i_inum (ino ?t j) = i_inum (ino s j) \<and>
      i_ref (ino ?t j) = i_ref (ino s j) - (if j = i then 1 else 0)" for j
    using i by (auto simp: upd_ino_def nth_list_update)
  have l: "length (fs_itable ?t) = length (fs_itable s)" by (simp add: upd_ino_def)
  have p: "0 < h j" if "0 < (h(i := h i - 1)) j" for j using that assms(2) by (auto split: if_splits)
  have t: "table_inv ?t (h(i := h i - 1))"
    unfolding table_inv_def l
  proof (intro conjI allI impI)
    fix j assume j: "j < length (fs_itable s)"
    then show "i_ref (ino ?t j) = int ((h(i := h i - 1)) j)"
      using assms(1,2) n [of j] by (auto simp: table_inv_def)
  next
    fix j assume "length (fs_itable s) \<le> j"
    then show "(h(i := h i - 1)) j = 0" using assms(1) by (simp add: table_inv_def)
  next
    fix j k assume "j < length (fs_itable s)" "k < length (fs_itable s)"
      "0 < (h(i := h i - 1)) j" "0 < (h(i := h i - 1)) k" "i_dev (ino ?t j) = i_dev (ino ?t k)" "i_inum (ino ?t j) = i_inum (ino ?t k)"
    then show "j = k" using assms(1) p n unfolding table_inv_def by (metis (no_types, lifting))
  qed
  from table_inv_refs [OF r t] show "table_inv s' (h(i := h i - 1))" by simp
  have "i_dev (ino s' j) = i_dev (ino s j) \<and> i_inum (ino s' j) = i_inum (ino s j)" if "0 < h j" for j
  proof -
    have "j < length (fs_itable s')" using assms(1) that refs_length [OF r] l by (auto simp: table_inv_def not_less [symmetric])
    from refs_nth [OF r this] n [of j] show ?thesis by simp
  qed
  then show "keeps_names s h s'" by (simp add: keeps_names_def)
qed

lemma table_inv_iget:
  assumes "table_inv s h" "iget dev inum s = Done (i, s')"
  shows "table_inv s' (h(i := h i + 1)) \<and> keeps_names s h s' \<and> i_dev (ino s' i) = dev \<and> i_inum (ino s' i) = inum"
  using assms(2)
proof (cases rule: iget_cases)
  case hit
  then have h: "0 < h i" using assms(1) by (simp add: table_inv_def)
  note t = table_inv_incr [OF assms(1) hit(1) h hit(5)]
  from t h hit show ?thesis by (simp add: keeps_names_def)
next
  case new
  have l: "length (fs_itable s') = length (fs_itable s)" using new(4) by (simp add: upd_ino_def)
  have n: "ino s' j = (if j = i then (ino s i)\<lparr>i_dev := dev, i_inum := inum, i_ref := 1, i_valid := False\<rparr> else ino s j)"
    if "j < length (fs_itable s)" for j using new(1,4) that by (auto simp: upd_ino_def nth_list_update)
  have h: "h i = 0" using new(1,2) assms(1) by (simp add: table_inv_def)
  have o: "\<not> (i_dev (ino s j) = dev \<and> i_inum (ino s j) = inum)" if "j < length (fs_itable s)" "0 < h j" for j
    using new(3) that assms(1) nth_mem [OF that(1)] by (auto simp: table_inv_def)
  have "table_inv s' (h(i := h i + 1))"
      unfolding table_inv_def l
    proof (intro conjI allI impI)
      fix j assume j: "j < length (fs_itable s)"
      then show "i_ref (ino s' j) = int ((h(i := h i + 1)) j)" using n [OF j] h assms(1) by (simp add: table_inv_def)
    next
      fix j assume "length (fs_itable s) \<le> j"
      then show "(h(i := h i + 1)) j = 0" using assms(1) new(1) by (simp add: table_inv_def)
    next
      fix j k assume j: "j < length (fs_itable s)" "k < length (fs_itable s)"
        "0 < (h(i := h i + 1)) j" "0 < (h(i := h i + 1)) k" "i_dev (ino s' j) = i_dev (ino s' k)" "i_inum (ino s' j) = i_inum (ino s' k)"
      show "j = k"
      proof (rule ccontr)
        assume ne: "j \<noteq> k"
        show False
        proof (cases "j = i \<or> k = i")
          case True
          then show False using j(3-6) ne n [OF j(1)] n [OF j(2)] o [OF j(1)] o [OF j(2)] by auto
        next
          case False
          then have "0 < h j" "0 < h k" "i_dev (ino s j) = i_dev (ino s k)" "i_inum (ino s j) = i_inum (ino s k)"
            using j(3-6) n [OF j(1)] n [OF j(2)] by simp_all
          with assms(1) j(1,2) ne show False unfolding table_inv_def by blast
        qed
      qed
    qed
  moreover have "keeps_names s h s'" unfolding keeps_names_def
    proof (intro allI impI)
      fix j assume "0 < h j"
      moreover from this have "j < length (fs_itable s)" using assms(1) by (auto simp: table_inv_def not_less [symmetric])
      ultimately show "i_dev (ino s' j) = i_dev (ino s j) \<and> i_inum (ino s' j) = i_inum (ino s j)" using n [of j] h by auto
    qed
  ultimately show ?thesis using n [OF new(1)] by simp
qed

lemma ialloc_from_refs:
  "ialloc_from dev ty inum k s = Done (Some i, s') \<Longrightarrow> \<exists>s1 n. refs s1 = refs s \<and> iget dev n s1 = Done (i, s')"
  by (induction dev ty inum k s rule: ialloc_from.induct)
    (auto simp: Let_def dest: refs_log_put split: if_splits)

lemma ref_step_inv:
  assumes "ref_step (s, h) (s', h')" "table_inv s h"
  shows "table_inv s' h' \<and> keeps_names s h s'"
  using assms(1)
proof (cases rule: ref_step.cases)
  case (rs_iget dev inum i)
  with table_inv_iget [OF assms(2)] show ?thesis by simp
next
  case (rs_ialloc dev ty i)
  then obtain s1 n where s1: "refs s1 = refs s" "iget dev n s1 = Done (i, s')"
    using ialloc_from_refs [of dev ty 1 _ s i s'] unfolding ialloc_def by blast
  note t = table_inv_refs [OF s1(1) assms(2)]
  from t(2) table_inv_iget [OF t(1) s1(2)] rs_ialloc(1) show ?thesis by (simp add: keeps_names_def)
next
  case (rs_idup i)
  then have "i < length (fs_itable s)" using assms(2) by (auto simp: table_inv_def not_less [symmetric])
  from table_inv_incr [OF assms(2) this] rs_idup show ?thesis by (simp add: idup_def)
next
  case (rs_iput i)
  then have "i < length (fs_itable s)" using assms(2) by (auto simp: table_inv_def not_less [symmetric])
  with refs_iput [OF rs_iput(3)] have "refs s' = (refs s)[i := (i_dev (ino s i), i_inum (ino s i), i_ref (ino s i) - 1)]" by simp
  from table_inv_decr [OF assms(2) rs_iput(2) this] rs_iput(1) show ?thesis by simp
next
  case rs_other
  with table_inv_refs [OF _ assms(2)] show ?thesis by simp
qed

text \<open>C31: The inode table holds at most one copy of an inode. From an empty table, however calls of
  \<^verbatim>\<open>iget\<close>, \<^verbatim>\<open>ialloc\<close>, \<^verbatim>\<open>idup\<close> and \<^verbatim>\<open>iput\<close> interleave with operations that leave the reference counts alone,
  \<^verbatim>\<open>ref\<close> counts the references held; two references to the same inode are the same pointer; and an
  entry that is referenced stays with its inode in every step.\<close>

theorem inode_table_unique:
  assumes "ref_step\<^sup>*\<^sup>* (s0, \<lambda>_. 0) (s, h)" "\<And>ip. ip \<in> set (fs_itable s0) \<Longrightarrow> i_ref ip = 0"
  shows "(0 < h i \<longrightarrow> i < length (fs_itable s) \<and> i_ref (ino s i) = int (h i)) \<and>
    (0 < h i \<and> 0 < h j \<and> i_dev (ino s i) = i_dev (ino s j) \<and> i_inum (ino s i) = i_inum (ino s j) \<longrightarrow> i = j) \<and>
    (ref_step (s, h) (s', h') \<and> 0 < h i \<longrightarrow> i_dev (ino s' i) = i_dev (ino s i) \<and> i_inum (ino s' i) = i_inum (ino s i))"
proof -
  have "table_inv s0 (\<lambda>_. 0)" using assms(2) by (simp add: table_inv_def)
  with assms(1) have inv: "table_inv s h"
    by (induction rule: rtranclp_induct2) (use ref_step_inv in blast)+
  have l: "i < length (fs_itable s)" if "0 < h i" for i using inv that by (auto simp: table_inv_def not_less [symmetric])
  have 1: "i < length (fs_itable s) \<and> i_ref (ino s i) = int (h i)" if "0 < h i"
    using inv l [OF that] by (simp add: table_inv_def)
  have 2: "i = j" if "0 < h i" "0 < h j" "i_dev (ino s i) = i_dev (ino s j)" "i_inum (ino s i) = i_inum (ino s j)"
    using inv l [OF that(1)] l [OF that(2)] that unfolding table_inv_def by blast
  have 3: "i_dev (ino s' i) = i_dev (ino s i) \<and> i_inum (ino s' i) = i_inum (ino s i)" if "ref_step (s, h) (s', h')" "0 < h i"
    using ref_step_inv [OF that(1) inv] that(2) by (simp add: keeps_names_def)
  from 1 2 3 show ?thesis by blast
qed

theorem inode_table_unique_witness:
  "\<exists>s h. ref_step\<^sup>*\<^sup>* (demo_fs, \<lambda>_. 0) (s, h) \<and> 0 < h 0 \<and> i_ref (ino s 0) = int (h 0) \<and> i_inum (ino s 0) = 5"
proof -
  let ?h = "(\<lambda>_. 0 :: nat)(0 := 1)"
  obtain s where s: "iget 1 5 demo_fs = Done (0, s)" "i_inum (ino s 0) = 5"
    by (simp add: iget_def demo_fs_def numeral_2_eq_2 upd_ino_def)
  have r: "ref_step\<^sup>*\<^sup>* (demo_fs, \<lambda>_. 0) (s, ?h)" using ref_step.rs_iget [OF s(1), of "\<lambda>_. 0"] by (simp add: r_into_rtranclp)
  have "i_ref ip = 0" if "ip \<in> set (fs_itable demo_fs)" for ip using that by (auto simp: demo_fs_def)
  from inode_table_unique [OF r this, of 0 0 s ?h] r s(2) show ?thesis
    by (intro exI [of _ s] exI [of _ ?h]) simp
qed

end
