(* ===== verification/Fs_Rw.thy ===== *)
theory Fs_Rw
  imports Fs_Inode
begin

text \<open>
  Reading and writing the contents of an inode in \<^verbatim>\<open>kernel/fs.c\<close>. The memory that \<^verbatim>\<open>either_copyout\<close> and
  \<^verbatim>\<open>either_copyin\<close> work on is a parameter, since \<^verbatim>\<open>readi\<close> and \<^verbatim>\<open>writei\<close> serve both user memory and local
  variables of the kernel: \<open>out d t bs\<close> stores the bytes \<open>bs\<close> at offset \<open>t\<close> of the destination, whose
  state is \<open>d\<close>, and \<open>inp t m\<close> fetches \<open>m\<close> bytes from offset \<open>t\<close> of the source. When a fetch fails the
  bytes before the fault have been copied.
\<close>

section \<open>Operations\<close>

function readi_loop ::
  "('d \<Rightarrow> nat \<Rightarrow> u8 list \<Rightarrow> (int \<times> 'd) res) \<Rightarrow> nat \<Rightarrow> nat \<Rightarrow> nat \<Rightarrow> nat \<Rightarrow> 'd \<Rightarrow> fsys \<Rightarrow> (int \<times> 'd \<times> fsys) fs" where
  "readi_loop out i off n tot d s =
     (if tot < n then
        fbind (bmap i (off div BSIZE) s) (\<lambda>(addr, s1).
          if addr = 0 then Done (int tot, d, s1)
          else
            (let m = min (n - tot) (BSIZE - off mod BSIZE) in
             fbind (of_res (out d tot (slice (off mod BSIZE) m (blk s1 addr)))) (\<lambda>(r, d1).
               if r = -1 then Done (-1, d1, s1)
               else readi_loop out i (off + m) n (tot + m) d1 s1)))
      else Done (int tot, d, s))"
  by auto
termination
  by (relation "measure (\<lambda>(out, i, off, n, tot, d, s). n - tot)") (auto simp: BSIZE_def)

definition readi ::
  "('d \<Rightarrow> nat \<Rightarrow> u8 list \<Rightarrow> (int \<times> 'd) res) \<Rightarrow> nat \<Rightarrow> nat \<Rightarrow> nat \<Rightarrow> 'd \<Rightarrow> fsys \<Rightarrow> (int \<times> 'd \<times> fsys) fs" where
  "readi out i off n d s =
     (if off > i_size (ino s i) \<or> (off + n) mod 2 ^ 32 < off then Done (0, d, s)
      else readi_loop out i off (if (off + n) mod 2 ^ 32 > i_size (ino s i) then i_size (ino s i) - off else n) 0 d s)"

function writei_loop ::
  "(nat \<Rightarrow> nat \<Rightarrow> (int \<times> u8 list) res) \<Rightarrow> nat \<Rightarrow> nat \<Rightarrow> nat \<Rightarrow> nat \<Rightarrow> fsys \<Rightarrow> (nat \<times> nat \<times> fsys) fs" where
  "writei_loop inp i off n tot s =
     (if tot < n then
        fbind (bmap i (off div BSIZE) s) (\<lambda>(addr, s1).
          if addr = 0 then Done (tot, off, s1)
          else
            (let m = min (n - tot) (BSIZE - off mod BSIZE) in
             fbind (of_res (inp tot m)) (\<lambda>(r, bs).
               let x = wr (off mod BSIZE) bs (blk s1 addr) in
               if r = -1 then Done (tot, off, set_blk addr x s1)
               else fbind (log_put addr x s1) (writei_loop inp i (off + m) n (tot + m)))))
      else Done (tot, off, s))"
  by auto
termination
  by (relation "measure (\<lambda>(inp, i, off, n, tot, s). n - tot)") (auto simp: BSIZE_def)

definition writei :: "(nat \<Rightarrow> nat \<Rightarrow> (int \<times> u8 list) res) \<Rightarrow> nat \<Rightarrow> nat \<Rightarrow> nat \<Rightarrow> fsys \<Rightarrow> (int \<times> fsys) fs" where
  "writei inp i off n s =
     (if off > i_size (ino s i) \<or> (off + n) mod 2 ^ 32 < off then Done (-1, s)
      else if (off + n) mod 2 ^ 32 > MAXFILE * BSIZE then Done (-1, s)
      else
        fbind (writei_loop inp i off n 0 s) (\<lambda>(tot, off1, s1).
          let s2 = (if off1 > i_size (ino s1 i) then upd_ino i (\<lambda>ip. ip\<lparr>i_size := off1\<rparr>) s1 else s1) in
          fbind (iupdate i s2) (\<lambda>s3. Done (int tot, s3))))"

declare readi_loop.simps [simp del] writei_loop.simps [simp del]

text \<open>A local variable of the kernel as a destination and as a source.\<close>

definition kbuf_out :: "u8 list \<Rightarrow> nat \<Rightarrow> u8 list \<Rightarrow> (int \<times> u8 list) res" where
  "kbuf_out d t bs = Ok (0, wr t bs d)"

definition kbuf_in :: "u8 list \<Rightarrow> nat \<Rightarrow> nat \<Rightarrow> (int \<times> u8 list) res" where
  "kbuf_in d t m = Ok (0, slice t m d)"

section \<open>The blocks of a file\<close>

text \<open>
  The address of block \<open>bn\<close> of a file, 0 if it has none, in an array \<open>B\<close> of disk blocks; \<open>core\<close> says
  that the addresses are distinct blocks of the data area that are in use.
\<close>

definition fblk :: "inode \<Rightarrow> (nat \<Rightarrow> u8 list) \<Rightarrow> nat \<Rightarrow> nat" where
  "fblk ip B bn =
     (if bn < NDIRECT then i_addrs ip ! bn
      else if i_addrs ip ! NDIRECT = 0 then 0
      else rd 4 (4 * (bn - NDIRECT)) (B (i_addrs ip ! NDIRECT)))"

definition fbyte :: "inode \<Rightarrow> (nat \<Rightarrow> u8 list) \<Rightarrow> nat \<Rightarrow> u8" where
  "fbyte ip B p = B (fblk ip B (p div BSIZE)) ! (p mod BSIZE)"

definition good :: "superblock \<Rightarrow> (nat \<Rightarrow> bool) \<Rightarrow> nat \<Rightarrow> bool" where
  "good sb U a \<longleftrightarrow> a = 0 \<or> bmap_end sb < a \<and> a < sb_size sb \<and> U a"

definition core :: "superblock \<Rightarrow> (nat \<Rightarrow> bool) \<Rightarrow> inode \<Rightarrow> (nat \<Rightarrow> u8 list) \<Rightarrow> bool" where
  "core sb U ip B \<longleftrightarrow> length (i_addrs ip) = 13 \<and> sb_size sb \<le> 2 ^ 32 \<and> good sb U (i_addrs ip ! NDIRECT) \<and>
     (\<forall>b. length (B b) = BSIZE) \<and>
     (\<forall>bn < MAXFILE. good sb U (fblk ip B bn) \<and> (fblk ip B bn \<noteq> 0 \<longrightarrow> fblk ip B bn \<noteq> i_addrs ip ! NDIRECT)) \<and>
     (\<forall>bn < MAXFILE. \<forall>bm < MAXFILE. fblk ip B bn = fblk ip B bm \<longrightarrow> fblk ip B bn \<noteq> 0 \<longrightarrow> bn = bm)"

lemma core_cong:
  assumes "core sb U ip B" "i_addrs ip' = i_addrs ip" "\<And>b. length (B' b) = BSIZE"
    and "i_addrs ip ! NDIRECT \<noteq> 0 \<Longrightarrow> B' (i_addrs ip ! NDIRECT) = B (i_addrs ip ! NDIRECT)"
    and "\<And>a. a < sb_size sb \<Longrightarrow> U a \<Longrightarrow> U' a"
  shows "core sb U' ip' B'" "fblk ip' B' = fblk ip B"
proof -
  show f: "fblk ip' B' = fblk ip B" using assms(2,4) by (auto simp: fblk_def)
  have "good sb U a \<Longrightarrow> good sb U' a" for a using assms(5) by (auto simp: good_def)
  then show "core sb U' ip' B'" using assms(1-3) unfolding core_def f by simp
qed

text \<open>The three ways in which a file gets a new block \<open>b\<close>.\<close>

lemma core_new:
  assumes c: "core sb U ip B" and b: "b \<noteq> 0" "good sb U' b" "\<not> U b" and U': "\<And>a. a < sb_size sb \<Longrightarrow> U a \<Longrightarrow> U' a"
    and ip': "length (i_addrs ip') = 13" "i_addrs ip' ! NDIRECT = i_addrs ip ! NDIRECT" and B': "\<And>b. length (B' b) = BSIZE"
    and bn: "bn < MAXFILE" "fblk ip' B' bn = b" "\<And>bm. bm < MAXFILE \<Longrightarrow> bm \<noteq> bn \<Longrightarrow> fblk ip' B' bm = fblk ip B bm"
  shows "core sb U' ip' B'"
proof -
  have g: "good sb U a \<Longrightarrow> good sb U' a" for a using U' by (auto simp: good_def)
  have o: "fblk ip B bm \<noteq> b" if "bm < MAXFILE" for bm using c b that by (auto simp: core_def good_def)
  have i: "i_addrs ip ! NDIRECT \<noteq> b" using c b by (auto simp: core_def good_def)
  have "good sb U' (fblk ip' B' bm) \<and> (fblk ip' B' bm \<noteq> 0 \<longrightarrow> fblk ip' B' bm \<noteq> i_addrs ip' ! NDIRECT)" if "bm < MAXFILE" for bm
    using c that bn(2) bn(3) [OF that] b(2) i g ip'(2) by (cases "bm = bn") (auto simp: core_def)
  moreover have "bm = bk" if "bm < MAXFILE" "bk < MAXFILE" "fblk ip' B' bm = fblk ip' B' bk" "fblk ip' B' bm \<noteq> 0" for bm bk
  proof (cases "bm = bn \<or> bk = bn")
    case True
    then show ?thesis using that bn(2) bn(3) [of bm] bn(3) [of bk] o by metis
  next
    case False
    then have "fblk ip B bm = fblk ip B bk" "fblk ip B bm \<noteq> 0" using that bn(3) by auto
    then show ?thesis using c that(1,2) unfolding core_def by blast
  qed
  ultimately show ?thesis using c ip' B' g unfolding core_def by auto
qed

definition fstate :: "fsys \<Rightarrow> nat \<Rightarrow> bool" where
  "fstate s i \<longleftrightarrow> i < length (fs_itable s) \<and> bitmap_ok s \<and> core (fs_sb s) (in_use s) (ino s i) (blk s)"

text \<open>
  How a state may change when blocks are added to the file of entry \<open>i\<close>: nothing happens to the other
  entries, to the blocks before the bitmap and to the data blocks in use, the indirect block apart.
\<close>

definition extends :: "fsys \<Rightarrow> nat \<Rightarrow> fsys \<Rightarrow> bool" where
  "extends s i s' \<longleftrightarrow> fs_sb s' = fs_sb s \<and> length (fs_itable s') = length (fs_itable s) \<and> (\<forall>j. j \<noteq> i \<longrightarrow> ino s' j = ino s j) \<and>
     ino s' i = (ino s i)\<lparr>i_addrs := i_addrs (ino s' i)\<rparr> \<and> (\<forall>c < sb_size (fs_sb s). in_use s c \<longrightarrow> in_use s' c) \<and>
     (i_addrs (ino s' i) ! NDIRECT = i_addrs (ino s i) ! NDIRECT \<or>
       i_addrs (ino s' i) ! NDIRECT < sb_size (fs_sb s) \<and> \<not> in_use s (i_addrs (ino s' i) ! NDIRECT)) \<and>
     (\<forall>c < sb_bmapstart (fs_sb s). blk s' c = blk s c) \<and>
     (\<forall>c. bmap_end (fs_sb s) < c \<and> c < sb_size (fs_sb s) \<and> in_use s c \<and> c \<noteq> i_addrs (ino s i) ! NDIRECT \<longrightarrow> blk s' c = blk s c)"

lemma extends_refl: "extends s i s"
  by (simp add: extends_def)

lemma extends_trans:
  assumes "extends s i s'" "extends s' i s''"
  shows "extends s i s''"
proof -
  let ?n = "\<lambda>s. i_addrs (ino s i) ! NDIRECT"
  have 1: "fs_sb s' = fs_sb s" "length (fs_itable s') = length (fs_itable s)" "\<And>j. j \<noteq> i \<Longrightarrow> ino s' j = ino s j"
      "ino s' i = (ino s i)\<lparr>i_addrs := i_addrs (ino s' i)\<rparr>" "\<And>c. c < sb_size (fs_sb s) \<Longrightarrow> in_use s c \<Longrightarrow> in_use s' c"
      "?n s' = ?n s \<or> ?n s' < sb_size (fs_sb s) \<and> \<not> in_use s (?n s')" "\<And>c. c < sb_bmapstart (fs_sb s) \<Longrightarrow> blk s' c = blk s c"
      "\<And>c. bmap_end (fs_sb s) < c \<Longrightarrow> c < sb_size (fs_sb s) \<Longrightarrow> in_use s c \<Longrightarrow> c \<noteq> ?n s \<Longrightarrow> blk s' c = blk s c"
    using assms(1) unfolding extends_def by blast+
  have 2: "fs_sb s'' = fs_sb s" "length (fs_itable s'') = length (fs_itable s)" "\<And>j. j \<noteq> i \<Longrightarrow> ino s'' j = ino s' j"
      "ino s'' i = (ino s' i)\<lparr>i_addrs := i_addrs (ino s'' i)\<rparr>" "\<And>c. c < sb_size (fs_sb s) \<Longrightarrow> in_use s' c \<Longrightarrow> in_use s'' c"
      "?n s'' = ?n s' \<or> ?n s'' < sb_size (fs_sb s) \<and> \<not> in_use s' (?n s'')" "\<And>c. c < sb_bmapstart (fs_sb s) \<Longrightarrow> blk s'' c = blk s' c"
      "\<And>c. bmap_end (fs_sb s) < c \<Longrightarrow> c < sb_size (fs_sb s) \<Longrightarrow> in_use s' c \<Longrightarrow> c \<noteq> ?n s' \<Longrightarrow> blk s'' c = blk s' c"
    using assms(2) 1(1,2) unfolding extends_def by simp_all
  have "ino s'' i = (ino s i)\<lparr>i_addrs := i_addrs (ino s'' i)\<rparr>" using 1(4) 2(4) by (metis inode.surjective inode.update_convs(11))
  moreover have "?n s'' = ?n s \<or> ?n s'' < sb_size (fs_sb s) \<and> \<not> in_use s (?n s'')" using 1(5,6) 2(6) by metis
  moreover have "blk s'' c = blk s c" if "bmap_end (fs_sb s) < c" "c < sb_size (fs_sb s)" "in_use s c" "c \<noteq> ?n s" for c
  proof -
    have "c \<noteq> ?n s'" using that 1(6) by auto
    from 2(8) [OF that(1,2) 1(5) [OF that(2,3)] this] 1(8) [OF that] show ?thesis by simp
  qed
  ultimately show ?thesis unfolding extends_def using 1(3,5,7) 2(1-3,5,7) by simp
qed

lemma block_cases:
  assumes "fstate s i" "room s (Suc (Suc k))"
  obtains (full) "balloc s = Done (0, s)" "\<And>c. c < sb_size (fs_sb s) \<Longrightarrow> in_use s c"
  | (got) b s1 where "balloc s = Done (b, s1)" "b \<noteq> 0" "room s1 k" "fs_sb s1 = fs_sb s" "fs_itable s1 = fs_itable s"
      "bitmap_ok s1" "bmap_end (fs_sb s) < b" "b < sb_size (fs_sb s)" "\<not> in_use s b" "blk s1 b = replicate BSIZE 0"
      "\<And>c. c < sb_size (fs_sb s) \<Longrightarrow> in_use s1 c \<longleftrightarrow> c = b \<or> in_use s c"
      "\<And>c. c \<noteq> b \<Longrightarrow> bmap_end (fs_sb s) < c \<or> c < sb_bmapstart (fs_sb s) \<Longrightarrow> blk s1 c = blk s c"
proof -
  have "room s 2" by (rule room_mono [OF assms(2)]) simp
  then show thesis
  proof (cases rule: balloc_cases)
    case full
    from full(2,1) show thesis by (rule that(1))
  next
    case (got b s1)
    have ok: "bitmap_ok s" using assms(1) by (simp add: fstate_def)
    note t = take_block_Done [OF ok got(1-3)]
    from take_block_room [OF assms(2), of b] got(3) have r: "room s1 k" by auto
    have "b \<noteq> 0" using t(7) by simp
    from that(2) [OF got(4) this r t(5,6,4,7) got(1,2) t(2)] t(1,3) show thesis by blast
  qed
qed

lemma extends_alloc:
  assumes "i < length (fs_itable s)" "fs_sb s1 = fs_sb s" "fs_itable s1 = fs_itable s" "bmap_end (fs_sb s) < b" "b < sb_size (fs_sb s)" "\<not> in_use s b"
    and u: "\<And>c. c < sb_size (fs_sb s) \<Longrightarrow> in_use s1 c \<longleftrightarrow> c = b \<or> in_use s c"
    and d: "\<And>c. c \<noteq> b \<Longrightarrow> bmap_end (fs_sb s) < c \<or> c < sb_bmapstart (fs_sb s) \<Longrightarrow> blk s1 c = blk s c"
    and s': "s' = upd_ino i (\<lambda>ip. ip\<lparr>i_addrs := (i_addrs ip)[k := b]\<rparr>) s1" and len: "length (i_addrs (ino s i)) = 13"
  shows "extends s i s'"
proof -
  have B: "blk s' = blk s1" and U: "in_use s' = in_use s1" using s' assms(2) by (auto simp: upd_ino_def blk_def in_use_def)
  have ip: "ino s' i = (ino s i)\<lparr>i_addrs := (i_addrs (ino s i))[k := b]\<rparr>" using assms(1,3) s' by (simp add: upd_ino_def)
  have "sb_bmapstart (fs_sb s) \<le> bmap_end (fs_sb s)" by (simp add: bmap_end_def BBLOCK_def)
  then have d1: "blk s1 c = blk s c" if "c < sb_bmapstart (fs_sb s)" for c using that assms(4) by (intro d) auto
  have d2: "blk s1 c = blk s c" if "bmap_end (fs_sb s) < c" "in_use s c" for c using that assms(6) by (intro d) auto
  have n: "i_addrs (ino s' i) ! NDIRECT = i_addrs (ino s i) ! NDIRECT \<or>
      i_addrs (ino s' i) ! NDIRECT < sb_size (fs_sb s) \<and> \<not> in_use s (i_addrs (ino s' i) ! NDIRECT)"
    using ip len assms(5,6) by (cases "k = NDIRECT") (auto simp: NDIRECT_def)
  have t: "fs_sb s' = fs_sb s" "length (fs_itable s') = length (fs_itable s)" "\<And>j. j \<noteq> i \<Longrightarrow> ino s' j = ino s j"
    using s' assms(2,3) by (simp_all add: upd_ino_def)
  from n d1 d2 u t show ?thesis unfolding extends_def B U by (simp add: ip)
qed

lemma new_direct:
  assumes "fstate s i" "bn < NDIRECT" "i_addrs (ino s i) ! bn = 0"
    and "b \<noteq> 0" "fs_sb s1 = fs_sb s" "fs_itable s1 = fs_itable s"
      "bitmap_ok s1" "bmap_end (fs_sb s) < b" "b < sb_size (fs_sb s)" "\<not> in_use s b"
    and u: "\<And>c. c < sb_size (fs_sb s) \<Longrightarrow> in_use s1 c \<longleftrightarrow> c = b \<or> in_use s c"
    and d: "\<And>c. c \<noteq> b \<Longrightarrow> bmap_end (fs_sb s) < c \<or> c < sb_bmapstart (fs_sb s) \<Longrightarrow> blk s1 c = blk s c"
    and s': "s' = upd_ino i (\<lambda>ip. ip\<lparr>i_addrs := (i_addrs ip)[bn := b]\<rparr>) s1"
  shows "fstate s' i" "extends s i s'" "fblk (ino s' i) (blk s') bn = b"
    "\<And>bm. bm < MAXFILE \<Longrightarrow> bm \<noteq> bn \<Longrightarrow> fblk (ino s' i) (blk s') bm = fblk (ino s i) (blk s) bm" "blk s' = blk s1" "in_use s' = in_use s1"
proof -
  have i: "i < length (fs_itable s)" and c: "core (fs_sb s) (in_use s) (ino s i) (blk s)" and ok: "bitmap_ok s"
    using assms(1) by (auto simp: fstate_def)
  have ip: "ino s' i = (ino s i)\<lparr>i_addrs := (i_addrs (ino s i))[bn := b]\<rparr>" using i assms(6) s' by (simp add: upd_ino_def)
  show B: "blk s' = blk s1" and U: "in_use s' = in_use s1" using s' assms(5) by (auto simp: upd_ino_def blk_def in_use_def)
  have sb: "fs_sb s' = fs_sb s" using s' assms(5) by (simp add: upd_ino_def)
  have len: "length (i_addrs (ino s i)) = 13" using c by (simp add: core_def)
  have g: "good (fs_sb s) (in_use s) (i_addrs (ino s i) ! NDIRECT)" using c by (simp add: core_def)
  have n: "i_addrs (ino s' i) ! NDIRECT = i_addrs (ino s i) ! NDIRECT" using ip assms(2) by (simp add: NDIRECT_def)
  have ind: "blk s1 (i_addrs (ino s i) ! NDIRECT) = blk s (i_addrs (ino s i) ! NDIRECT)" if "i_addrs (ino s i) ! NDIRECT \<noteq> 0"
    using g assms(10) that by (intro d) (auto simp: good_def)
  show fb: "fblk (ino s' i) (blk s') bn = b" using ip assms(2) len by (simp add: fblk_def NDIRECT_def)
  show fo: "fblk (ino s' i) (blk s') bm = fblk (ino s i) (blk s) bm" if "bm < MAXFILE" "bm \<noteq> bn" for bm
    using ip n ind that B by (simp add: fblk_def)
  have lens: "length (blk s1 b) = BSIZE" for b using assms(7) by (simp add: bitmap_ok_def)
  have "core (fs_sb s) (in_use s1) (ino s' i) (blk s')"
    by (rule core_new [OF c assms(4) _ assms(10) _ _ n _ _ fb fo])
      (use assms(2,8,9) u ip len lens B in \<open>auto simp: good_def MAXFILE_def\<close>)
  moreover have "bitmap_ok s'" using assms(7) B U sb assms(5) by (simp add: bitmap_ok_def)
  ultimately show "fstate s' i" using i s' assms(6) sb U by (simp add: fstate_def upd_ino_def)
  show "extends s i s'" by (rule extends_alloc [OF i assms(5,6,8,9,10) u d s' len])
qed

lemma rd_zeros [simp]: "rd k off (replicate n 0) = 0"
proof -
  have "of_le_bytes (replicate m 0) = 0" for m by (induction m) simp_all
  then show ?thesis by (simp add: rd_def slice_def min_def)
qed

lemma new_indirect:
  assumes "fstate s i" "i_addrs (ino s i) ! NDIRECT = 0"
    and "b \<noteq> 0" "fs_sb s1 = fs_sb s" "fs_itable s1 = fs_itable s"
      "bitmap_ok s1" "bmap_end (fs_sb s) < b" "b < sb_size (fs_sb s)" "\<not> in_use s b" "blk s1 b = replicate BSIZE 0"
    and u: "\<And>c. c < sb_size (fs_sb s) \<Longrightarrow> in_use s1 c \<longleftrightarrow> c = b \<or> in_use s c"
    and d: "\<And>c. c \<noteq> b \<Longrightarrow> bmap_end (fs_sb s) < c \<or> c < sb_bmapstart (fs_sb s) \<Longrightarrow> blk s1 c = blk s c"
    and s': "s' = upd_ino i (\<lambda>ip. ip\<lparr>i_addrs := (i_addrs ip)[NDIRECT := b]\<rparr>) s1"
  shows "fstate s' i" "extends s i s'" "i_addrs (ino s' i) ! NDIRECT = b"
    "fblk (ino s' i) (blk s') = fblk (ino s i) (blk s)"
proof -
  have i: "i < length (fs_itable s)" and c: "core (fs_sb s) (in_use s) (ino s i) (blk s)" and ok: "bitmap_ok s"
    using assms(1) by (auto simp: fstate_def)
  have ip: "ino s' i = (ino s i)\<lparr>i_addrs := (i_addrs (ino s i))[NDIRECT := b]\<rparr>" using i assms(5) s' by (simp add: upd_ino_def)
  have B: "blk s' = blk s1" and U: "in_use s' = in_use s1" using s' assms(4) by (auto simp: upd_ino_def blk_def in_use_def)
  have sb: "fs_sb s' = fs_sb s" using s' assms(4) by (simp add: upd_ino_def)
  have len: "length (i_addrs (ino s i)) = 13" using c by (simp add: core_def)
  show n: "i_addrs (ino s' i) ! NDIRECT = b" using ip len by (simp add: NDIRECT_def)
  show f: "fblk (ino s' i) (blk s') = fblk (ino s i) (blk s)"
    using ip n assms(2,3,10) B by (auto simp: fblk_def)
  have g: "good (fs_sb s) (in_use s) a \<Longrightarrow> good (fs_sb s) (in_use s1) a \<and> a \<noteq> b" for a
    using u assms(3,9) by (auto simp: good_def)
  have gb: "good (fs_sb s) (in_use s1) b" using assms(7,8) u by (simp add: good_def)
  have "core (fs_sb s) (in_use s1) (ino s' i) (blk s')"
    unfolding core_def f n using c g gb ip len assms(6) B by (auto simp: core_def bitmap_ok_def)
  moreover have "bitmap_ok s'" using assms(6) B U sb assms(4) by (simp add: bitmap_ok_def)
  ultimately show "fstate s' i" using i s' assms(5) sb U by (simp add: fstate_def upd_ino_def)
  show "extends s i s'" by (rule extends_alloc [OF i assms(4,5,7,8,9) u d s' len])
qed

lemma new_entry:
  assumes "fstate s i" "NDIRECT \<le> bn" "bn < MAXFILE" "fblk (ino s i) (blk s) bn = 0" "i_addrs (ino s i) ! NDIRECT = ind" "ind \<noteq> 0"
    and "b \<noteq> 0" "fs_sb s1 = fs_sb s" "fs_itable s1 = fs_itable s"
      "bitmap_ok s1" "bmap_end (fs_sb s) < b" "b < sb_size (fs_sb s)" "\<not> in_use s b" "blk s1 b = replicate BSIZE 0"
    and u: "\<And>c. c < sb_size (fs_sb s) \<Longrightarrow> in_use s1 c \<longleftrightarrow> c = b \<or> in_use s c"
    and d: "\<And>c. c \<noteq> b \<Longrightarrow> bmap_end (fs_sb s) < c \<or> c < sb_bmapstart (fs_sb s) \<Longrightarrow> blk s1 c = blk s c"
    and s': "log_put ind (wr (4 * (bn - NDIRECT)) (le_bytes 4 b) (blk s ind)) s1 = Done s'"
  shows "fstate s' i" "extends s i s'" "fblk (ino s' i) (blk s') bn = b" "blk s' b = replicate BSIZE 0"
    "\<And>bm. bm < MAXFILE \<Longrightarrow> bm \<noteq> bn \<Longrightarrow> fblk (ino s' i) (blk s') bm = fblk (ino s i) (blk s) bm"
proof -
  have i: "i < length (fs_itable s)" and c: "core (fs_sb s) (in_use s) (ino s i) (blk s)" and ok: "bitmap_ok s"
    using assms(1) by (auto simp: fstate_def)
  let ?x = "wr (4 * (bn - NDIRECT)) (le_bytes 4 b) (blk s ind)"
  note p = log_put_Done [OF s']
  have B: "blk s' = (blk s1)(ind := ?x)" by (rule p(1))
  have sb: "fs_sb s' = fs_sb s" and it: "fs_itable s' = fs_itable s" using p assms(8,9) by simp_all
  have gi: "bmap_end (fs_sb s) < ind" "ind < sb_size (fs_sb s)" "in_use s ind" "ind \<noteq> b"
    using c assms(5,6,13) by (auto simp: core_def good_def)
  have le: "BBLOCK c (fs_sb s) \<noteq> ind" if "c < sb_size (fs_sb s)" for c using BBLOCK_le [OF that] gi(1) by simp
  have U: "in_use s' c \<longleftrightarrow> in_use s1 c" if "c < sb_size (fs_sb s)" for c
    using le [OF that] B p(2) assms(8) by (simp add: in_use_def)
  have l: "length (blk s ind) = BSIZE" using c by (simp add: core_def)
  have bn4: "4 * (bn - NDIRECT) + 4 \<le> BSIZE" using assms(2,3) by (simp add: MAXFILE_def NINDIRECT_def NDIRECT_def BSIZE_def)
  have b32: "b < 2 ^ 32" using assms(12) c by (simp add: core_def)
  show fb: "fblk (ino s' i) (blk s') bn = b"
    using assms(2,5,6) it B rd_wr_same [of "4 * (bn - NDIRECT)" 4 "blk s ind" b] l bn4 b32 by (simp add: fblk_def)
  show zb: "blk s' b = replicate BSIZE 0" using B gi(4) assms(14) by simp
  show fo: "fblk (ino s' i) (blk s') bm = fblk (ino s i) (blk s) bm" if "bm < MAXFILE" "bm \<noteq> bn" for bm
  proof (cases "bm < NDIRECT")
    case True
    then show ?thesis using it by (simp add: fblk_def)
  next
    case False
    then have "4 * (bm - NDIRECT) + 4 \<le> BSIZE" "4 * (bm - NDIRECT) + 4 \<le> 4 * (bn - NDIRECT) \<or> 4 * (bn - NDIRECT) + 4 \<le> 4 * (bm - NDIRECT)"
      using that assms(2) by (auto simp: MAXFILE_def NINDIRECT_def NDIRECT_def BSIZE_def)
    then have "rd 4 (4 * (bm - NDIRECT)) ?x = rd 4 (4 * (bm - NDIRECT)) (blk s ind)"
      using l bn4 by (intro rd_wr_other) simp_all
    then show ?thesis using False it B assms(5,6) by (simp add: fblk_def)
  qed
  have lens: "length (blk s' c) = BSIZE" for c using assms(10) B l bn4 by (simp add: bitmap_ok_def)
  have "core (fs_sb s) (in_use s') (ino s' i) (blk s')"
    by (rule core_new [OF c assms(7) _ assms(13) _ _ _ lens assms(3) fb fo])
      (use assms(11,12) u U c it in \<open>auto simp: good_def core_def\<close>)
  moreover have "bitmap_ok s'"
    using assms(8,10,12) lens U sb assms(11) by (auto simp: bitmap_ok_def)
  ultimately show "fstate s' i" using i sb it by (simp add: fstate_def)
  have "sb_bmapstart (fs_sb s) \<le> bmap_end (fs_sb s)" by (simp add: bmap_end_def BBLOCK_def)
  then have d1: "blk s' c = blk s c" if "c < sb_bmapstart (fs_sb s)" for c using that assms(11) gi(1) B d [of c] by simp
  have d2: "blk s' c = blk s c" if "bmap_end (fs_sb s) < c" "in_use s c" "c \<noteq> ind" for c using that assms(13) B d [of c] by auto
  show "extends s i s'" unfolding extends_def using sb it U u d1 d2 assms(5) by simp
qed

text \<open>What \<^verbatim>\<open>bmap\<close> does: the block, if there is one or one can be had, and nothing to the other blocks.\<close>

definition bmap_post :: "fsys \<Rightarrow> nat \<Rightarrow> nat \<Rightarrow> nat \<Rightarrow> fsys \<Rightarrow> bool" where
  "bmap_post s i bn a s' \<longleftrightarrow> fstate s' i \<and> extends s i s' \<and> fblk (ino s' i) (blk s') bn = a \<and>
     (\<forall>bm < MAXFILE. bm \<noteq> bn \<longrightarrow> fblk (ino s' i) (blk s') bm = fblk (ino s i) (blk s) bm) \<and>
     (fblk (ino s i) (blk s) bn \<noteq> 0 \<longrightarrow> s' = s) \<and>
     (fblk (ino s i) (blk s) bn = 0 \<longrightarrow> a \<noteq> 0 \<longrightarrow> blk s' a = replicate BSIZE 0 \<and> \<not> in_use s a) \<and>
     (a = 0 \<longrightarrow> (\<forall>c < sb_size (fs_sb s). in_use s' c))"

lemma bmap_post_trans:
  assumes "fstate s1 i" "extends s i s1" "fblk (ino s1 i) (blk s1) = fblk (ino s i) (blk s)" "bmap_post s1 i bn a s'"
    and "fblk (ino s i) (blk s) bn = 0" "bn < MAXFILE"
  shows "bmap_post s i bn a s'"
proof -
  have e: "extends s1 i s'" "fstate s' i" "fblk (ino s' i) (blk s') bn = a" using assms(4) by (simp_all add: bmap_post_def)
  have "\<not> in_use s a" if "\<not> in_use s1 a" "a \<noteq> 0"
  proof -
    have "good (fs_sb s') (in_use s') a" using e(2,3) assms(6) unfolding fstate_def core_def by auto
    then have "a < sb_size (fs_sb s)" using that(2) e(1) assms(2) by (auto simp: good_def extends_def)
    then show ?thesis using that(1) assms(2) by (auto simp: extends_def)
  qed
  moreover have "fs_sb s1 = fs_sb s" using assms(2) by (simp add: extends_def)
  ultimately show ?thesis using assms(3,4,5) extends_trans [OF assms(2) e(1)] by (simp add: bmap_post_def)
qed

lemma bmap_direct:
  assumes "fstate s i" "bn < NDIRECT" "room s (k + 2)"
  obtains a s' where "bmap i bn s = Done (a, s')" "room s' k" "bmap_post s i bn a s'"
proof (cases "i_addrs (ino s i) ! bn = 0")
  case False
  then show thesis using assms room_mono [OF assms(3), of k]
    by (intro that [of "i_addrs (ino s i) ! bn" s]) (auto simp: bmap_def Let_def bmap_post_def extends_refl fblk_def)
next
  case zero: True
  have r: "room s (Suc (Suc k))" using assms(3) by simp
  from assms(1) r show thesis
  proof (cases rule: block_cases)
    case full
    then show thesis using zero assms room_mono [OF assms(3), of k]
      by (intro that [of 0 s]) (auto simp: bmap_def Let_def bmap_post_def extends_refl fblk_def)
  next
    case (got b s1)
    let ?s' = "upd_ino i (\<lambda>ip. ip\<lparr>i_addrs := (i_addrs ip)[bn := b]\<rparr>) s1"
    note n = new_direct [OF assms(1,2) zero got(2,4,5,6,7,8,9,11,12) refl, simplified]
    have "room ?s' k" using got(3) by (simp add: room_def upd_ino_def)
    moreover have "bmap i bn s = Done (b, ?s')" using assms(2) zero got(1,2) by (simp add: bmap_def Let_def)
    moreover have "fblk (ino s i) (blk s) bn = 0" using zero assms(2) by (simp add: fblk_def)
    then have "bmap_post s i bn b ?s'" using n got(2,9,10) by (auto simp: bmap_post_def)
    ultimately show thesis using that by blast
  qed
qed

lemma bmap_entry:
  assumes "fstate s i" "NDIRECT \<le> bn" "bn < MAXFILE" "i_addrs (ino s i) ! NDIRECT = ind" "ind \<noteq> 0" "room s (k + 3)"
  obtains a s' where "bmap i bn s = Done (a, s')" "room s' k" "bmap_post s i bn a s'"
proof -
  let ?a = "rd 4 (4 * (bn - NDIRECT)) (blk s ind)"
  have f: "fblk (ino s i) (blk s) bn = ?a" using assms(2,4,5) by (simp add: fblk_def)
  have bn: "\<not> bn < NDIRECT" "bn - NDIRECT < NINDIRECT" using assms(2,3) by (auto simp: MAXFILE_def)
  show thesis
  proof (cases "?a = 0")
    case False
    then show thesis using assms f bn room_mono [OF assms(6), of k]
      by (intro that [of ?a s]) (auto simp: bmap_def Let_def bmap_post_def extends_refl)
  next
    case zero: True
    have r: "room s (Suc (Suc (Suc k)))" using assms(6) by (simp add: numeral_3_eq_3)
    from assms(1) r show thesis
    proof (cases rule: block_cases)
      case full
      then show thesis using zero assms f bn room_mono [OF assms(6), of k]
        by (intro that [of 0 s]) (auto simp: bmap_def Let_def bmap_post_def extends_refl)
    next
      case (got b s1)
      obtain s' where s': "log_put ind (wr (4 * (bn - NDIRECT)) (le_bytes 4 b) (blk s ind)) s1 = Done s'" "room s' k"
        using log_put_room [OF got(3)] by blast
      note n = new_entry [OF assms(1-3) f [unfolded zero] assms(4,5) got(2,4-12) s'(1), simplified]
      have "bmap i bn s = Done (b, s')" using bn assms(4,5) zero got(1,2) s'(1) by (simp add: bmap_def Let_def)
      moreover have "bmap_post s i bn b s'" using n got(2,9) f zero by (auto simp: bmap_post_def)
      ultimately show thesis using that s'(2) by blast
    qed
  qed
qed

lemma bmap_spec:
  assumes "fstate s i" "bn < MAXFILE" "room s (k + 5)"
  obtains a s' where "bmap i bn s = Done (a, s')" "room s' k" "bmap_post s i bn a s'"
proof -
  consider "bn < NDIRECT" | "NDIRECT \<le> bn" "i_addrs (ino s i) ! NDIRECT \<noteq> 0" | "NDIRECT \<le> bn" "i_addrs (ino s i) ! NDIRECT = 0"
    by linarith
  then show thesis
  proof cases
    case 1
    have "room s (k + 2)" by (rule room_mono [OF assms(3)]) simp
    from bmap_direct [OF assms(1) 1 this] that show thesis by blast
  next
    case 2
    have "room s (k + 3)" by (rule room_mono [OF assms(3)]) simp
    from bmap_entry [OF assms(1) 2(1) assms(2) refl 2(2) this] that show thesis by blast
  next
    case 3
    have bn: "\<not> bn < NDIRECT" "bn - NDIRECT < NINDIRECT" using assms(2) 3(1) by (auto simp: MAXFILE_def)
    have z: "fblk (ino s i) (blk s) bn = 0" using 3 by (simp add: fblk_def)
    have r: "room s (Suc (Suc (k + 3)))" using assms(3) by (simp add: numeral_eq_Suc)
    from assms(1) r show thesis
    proof (cases rule: block_cases)
      case full
      then show thesis using 3 z bn assms room_mono [OF assms(3), of k]
        by (intro that [of 0 s]) (auto simp: bmap_def Let_def bmap_post_def extends_refl)
    next
      case (got b s1)
      let ?s1 = "upd_ino i (\<lambda>ip. ip\<lparr>i_addrs := (i_addrs ip)[NDIRECT := b]\<rparr>) s1"
      note n = new_indirect [OF assms(1) 3(2) got(2,4-12) refl, simplified]
      have "room ?s1 (k + 3)" using got(3) by (simp add: room_def upd_ino_def)
      from bmap_entry [OF n(1) 3(1) assms(2) n(3) got(2) this] obtain a s' where
        s': "bmap i bn ?s1 = Done (a, s')" "room s' k" "bmap_post ?s1 i bn a s'" by blast
      have "bmap i bn s = Done (a, s')" using s'(1) bn 3(2) got(1,2) n(3) by (simp add: bmap_def Let_def)
      moreover have "bmap_post s i bn a s'" by (rule bmap_post_trans [OF n(1,2,4) s'(3) z assms(2)])
      ultimately show thesis using that s'(2) by blast
    qed
  qed
qed

section \<open>Writing and reading\<close>

text \<open>The blocks of a file, and a change that leaves everything but the file alone.\<close>

definition own :: "fsys \<Rightarrow> nat \<Rightarrow> nat set" where
  "own s i = insert (i_addrs (ino s i) ! NDIRECT) (fblk (ino s i) (blk s) ` {..<MAXFILE})"

definition touches :: "fsys \<Rightarrow> nat \<Rightarrow> fsys \<Rightarrow> bool" where
  "touches s i s' \<longleftrightarrow> fs_sb s' = fs_sb s \<and> length (fs_itable s') = length (fs_itable s) \<and> (\<forall>j. j \<noteq> i \<longrightarrow> ino s' j = ino s j) \<and>
     ino s' i = (ino s i)\<lparr>i_addrs := i_addrs (ino s' i)\<rparr> \<and> (\<forall>c < sb_size (fs_sb s). in_use s c \<longrightarrow> in_use s' c) \<and>
     (\<forall>c < sb_bmapstart (fs_sb s). blk s' c = blk s c) \<and>
     (\<forall>c. bmap_end (fs_sb s) < c \<longrightarrow> c < sb_size (fs_sb s) \<longrightarrow> in_use s c \<longrightarrow> c \<notin> own s i \<longrightarrow> blk s' c = blk s c \<and> c \<notin> own s' i)"

lemma touches_refl: "touches s i s"
  by (simp add: touches_def)

lemma touches_trans:
  assumes "touches s i s'" "touches s' i s''"
  shows "touches s i s''"
proof -
  have "ino s'' i = (ino s i)\<lparr>i_addrs := i_addrs (ino s'' i)\<rparr>"
    using assms unfolding touches_def by (metis inode.surjective inode.update_convs(11))
  with assms show ?thesis unfolding touches_def by simp
qed

lemma touches_bmap:
  assumes "bmap_post s i bn a s'"
  shows "touches s i s'"
proof -
  have e: "extends s i s'" using assms by (simp add: bmap_post_def)
  have "blk s' c = blk s c \<and> c \<notin> own s' i"
    if c: "bmap_end (fs_sb s) < c" "c < sb_size (fs_sb s)" "in_use s c" "c \<notin> own s i" for c
  proof -
    have 1: "c \<noteq> i_addrs (ino s i) ! NDIRECT" "\<And>bm. bm < MAXFILE \<Longrightarrow> c \<noteq> fblk (ino s i) (blk s) bm"
      using c(4) by (auto simp: own_def)
    then have 2: "c \<noteq> i_addrs (ino s' i) ! NDIRECT" using e c(3) by (auto simp: extends_def)
    have "c \<noteq> fblk (ino s' i) (blk s') bm" if "bm < MAXFILE" for bm
      using assms c(1,3) 1(2) [OF that] that unfolding bmap_post_def by (metis not_less_zero)
    then show ?thesis using e c 1(1) 2 by (auto simp: own_def extends_def)
  qed
  with e show ?thesis by (simp add: touches_def extends_def)
qed

lemma put_data:
  assumes "fstate s i" "bn < MAXFILE" "fblk (ino s i) (blk s) bn = a" "a \<noteq> 0" "length x = BSIZE"
    and s': "blk s' = (blk s)(a := x)" "fs_sb s' = fs_sb s" "fs_itable s' = fs_itable s"
  shows "fstate s' i" "touches s i s'" "fblk (ino s' i) (blk s') = fblk (ino s i) (blk s)"
proof -
  have c: "core (fs_sb s) (in_use s) (ino s i) (blk s)" and ok: "bitmap_ok s" using assms(1) by (auto simp: fstate_def)
  have ga: "good (fs_sb s) (in_use s) (fblk (ino s i) (blk s) bn)" "fblk (ino s i) (blk s) bn \<noteq> i_addrs (ino s i) ! NDIRECT"
    using c assms(2-4) unfolding core_def by blast+
  then have a: "bmap_end (fs_sb s) < a" "a \<noteq> i_addrs (ino s i) ! NDIRECT" using assms(3,4) by (auto simp: good_def)
  have U: "in_use s' c \<longleftrightarrow> in_use s c" if "c < sb_size (fs_sb s)" for c
    using BBLOCK_le [OF that] a(1) s' by (simp add: in_use_def)
  have U2: "in_use s' c \<longleftrightarrow> in_use s c" if "c \<le> bmap_end (fs_sb s)" for c
    using that ga assms(3,4) by (intro U) (auto simp: good_def)
  have len: "length (blk s' c) = BSIZE" for c using ok assms(5) s'(1) by (simp add: bitmap_ok_def)
  have i: "i_addrs (ino s' i) = i_addrs (ino s i)" using s'(3) by simp
  note cc = core_cong [where U' = "in_use s'", OF c i len]
  show f: "fblk (ino s' i) (blk s') = fblk (ino s i) (blk s)" by (rule cc(2)) (use a(2) s'(1) U in auto)
  have "core (fs_sb s) (in_use s') (ino s' i) (blk s')" by (rule cc(1)) (use a(2) s'(1) U in auto)
  moreover have "bitmap_ok s'" using ok len U2 s'(2) by (simp add: bitmap_ok_def)
  ultimately show "fstate s' i" using assms(1) s' by (simp add: fstate_def)
  have o: "own s' i = own s i" "a \<in> own s i" using f i assms(2,3) by (auto simp: own_def)
  have "sb_bmapstart (fs_sb s) \<le> bmap_end (fs_sb s)" by (simp add: bmap_end_def BBLOCK_def)
  with o a(1) U s' show "touches s i s'" by (auto simp: touches_def)
qed

text \<open>The number of blocks that \<open>left\<close> bytes from \<open>off\<close> on lie in.\<close>

definition iters :: "nat \<Rightarrow> nat \<Rightarrow> nat" where
  "iters off left = (if left = 0 then 0 else Suc ((off + left - 1) div BSIZE - off div BSIZE))"

lemma iters_step:
  assumes "0 < left" "m = min left (BSIZE - off mod BSIZE)"
  shows "iters off left = Suc (iters (off + m) (left - m))" "0 < m" "m \<le> left" "off mod BSIZE + m \<le> BSIZE"
proof -
  have B: "off mod BSIZE < BSIZE" by (simp add: BSIZE_def)
  show m: "0 < m" "m \<le> left" "off mod BSIZE + m \<le> BSIZE" using assms B by auto
  show "iters off left = Suc (iters (off + m) (left - m))"
  proof (cases "left \<le> BSIZE - off mod BSIZE")
    case True
    then have "m = left" using assms by simp
    moreover have "(off + left - 1) div BSIZE = off div BSIZE"
    proof -
      have "(off + left - 1) div BSIZE = (off div BSIZE * BSIZE + (off mod BSIZE + left - 1)) div BSIZE"
        using assms(1) by (metis Nat.add_diff_assoc Suc_leI add.assoc One_nat_def div_mult_mod_eq trans_le_add2)
      also have "\<dots> = off div BSIZE" using True B assms(1) by (subst div_mult_self3) (auto simp: BSIZE_def)
      finally show ?thesis .
    qed
    ultimately show ?thesis using assms(1) by (simp add: iters_def)
  next
    case False
    then have mm: "m = BSIZE - off mod BSIZE" "m < left" using assms by auto
    have "(off div BSIZE + 1) * BSIZE = off div BSIZE * BSIZE + BSIZE" by simp
    then have "off + m = (off div BSIZE + 1) * BSIZE" using mm(1) B div_mult_mod_eq [of off BSIZE] by linarith
    then have "(off + m) div BSIZE = Suc (off div BSIZE)" by (simp add: BSIZE_def)
    moreover have "(off + m) div BSIZE \<le> (off + left - 1) div BSIZE" using mm(2) by (intro div_le_mono) simp
    ultimately show ?thesis using mm(2) by (simp add: iters_def)
  qed
qed

lemma div_mod_less: "p div b = q div b \<Longrightarrow> p mod b < q mod b \<longleftrightarrow> p < (q::nat)"
  by (metis div_mult_mod_eq nat_add_left_cancel_less)

lemma same_block:
  assumes "0 < m" "off mod BSIZE + m \<le> BSIZE" "off \<le> p" "p < off + m"
  shows "p div BSIZE = off div BSIZE" "p mod BSIZE = off mod BSIZE + (p - off)"
proof -
  have p: "p = off div BSIZE * BSIZE + (off mod BSIZE + (p - off))" using assms(3) div_mult_mod_eq [of off BSIZE] by linarith
  have r: "off mod BSIZE + (p - off) < BSIZE" using assms by linarith
  show "p div BSIZE = off div BSIZE"
    by (subst p, subst div_mult_self3) (use r in \<open>auto simp: BSIZE_def\<close>)
  show "p mod BSIZE = off mod BSIZE + (p - off)" using r by (subst p, subst mod_mult_self3) simp
qed

text \<open>One turn of the loop of \<^verbatim>\<open>writei\<close>.\<close>

lemma write_turn:
  assumes "fstate s i" "bmap_post s i (off div BSIZE) a s1" "a \<noteq> 0" "off div BSIZE < MAXFILE"
    and m: "0 < m" "off mod BSIZE + m \<le> BSIZE" "length bs = m"
    and s2: "blk s2 = (blk s1)(a := wr (off mod BSIZE) bs (blk s1 a))" "fs_sb s2 = fs_sb s1" "fs_itable s2 = fs_itable s1"
  shows "fstate s2 i" "touches s i s2"
    "\<And>p. p < MAXFILE * BSIZE \<Longrightarrow> fblk (ino s i) (blk s) (p div BSIZE) \<noteq> 0 \<or> off \<le> p \<and> p < off + m \<Longrightarrow>
      fblk (ino s2 i) (blk s2) (p div BSIZE) \<noteq> 0 \<and>
      fbyte (ino s2 i) (blk s2) p = (if off \<le> p \<and> p < off + m then bs ! (p - off) else fbyte (ino s i) (blk s) p)"
proof -
  let ?bn = "off div BSIZE"
  have f1: "fstate s1 i" and e: "extends s i s1" and fa: "fblk (ino s1 i) (blk s1) ?bn = a"
    and fo: "\<And>bm. bm < MAXFILE \<Longrightarrow> bm \<noteq> ?bn \<Longrightarrow> fblk (ino s1 i) (blk s1) bm = fblk (ino s i) (blk s) bm"
    and same: "fblk (ino s i) (blk s) ?bn \<noteq> 0 \<Longrightarrow> s1 = s"
    using assms(2) by (simp_all add: bmap_post_def)
  have la: "length (blk s1 a) = BSIZE" using f1 by (simp add: fstate_def bitmap_ok_def)
  have lw: "length (wr (off mod BSIZE) bs (blk s1 a)) = BSIZE" using la m by simp
  note p = put_data [OF f1 assms(4) fa assms(3) lw s2]
  show "fstate s2 i" by (rule p(1))
  show "touches s i s2" by (rule touches_trans [OF touches_bmap [OF assms(2)] p(2)])
  have c: "core (fs_sb s) (in_use s) (ino s i) (blk s)" using assms(1) by (simp add: fstate_def)
  have c1: "core (fs_sb s1) (in_use s1) (ino s1 i) (blk s1)" using f1 by (simp add: fstate_def)
  fix q assume q: "q < MAXFILE * BSIZE" "fblk (ino s i) (blk s) (q div BSIZE) \<noteq> 0 \<or> off \<le> q \<and> q < off + m"
  have qM: "q div BSIZE < MAXFILE" using q(1) by (simp add: less_mult_imp_div_less)
  show "fblk (ino s2 i) (blk s2) (q div BSIZE) \<noteq> 0 \<and>
      fbyte (ino s2 i) (blk s2) q = (if off \<le> q \<and> q < off + m then bs ! (q - off) else fbyte (ino s i) (blk s) q)"
  proof (cases "q div BSIZE = ?bn")
    case True
    have w: "wr (off mod BSIZE) bs (blk s1 a) ! (q mod BSIZE) =
        (if off \<le> q \<and> q < off + m then bs ! (q - off) else blk s1 a ! (q mod BSIZE))"
    proof (cases "off \<le> q \<and> q < off + m")
      case in_range: True
      have "q mod BSIZE = off mod BSIZE + (q - off)" by (rule same_block(2) [OF m(1,2)]) (use in_range in simp_all)
      moreover obtain j where j: "q = off + j" "j < m" using in_range by (metis le_Suc_ex nat_add_left_cancel_less)
      ultimately show ?thesis using m la wr_nth [of "off mod BSIZE" bs "blk s1 a" "q mod BSIZE"] by simp
    next
      case False
      have "q < off \<or> off mod BSIZE + m \<le> q mod BSIZE"
        using False True div_mult_mod_eq [of off BSIZE] div_mult_mod_eq [of q BSIZE] by (metis add.assoc nat_add_left_cancel_le not_le)
      moreover have "q mod BSIZE < off mod BSIZE \<longleftrightarrow> q < off" by (rule div_mod_less [OF True])
      moreover have "q mod BSIZE < BSIZE" by (simp add: BSIZE_def)
      ultimately show ?thesis using False m la by (subst wr_nth) auto
    qed
    have "fbyte (ino s2 i) (blk s2) q = wr (off mod BSIZE) bs (blk s1 a) ! (q mod BSIZE)"
      using True p(3) fa s2(1) by (simp add: fbyte_def)
    moreover have "blk s1 a ! (q mod BSIZE) = fbyte (ino s i) (blk s) q" if "\<not> (off \<le> q \<and> q < off + m)"
    proof -
      have "s1 = s" by (rule same) (use that q(2) True in auto)
      then show ?thesis using True fa by (simp add: fbyte_def)
    qed
    ultimately show ?thesis using True p(3) fa assms(3) w by auto
  next
    case False
    then have r: "\<not> (off \<le> q \<and> q < off + m)" using same_block(1) [OF m(1,2)] by blast
    let ?b = "fblk (ino s i) (blk s) (q div BSIZE)"
    have b: "?b \<noteq> 0" "fblk (ino s1 i) (blk s1) (q div BSIZE) = ?b" using r q(2) fo [OF qM False] by auto
    then have "?b \<noteq> a" using c1 qM assms(4) fa False unfolding core_def by metis
    moreover have "blk s1 ?b = blk s ?b"
      using c e qM b(1) unfolding core_def good_def extends_def by metis
    ultimately show ?thesis using r b p(3) s2(1) by (auto simp: fbyte_def)
  qed
qed

text \<open>The contents of a file after \<open>r\<close> bytes from \<open>off\<close> on have been written.\<close>

definition written :: "fsys \<Rightarrow> nat \<Rightarrow> nat \<Rightarrow> u8 list \<Rightarrow> fsys \<Rightarrow> bool" where
  "written s i off bs s' \<longleftrightarrow> (\<forall>p < MAXFILE * BSIZE.
     fblk (ino s i) (blk s) (p div BSIZE) \<noteq> 0 \<or> off \<le> p \<and> p < off + length bs \<longrightarrow>
     fblk (ino s' i) (blk s') (p div BSIZE) \<noteq> 0 \<and>
     fbyte (ino s' i) (blk s') p = (if off \<le> p \<and> p < off + length bs then bs ! (p - off) else fbyte (ino s i) (blk s) p))"

lemma written_Nil: "written s i off [] s"
  by (auto simp: written_def)

lemma written_bmap:
  assumes "fstate s i" "bmap_post s i bn a s'"
  shows "written s i off [] s'"
  unfolding written_def
proof (intro allI impI)
  fix p assume p: "p < MAXFILE * BSIZE" "fblk (ino s i) (blk s) (p div BSIZE) \<noteq> 0 \<or> off \<le> p \<and> p < off + length ([] :: u8 list)"
  have pM: "p div BSIZE < MAXFILE" using p(1) by (simp add: less_mult_imp_div_less)
  have a: "fblk (ino s i) (blk s) (p div BSIZE) \<noteq> 0" using p(2) by auto
  have "fblk (ino s' i) (blk s') (p div BSIZE) = fblk (ino s i) (blk s) (p div BSIZE) \<and> fbyte (ino s' i) (blk s') p = fbyte (ino s i) (blk s) p"
  proof (cases "p div BSIZE = bn")
    case True
    then show ?thesis using a assms(2) by (simp add: bmap_post_def)
  next
    case False
    then have f: "fblk (ino s' i) (blk s') (p div BSIZE) = fblk (ino s i) (blk s) (p div BSIZE)"
      using pM assms(2) by (simp add: bmap_post_def)
    have c: "core (fs_sb s) (in_use s) (ino s i) (blk s)" and e: "extends s i s'" using assms by (auto simp: fstate_def bmap_post_def)
    have "blk s' (fblk (ino s i) (blk s) (p div BSIZE)) = blk s (fblk (ino s i) (blk s) (p div BSIZE))"
      using c e pM a unfolding core_def good_def extends_def by metis
    then show ?thesis using f by (simp add: fbyte_def)
  qed
  then show "fblk (ino s' i) (blk s') (p div BSIZE) \<noteq> 0 \<and>
     fbyte (ino s' i) (blk s') p = (if off \<le> p \<and> p < off + length ([] :: u8 list) then [] ! (p - off) else fbyte (ino s i) (blk s) p)"
    using a by auto
qed

lemma written_trans:
  assumes "written s i off xs s1" "written s1 i (off + length xs) ys s2"
  shows "written s i off (xs @ ys) s2"
  unfolding written_def
proof (intro allI impI)
  fix p assume p: "p < MAXFILE * BSIZE" "fblk (ino s i) (blk s) (p div BSIZE) \<noteq> 0 \<or> off \<le> p \<and> p < off + length (xs @ ys)"
  have 2: "fblk (ino s1 i) (blk s1) (p div BSIZE) \<noteq> 0 \<or> off + length xs \<le> p \<and> p < off + length xs + length ys \<Longrightarrow>
     fblk (ino s2 i) (blk s2) (p div BSIZE) \<noteq> 0 \<and>
     fbyte (ino s2 i) (blk s2) p = (if off + length xs \<le> p \<and> p < off + length xs + length ys then ys ! (p - (off + length xs)) else fbyte (ino s1 i) (blk s1) p)"
    using assms(2) p(1) unfolding written_def by blast
  have 1: "fblk (ino s i) (blk s) (p div BSIZE) \<noteq> 0 \<or> off \<le> p \<and> p < off + length xs \<Longrightarrow>
     fblk (ino s1 i) (blk s1) (p div BSIZE) \<noteq> 0 \<and>
     fbyte (ino s1 i) (blk s1) p = (if off \<le> p \<and> p < off + length xs then xs ! (p - off) else fbyte (ino s i) (blk s) p)"
    using assms(1) p(1) unfolding written_def by blast
  consider "off + length xs \<le> p \<and> p < off + length xs + length ys" | "off \<le> p \<and> p < off + length xs"
    | "\<not> (off \<le> p \<and> p < off + length (xs @ ys))" by fastforce
  then show "fblk (ino s2 i) (blk s2) (p div BSIZE) \<noteq> 0 \<and>
     fbyte (ino s2 i) (blk s2) p = (if off \<le> p \<and> p < off + length (xs @ ys) then (xs @ ys) ! (p - off) else fbyte (ino s i) (blk s) p)"
  proof cases
    case 1
    then have "\<not> p - off < length xs" by auto
    then show ?thesis using 1 2 by (simp add: nth_append)
  next
    case c: 2
    then show ?thesis using 1 2 by (simp add: nth_append less_diff_conv2)
  next
    case 3
    then have a: "fblk (ino s i) (blk s) (p div BSIZE) \<noteq> 0" using p(2) by blast
    from 3 have n: "\<not> (off \<le> p \<and> p < off + length xs)" "\<not> (off + length xs \<le> p \<and> p < off + length xs + length ys)" by auto
    from 1 a n(1) have 11: "fblk (ino s1 i) (blk s1) (p div BSIZE) \<noteq> 0" "fbyte (ino s1 i) (blk s1) p = fbyte (ino s i) (blk s) p" by auto
    with 2 n(2) 3 show ?thesis by auto
  qed
qed

lemma slice_append: "slice a m xs @ slice (a + m) k xs = slice a (m + k) xs"
  by (simp add: slice_def take_add add.commute [of m a])

lemma writei_loop_spec:
  assumes inp: "\<And>t m. t + m \<le> n \<Longrightarrow> inp t m = Ok (0, slice t m data)" and len: "length data = n"
    and "fstate s i" "tot \<le> n" "off + (n - tot) \<le> MAXFILE * BSIZE" "room s (6 * iters off (n - tot) + k)"
  shows "\<exists>r s'. writei_loop inp i off n tot s = Done (r, off + (r - tot), s') \<and> tot \<le> r \<and> r \<le> n \<and> room s' k \<and>
    fstate s' i \<and> touches s i s' \<and> written s i off (slice tot (r - tot) data) s' \<and>
    (r < n \<longrightarrow> (\<forall>c < sb_size (fs_sb s). in_use s' c))"
  using assms(3-6)
proof (induction "n - tot" arbitrary: off tot s rule: less_induct)
  case less
  show ?case
  proof (cases "tot < n")
    case False
    then show ?thesis using less.prems
      by (intro exI [of _ tot] exI [of _ s])
        (simp add: writei_loop.simps touches_refl written_Nil slice_def iters_def)
  next
    case lt: True
    let ?bn = "off div BSIZE" let ?m = "min (n - tot) (BSIZE - off mod BSIZE)"
    have left: "0 < n - tot" using lt by simp
    note it = iters_step [OF left refl, of off]
    have bn: "?bn < MAXFILE" using less.prems(3) left by (simp add: less_mult_imp_div_less)
    let ?k = "6 * iters (off + ?m) (n - tot - ?m) + k"
    have r5: "room s (Suc ?k + 5)" using less.prems(4) it(1) by (simp add: add.assoc)
    obtain a s1 where b: "bmap i ?bn s = Done (a, s1)" "room s1 (Suc ?k)" "bmap_post s i ?bn a s1"
      using bmap_spec [OF less.prems(1) bn r5] by blast
    show ?thesis
    proof (cases "a = 0")
      case True
      have "room s1 k" by (rule room_mono [OF b(2)]) simp
      moreover have "writei_loop inp i off n tot s = Done (tot, off, s1)" using lt b(1) True by (simp add: writei_loop.simps)
      ultimately show ?thesis using b(3) touches_bmap [OF b(3)] lt written_bmap [OF less.prems(1) b(3)]
        by (intro exI [of _ tot] exI [of _ s1]) (simp add: slice_def bmap_post_def True)
    next
      case False
      let ?bs = "slice tot ?m data"
      have lb: "length ?bs = ?m" using it(3) lt len by (intro length_slice) linarith
      obtain s2 where s2: "log_put a (wr (off mod BSIZE) ?bs (blk s1 a)) s1 = Done s2" "room s2 ?k"
        using log_put_room [OF b(2)] by blast
      note w = write_turn [OF less.prems(1) b(3) False bn it(2,4) lb log_put_Done [OF s2(1)]]
      have W: "written s i off ?bs s2" unfolding written_def lb using w(3) by blast
      have "tot + ?m \<le> n" using lt by simp
      then have e: "writei_loop inp i off n tot s = writei_loop inp i (off + ?m) n (tot + ?m) s2"
        using lt b(1) False inp [of tot ?m] s2(1) by (subst writei_loop.simps) (simp add: Let_def)
      have "n - (tot + ?m) < n - tot" "tot + ?m \<le> n" "off + ?m + (n - (tot + ?m)) \<le> MAXFILE * BSIZE"
        "room s2 (6 * iters (off + ?m) (n - (tot + ?m)) + k)"
        using it(2) lt less.prems(3) s2(2) by auto
      from less.hyps [OF this(1) w(1) this(2-4)] obtain r s' where
        IH: "writei_loop inp i (off + ?m) n (tot + ?m) s2 = Done (r, off + ?m + (r - (tot + ?m)), s')" "tot + ?m \<le> r" "r \<le> n" "room s' k"
        "fstate s' i" "touches s2 i s'" "written s2 i (off + ?m) (slice (tot + ?m) (r - (tot + ?m)) data) s'"
        "r < n \<longrightarrow> (\<forall>c < sb_size (fs_sb s2). in_use s' c)" by blast
      have sb: "fs_sb s2 = fs_sb s" using w(2) by (simp add: touches_def)
      have "written s i off (?bs @ slice (tot + ?m) (r - (tot + ?m)) data) s'"
        by (rule written_trans [OF W]) (use IH(7) lb in simp)
      moreover have "?bs @ slice (tot + ?m) (r - (tot + ?m)) data = slice tot (r - tot) data"
        using slice_append [of tot ?m data "r - (tot + ?m)"] IH(2) by simp
      moreover have "off + ?m + (r - (tot + ?m)) = off + (r - tot)" using IH(2) by simp
      ultimately show ?thesis using IH e sb touches_trans [OF w(2) IH(6)]
        by (intro exI [of _ r] exI [of _ s']) simp
    qed
  qed
qed

text \<open>Reading. \<open>mapped\<close>: the blocks up to the size are there.\<close>

definition mapped :: "fsys \<Rightarrow> nat \<Rightarrow> bool" where
  "mapped s i \<longleftrightarrow> i_size (ino s i) \<le> MAXFILE * BSIZE \<and> (\<forall>p < i_size (ino s i). fblk (ino s i) (blk s) (p div BSIZE) \<noteq> 0)"

definition fbytes :: "fsys \<Rightarrow> nat \<Rightarrow> nat \<Rightarrow> nat \<Rightarrow> u8 list" where
  "fbytes s i off k = map (fbyte (ino s i) (blk s)) [off..<off + k]"

lemma length_fbytes [simp]: "length (fbytes s i off k) = k"
  by (simp add: fbytes_def)

lemma fbytes_append: "fbytes s i off m @ fbytes s i (off + m) k = fbytes s i off (m + k)"
  using upt_add_eq_append [of off "off + m" k] by (simp add: fbytes_def add.assoc flip: map_append)

lemma bmap_mapped:
  assumes "bn < MAXFILE" "fblk (ino s i) (blk s) bn \<noteq> 0"
  shows "bmap i bn s = Done (fblk (ino s i) (blk s) bn, s)"
proof (cases "bn < NDIRECT")
  case True
  then show ?thesis using assms(2) by (simp add: bmap_def fblk_def Let_def)
next
  case False
  then have "i_addrs (ino s i) ! NDIRECT \<noteq> 0" using assms(2) by (auto simp: fblk_def split: if_splits)
  moreover have "bn - NDIRECT < NINDIRECT" using assms(1) False by (simp add: MAXFILE_def)
  ultimately show ?thesis using assms(2) False by (simp add: bmap_def fblk_def Let_def)
qed

lemma wr_append:
  assumes "t + length xs + length ys \<le> length d"
  shows "wr (t + length xs) ys (wr t xs d) = wr t (xs @ ys) d"
proof (rule nth_equalityI)
  show "length (wr (t + length xs) ys (wr t xs d)) = length (wr t (xs @ ys) d)" using assms by simp
  fix j assume "j < length (wr (t + length xs) ys (wr t xs d))"
  then have "j < length d" using assms by simp
  then show "wr (t + length xs) ys (wr t xs d) ! j = wr t (xs @ ys) d ! j"
    using assms by (auto simp: wr_nth nth_append)
qed

lemma slice_fbytes:
  assumes "length (blk s (fblk (ino s i) (blk s) (off div BSIZE))) = BSIZE" "0 < m" "off mod BSIZE + m \<le> BSIZE"
  shows "slice (off mod BSIZE) m (blk s (fblk (ino s i) (blk s) (off div BSIZE))) = fbytes s i off m"
proof (rule nth_equalityI)
  show "length (slice (off mod BSIZE) m (blk s (fblk (ino s i) (blk s) (off div BSIZE)))) = length (fbytes s i off m)"
    using assms by simp
  fix j assume "j < length (slice (off mod BSIZE) m (blk s (fblk (ino s i) (blk s) (off div BSIZE))))"
  then have j: "j < m" using assms by simp
  have "(off + j) div BSIZE = off div BSIZE" "(off + j) mod BSIZE = off mod BSIZE + j"
    using same_block [OF assms(2,3), of "off + j"] j by simp_all
  then show "slice (off mod BSIZE) m (blk s (fblk (ino s i) (blk s) (off div BSIZE))) ! j = fbytes s i off m ! j"
    using j assms by (simp add: slice_nth fbytes_def fbyte_def)
qed

lemma readi_loop_spec:
  assumes "fstate s i" "mapped s i" "tot \<le> n" "off + (n - tot) \<le> i_size (ino s i)" "n \<le> length d"
  shows "readi_loop kbuf_out i off n tot d s = Done (int n, wr tot (fbytes s i off (n - tot)) d, s)"
  using assms(3-5)
proof (induction "n - tot" arbitrary: off tot d rule: less_induct)
  case less
  show ?case
  proof (cases "tot < n")
    case False
    then show ?thesis using less.prems by (simp add: readi_loop.simps fbytes_def wr_def)
  next
    case True
    let ?bn = "off div BSIZE" let ?m = "min (n - tot) (BSIZE - off mod BSIZE)" let ?a = "fblk (ino s i) (blk s) ?bn"
    have left: "0 < n - tot" using True by simp
    note it = iters_step [OF left refl, of off]
    have off: "off < i_size (ino s i)" using less.prems(2) left by simp
    then have a: "?a \<noteq> 0" "?bn < MAXFILE" using assms(2) by (auto simp: mapped_def less_mult_imp_div_less)
    have b: "bmap i ?bn s = Done (?a, s)" by (rule bmap_mapped [OF a(2,1)])
    have len: "length (blk s ?a) = BSIZE" using assms(1) by (simp add: fstate_def bitmap_ok_def)
    let ?x = "fbytes s i off ?m"
    have "slice (off mod BSIZE) ?m (blk s ?a) = ?x" by (rule slice_fbytes [OF len it(2,4)])
    then have e: "readi_loop kbuf_out i off n tot d s = readi_loop kbuf_out i (off + ?m) n (tot + ?m) (wr tot ?x d) s"
      using True b a by (subst readi_loop.simps) (simp add: Let_def kbuf_out_def)
    have w: "length (wr tot ?x d) = length d" using it(3) less.prems(3) True by (intro length_wr) simp
    have "readi_loop kbuf_out i (off + ?m) n (tot + ?m) (wr tot ?x d) s =
        Done (int n, wr (tot + ?m) (fbytes s i (off + ?m) (n - (tot + ?m))) (wr tot ?x d), s)"
      by (rule less.hyps) (use it(2,3) True less.prems w in auto)
    also have "wr (tot + ?m) (fbytes s i (off + ?m) (n - (tot + ?m))) (wr tot ?x d) = wr tot (fbytes s i off (n - tot)) d"
      using wr_append [of tot ?x "fbytes s i (off + ?m) (n - (tot + ?m))" d] less.prems True it(3)
        fbytes_append [of s i off ?m "n - (tot + ?m)"] by simp
    finally show ?thesis using e by simp
  qed
qed

lemma readi_spec:
  assumes "fstate s i" "mapped s i" "off \<le> i_size (ino s i)" "off + n < 2 ^ 32" "n \<le> length d"
  defines "m \<equiv> min n (i_size (ino s i) - off)"
  shows "readi kbuf_out i off n d s = Done (int m, wr 0 (fbytes s i off m) d, s)"
proof -
  have "(if off + n > i_size (ino s i) then i_size (ino s i) - off else n) = m" using assms(3) by (auto simp: m_def)
  then have "readi kbuf_out i off n d s = readi_loop kbuf_out i off m 0 d s" using assms(3,4) by (simp add: readi_def)
  also have "\<dots> = Done (int m, wr 0 (fbytes s i off (m - 0)) d, s)"
    by (rule readi_loop_spec [OF assms(1,2)]) (use assms(3,5) in \<open>auto simp: m_def\<close>)
  finally show ?thesis by simp
qed

lemma meta_put:
  assumes "fstate s i" "b < sb_bmapstart (fs_sb s)" "length x = BSIZE"
    and s': "blk s' = (blk s)(b := x)" "fs_sb s' = fs_sb s" "length (fs_itable s') = length (fs_itable s)"
      "i_addrs (ino s' i) = i_addrs (ino s i)"
  shows "fstate s' i" "fblk (ino s' i) (blk s') = fblk (ino s i) (blk s)"
    "\<And>p. p < MAXFILE * BSIZE \<Longrightarrow> fblk (ino s i) (blk s) (p div BSIZE) \<noteq> 0 \<Longrightarrow> fbyte (ino s' i) (blk s') p = fbyte (ino s i) (blk s) p"
proof -
  have c: "core (fs_sb s) (in_use s) (ino s i) (blk s)" and ok: "bitmap_ok s" using assms(1) by (auto simp: fstate_def)
  have e: "sb_bmapstart (fs_sb s) \<le> bmap_end (fs_sb s)" by (simp add: bmap_end_def BBLOCK_def)
  have "BBLOCK c (fs_sb s) \<noteq> b" for c using assms(2) by (simp add: BBLOCK_def)
  then have U: "in_use s' = in_use s" using s' by (simp add: in_use_def fun_eq_iff)
  have len: "length (blk s' c) = BSIZE" for c using ok assms(3) s'(1) by (simp add: bitmap_ok_def)
  have n: "i_addrs (ino s i) ! NDIRECT \<noteq> b" if "i_addrs (ino s i) ! NDIRECT \<noteq> 0"
    using c assms(2) e that by (auto simp: core_def good_def)
  note cc = core_cong [where U' = "in_use s'", OF c s'(4) len]
  show f: "fblk (ino s' i) (blk s') = fblk (ino s i) (blk s)" by (rule cc(2)) (use n s'(1) U in auto)
  have "core (fs_sb s) (in_use s') (ino s' i) (blk s')" by (rule cc(1)) (use n s'(1) U in auto)
  moreover have "bitmap_ok s'" using ok len U s'(2) by (simp add: bitmap_ok_def)
  ultimately show "fstate s' i" using assms(1) s' by (simp add: fstate_def)
  fix p assume p: "p < MAXFILE * BSIZE" "fblk (ino s i) (blk s) (p div BSIZE) \<noteq> 0"
  have "p div BSIZE < MAXFILE" using p(1) by (simp add: less_mult_imp_div_less)
  then have "good (fs_sb s) (in_use s) (fblk (ino s i) (blk s) (p div BSIZE))" using c unfolding core_def by blast
  then have "fblk (ino s i) (blk s) (p div BSIZE) \<noteq> b" using p(2) assms(2) e by (auto simp: good_def)
  then show "fbyte (ino s' i) (blk s') p = fbyte (ino s i) (blk s) p" using f s'(1) by (simp add: fbyte_def)
qed

text \<open>A file whose inode lies before the bitmap and whose blocks up to its size are there.\<close>

definition file_ok :: "fsys \<Rightarrow> nat \<Rightarrow> bool" where
  "file_ok s i \<longleftrightarrow> fstate s i \<and> mapped s i \<and> IBLOCK (i_inum (ino s i)) (fs_sb s) < sb_bmapstart (fs_sb s)"

lemma iupdate_file:
  assumes "fstate s i" "IBLOCK (i_inum (ino s i)) (fs_sb s) < sb_bmapstart (fs_sb s)" "room s (Suc k)"
  obtains s' where "iupdate i s = Done s'" "fstate s' i" "fs_sb s' = fs_sb s" "fs_itable s' = fs_itable s"
    "\<And>c. sb_bmapstart (fs_sb s) \<le> c \<Longrightarrow> blk s' c = blk s c" "fblk (ino s' i) (blk s') = fblk (ino s i) (blk s)"
    "\<And>p. p < MAXFILE * BSIZE \<Longrightarrow> fblk (ino s i) (blk s) (p div BSIZE) \<noteq> 0 \<Longrightarrow> fbyte (ino s' i) (blk s') p = fbyte (ino s i) (blk s) p"
proof -
  let ?b = "IBLOCK (i_inum (ino s i)) (fs_sb s)" let ?x = "store_dinode (ino s i) (blk s ?b)"
  obtain s' where s': "log_put ?b ?x s = Done s'" using log_put_room [OF assms(3)] by blast
  note p = log_put_Done [OF s']
  have l: "length ?x = BSIZE" using assms(1) by (simp add: fstate_def core_def)
  note m = meta_put [OF assms(1,2) l p(1,2)]
  show thesis
    by (rule that [of s']) (use s' p m assms(2) in \<open>simp_all add: iupdate_def Let_def\<close>)
qed


definition demo_fs3 :: fsys where
  "demo_fs3 = demo_fs\<lparr>fs_itable := [demo_inode\<lparr>i_size := 0, i_addrs := replicate 13 0\<rparr>]\<rparr>"

lemma demo_file_ok: "file_ok demo_fs3 0" "room demo_fs3 30"
proof -
  have e: "blk demo_fs3 = blk demo_fs" "in_use demo_fs3 = in_use demo_fs" "fs_sb demo_fs3 = demo_sb" "fs_sb demo_fs = demo_sb"
    by (auto simp: demo_fs3_def blk_def in_use_def demo_fs_def)
  have b: "bitmap_ok demo_fs3" using demo_fs_ok(1) e by (simp add: bitmap_ok_def)
  have z: "fblk (ino demo_fs3 0) B bn = 0" if "bn < MAXFILE" for bn B
    by (simp add: fblk_def demo_fs3_def NDIRECT_def)
  have "core (fs_sb demo_fs3) (in_use demo_fs3) (ino demo_fs3 0) (blk demo_fs3)"
    unfolding core_def using b z by (auto simp: good_def bitmap_ok_def demo_fs3_def NDIRECT_def demo_fs_def demo_sb_def)
  with b show "file_ok demo_fs3 0"
    by (simp add: file_ok_def fstate_def mapped_def e demo_sb_def)
      (simp add: demo_fs3_def demo_inode_def IBLOCK_def IPB_def BSIZE_def)
  show "room demo_fs3 30" using demo_fs_ok(2) by (simp add: room_def demo_fs3_def)
qed


end
