(* ===== verification/Fs_Dir.thy ===== *)
theory Fs_Dir
  imports Fs_Rw KString
begin

text \<open>
  Directories and path names in \<^verbatim>\<open>kernel/fs.c\<close>. A path is the list of the characters of a C string, with
  or without its terminating 0; \<^verbatim>\<open>name\<close> is a buffer of \<^verbatim>\<open>DIRSIZ\<close> characters.
\<close>

definition DIRSIZ :: nat where "DIRSIZ = 14"

definition char_at :: "u8 list \<Rightarrow> nat \<Rightarrow> u8" where
  "char_at cs k = (if k < length cs then cs ! k else 0)"

section \<open>Directories\<close>

definition namecmp :: "u8 list \<Rightarrow> u8 list \<Rightarrow> int" where
  "namecmp s t = strncmp (char_at s) (char_at t) DIRSIZ"

text \<open>
  The loop of \<^verbatim>\<open>dirlookup\<close> from offset \<open>off\<close>, with \<open>k\<close> entries to go: the directory is locked, so that
  its size does not change. The result is the entry of the inode table and the offset.
\<close>

fun dirlookup_from :: "nat \<Rightarrow> u8 list \<Rightarrow> nat \<Rightarrow> nat \<Rightarrow> fsys \<Rightarrow> ((nat \<times> nat) option \<times> fsys) fs" where
  "dirlookup_from dp name off 0 s = Done (None, s)"
| "dirlookup_from dp name off (Suc k) s =
     fbind (readi kbuf_out dp off 16 (replicate 16 0) s) (\<lambda>(r, de, s1).
       if r \<noteq> 16 then Died ''dirlookup read''
       else if rd 2 0 de = 0 then dirlookup_from dp name (off + 16) k s1
       else if namecmp name (drop 2 de) = 0 then
         fbind (iget (i_dev (ino s1 dp)) (rd 2 0 de) s1) (\<lambda>(i, s2). Done (Some (i, off), s2))
       else dirlookup_from dp name (off + 16) k s1)"

definition dir_len :: "nat \<Rightarrow> fsys \<Rightarrow> nat" where
  "dir_len dp s = (i_size (ino s dp) + 15) div 16"

definition dirlookup :: "nat \<Rightarrow> u8 list \<Rightarrow> fsys \<Rightarrow> ((nat \<times> nat) option \<times> fsys) fs" where
  "dirlookup dp name s =
     (if i_type (ino s dp) \<noteq> T_DIR then Died ''dirlookup not DIR''
      else dirlookup_from dp name 0 (dir_len dp s) s)"

text \<open>The search of \<^verbatim>\<open>dirlink\<close> for a free entry: its offset.\<close>

fun dirlink_slot :: "nat \<Rightarrow> nat \<Rightarrow> nat \<Rightarrow> fsys \<Rightarrow> (nat \<times> fsys) fs" where
  "dirlink_slot dp off 0 s = Done (off, s)"
| "dirlink_slot dp off (Suc k) s =
     fbind (readi kbuf_out dp off 16 (replicate 16 0) s) (\<lambda>(r, de, s1).
       if r \<noteq> 16 then Died ''dirlink read''
       else if rd 2 0 de = 0 then Done (off, s1)
       else dirlink_slot dp (off + 16) k s1)"

definition dirent :: "u8 list \<Rightarrow> nat \<Rightarrow> u8 list" where
  "dirent name inum = le_bytes 2 inum @ strncpy (replicate DIRSIZ 0) (char_at name) DIRSIZ"

definition dirlink :: "nat \<Rightarrow> u8 list \<Rightarrow> nat \<Rightarrow> fsys \<Rightarrow> (int \<times> fsys) fs" where
  "dirlink dp name inum s =
     fbind (dirlookup dp name s) (\<lambda>(found, s1).
       case found of
         Some (ip, off) \<Rightarrow> fbind (iput ip s1) (\<lambda>s2. Done (-1, s2))
       | None \<Rightarrow>
           fbind (dirlink_slot dp 0 (dir_len dp s1) s1) (\<lambda>(off, s2).
           fbind (writei (kbuf_in (dirent name inum)) dp off 16 s2) (\<lambda>(r, s3).
             if r \<noteq> 16 then Done (-1, s3) else Done (0, s3))))"

section \<open>Paths\<close>

text \<open>The character \<^verbatim>\<open>/\<close> is 47.\<close>

definition skipelem :: "u8 list \<Rightarrow> u8 list \<Rightarrow> (u8 list \<times> u8 list) option" where
  "skipelem pth name =
     (let s = dropWhile (\<lambda>c. c = 47) pth in
      if char_at s 0 = 0 then None
      else
        (let e = takeWhile (\<lambda>c. c \<noteq> 47 \<and> c \<noteq> 0) s;
             pth1 = drop (length e) s;
             name1 = (if DIRSIZ \<le> length e then wr 0 (take DIRSIZ e) name else wr 0 (e @ [0]) name) in
         Some (dropWhile (\<lambda>c. c = 47) pth1, name1)))"

lemma skipelem_shorter: "skipelem pth name = Some (pth1, name1) \<Longrightarrow> length pth1 < length pth"
proof -
  assume a: "skipelem pth name = Some (pth1, name1)"
  let ?s = "dropWhile (\<lambda>c. c = 47) pth" let ?e = "takeWhile (\<lambda>c. c \<noteq> 47 \<and> c \<noteq> 0) ?s"
  have s: "char_at ?s 0 \<noteq> 0" and p: "pth1 = dropWhile (\<lambda>c. c = 47) (drop (length ?e) ?s)"
    using a by (auto simp: skipelem_def Let_def split: if_splits)
  from s obtain c cs where c: "?s = c # cs" by (cases ?s) (auto simp: char_at_def)
  then have "c \<noteq> 47" using hd_dropWhile [of "\<lambda>c. c = 47" pth] by auto
  with s c have "0 < length ?e" by (simp add: char_at_def)
  moreover have "length ?s \<le> length pth" by (rule length_dropWhile_le)
  moreover have "length pth1 \<le> length (drop (length ?e) ?s)" unfolding p by (rule length_dropWhile_le)
  moreover have "0 < length ?s" using c by simp
  ultimately show "length pth1 < length pth" unfolding length_drop by linarith
qed

function namex_loop :: "int \<Rightarrow> bool \<Rightarrow> u8 list \<Rightarrow> u8 list \<Rightarrow> nat \<Rightarrow> fsys \<Rightarrow> (nat option \<times> u8 list \<times> fsys) fs" where
  "namex_loop me parent pth name ip s =
     (case skipelem pth name of
        None \<Rightarrow>
          if parent then fbind (iput ip s) (\<lambda>s1. Done (None, name, s1))
          else Done (Some ip, name, s)
      | Some (pth1, name1) \<Rightarrow>
          fbind (ilock me ip s) (\<lambda>s1.
            if i_type (ino s1 ip) \<noteq> T_DIR then fbind (iunlockput me ip s1) (\<lambda>s2. Done (None, name1, s2))
            else if parent \<and> char_at pth1 0 = 0 then fbind (iunlock me ip s1) (\<lambda>s2. Done (Some ip, name1, s2))
            else
              fbind (dirlookup ip name1 s1) (\<lambda>(found, s2).
                case found of
                  None \<Rightarrow> fbind (iunlockput me ip s2) (\<lambda>s3. Done (None, name1, s3))
                | Some (nxt, off) \<Rightarrow>
                    fbind (iunlockput me ip s2) (namex_loop me parent pth1 name1 nxt))))"
  by auto
termination
  by (relation "measure (\<lambda>(me, parent, pth, name, ip, s). length pth)") (auto dest: skipelem_shorter)

definition namex :: "int \<Rightarrow> nat \<Rightarrow> u8 list \<Rightarrow> bool \<Rightarrow> u8 list \<Rightarrow> fsys \<Rightarrow> (nat option \<times> u8 list \<times> fsys) fs" where
  "namex me cwd pth parent name s =
     fbind (if char_at pth 0 = 47 then iget ROOTDEV ROOTINO s else Done (idup cwd s)) (\<lambda>(ip, s1).
       namex_loop me parent pth name ip s1)"

text \<open>\<^verbatim>\<open>namei\<close> has a local buffer for the name, whose initial contents are \<open>junk\<close>.\<close>

definition namei :: "int \<Rightarrow> nat \<Rightarrow> u8 list \<Rightarrow> u8 list \<Rightarrow> fsys \<Rightarrow> (nat option \<times> fsys) fs" where
  "namei me cwd junk pth s = fbind (namex me cwd pth False junk s) (\<lambda>(ip, name, s1). Done (ip, s1))"

definition nameiparent :: "int \<Rightarrow> nat \<Rightarrow> u8 list \<Rightarrow> u8 list \<Rightarrow> fsys \<Rightarrow> (nat option \<times> u8 list \<times> fsys) fs" where
  "nameiparent me cwd pth name s = namex me cwd pth True name s"

declare namex_loop.simps [simp del]

section \<open>Path names split at slashes\<close>

text \<open>
  The elements of a path, independently of \<^verbatim>\<open>skipelem\<close>: the pieces between the slashes of the C string
  that are not empty, of which the first \<^verbatim>\<open>DIRSIZ\<close> characters count.
\<close>

fun splits :: "u8 list \<Rightarrow> u8 list list" where
  "splits [] = [[]]"
| "splits (c # cs) = (if c = 47 then [] # splits cs else (c # hd (splits cs)) # tl (splits cs))"

definition path_elems :: "u8 list \<Rightarrow> u8 list list" where
  "path_elems p = map (take DIRSIZ) (filter (\<lambda>e. e \<noteq> []) (splits (takeWhile (\<lambda>c. c \<noteq> 0) p)))"

lemma splits_ne [simp]: "splits p \<noteq> []"
  by (cases p) auto

lemma splits_append: "(\<forall>c \<in> set e. c \<noteq> 47) \<Longrightarrow> splits (e @ r) = (e @ hd (splits r)) # tl (splits r)"
  by (induction e) auto

lemma path_elems_slash: "path_elems (47 # p) = path_elems p"
  by (simp add: path_elems_def)

lemma path_elems_dropWhile: "path_elems (dropWhile (\<lambda>c. c = 47) p) = path_elems p"
  by (induction p) (auto simp: path_elems_slash)

lemma path_elems_end: "char_at p 0 = 0 \<Longrightarrow> path_elems p = []"
  by (cases p) (auto simp: char_at_def path_elems_def)

lemma path_elems_first:
  assumes "\<forall>c \<in> set e. c \<noteq> 47 \<and> c \<noteq> 0" "e \<noteq> []" "r = [] \<or> hd r = 47 \<or> hd r = 0"
  shows "path_elems (e @ r) = take DIRSIZ e # path_elems r"
proof -
  have t: "takeWhile (\<lambda>c. c \<noteq> 0) (e @ r) = e @ takeWhile (\<lambda>c. c \<noteq> 0) r" using assms(1) by (intro takeWhile_append2) auto
  have e: "\<forall>c \<in> set e. c \<noteq> 47" using assms(1) by blast
  have "takeWhile (\<lambda>c. c \<noteq> 0) r = [] \<or> (\<exists>q. takeWhile (\<lambda>c. c \<noteq> 0) r = 47 # q)" using assms(3) by (cases r) auto
  then show ?thesis using assms(2) unfolding path_elems_def t by (auto simp: splits_append [OF e])
qed

lemma cstr_char_at: "cstr (char_at b) n = takeWhile (\<lambda>c. c \<noteq> 0) (take n b)"
proof (induction n arbitrary: b)
  case (Suc n)
  show ?case
  proof (cases b)
    case (Cons c cs)
    moreover have "(\<lambda>i. char_at (c # cs) (Suc i)) = char_at cs" by (auto simp: char_at_def)
    ultimately show ?thesis using Suc [of cs] by (simp add: cstr_Suc) (simp add: char_at_def)
  qed (simp add: cstr_Suc char_at_def)
qed simp

lemma elem_buffer:
  assumes "\<forall>c \<in> set e. c \<noteq> 0" "length name = DIRSIZ"
  defines "n1 \<equiv> if DIRSIZ \<le> length e then wr 0 (take DIRSIZ e) name else wr 0 (e @ [0]) name"
  shows "length n1 = DIRSIZ" "cstr (char_at n1) DIRSIZ = take DIRSIZ e"
proof -
  show "length n1 = DIRSIZ" using assms by simp
  show "cstr (char_at n1) DIRSIZ = take DIRSIZ e"
  proof (cases "DIRSIZ \<le> length e")
    case True
    then have n: "n1 = take DIRSIZ e" using assms by (simp add: wr_def)
    have "takeWhile (\<lambda>c. c \<noteq> 0) (take DIRSIZ e) = take DIRSIZ e"
      using assms(1) by (auto simp: takeWhile_eq_all_conv dest: in_set_takeD)
    then show ?thesis by (simp add: cstr_char_at n)
  next
    case False
    then have n: "take DIRSIZ n1 = e @ 0 # drop (Suc (length e)) name" using assms by (simp add: wr_def)
    have "takeWhile (\<lambda>c. c \<noteq> 0) (e @ 0 # drop (Suc (length e)) name) = e"
      using assms(1) takeWhile_append2 [of e "\<lambda>c. c \<noteq> 0"] by simp
    then show ?thesis using False by (simp add: cstr_char_at n)
  qed
qed

lemma first_elem:
  assumes "char_at s 0 \<noteq> 0" "char_at s 0 \<noteq> 47"
  defines "e \<equiv> takeWhile (\<lambda>c. c \<noteq> 47 \<and> c \<noteq> 0) s"
  shows "path_elems s = take DIRSIZ e # path_elems (drop (length e) s)" "\<forall>c \<in> set e. c \<noteq> 0"
proof -
  define r where "r = drop (length e) s"
  obtain c cs where c: "s = c # cs" "c \<noteq> 0" "c \<noteq> 47" using assms(1,2) by (cases s) (auto simp: char_at_def)
  then have e0: "e \<noteq> []" by (simp add: e_def)
  have e1: "\<forall>c \<in> set e. c \<noteq> 47 \<and> c \<noteq> 0" by (auto simp: e_def dest: set_takeWhileD)
  then show "\<forall>c \<in> set e. c \<noteq> 0" by blast
  have rd: "r = dropWhile (\<lambda>c. c \<noteq> 47 \<and> c \<noteq> 0) s" by (simp add: r_def e_def dropWhile_eq_drop)
  have r: "r = [] \<or> hd r = 47 \<or> hd r = 0"
    using hd_dropWhile [of "\<lambda>c. c \<noteq> 47 \<and> c \<noteq> 0" s] unfolding rd by blast
  have "s = e @ r" unfolding rd e_def by simp
  then show "path_elems s = take DIRSIZ e # path_elems (drop (length e) s)"
    using path_elems_first [OF e1 e0 r] r_def by metis
qed

lemma dropWhile_slash: "char_at (dropWhile (\<lambda>c. c = 47) p) 0 \<noteq> 47"
proof (cases "dropWhile (\<lambda>c. c = 47) p")
  case (Cons c cs)
  then show ?thesis using hd_dropWhile [of "\<lambda>c. c = 47" p] by (simp add: char_at_def)
qed (simp add: char_at_def)

lemma path_elems_Nil_iff: "char_at p 0 \<noteq> 47 \<Longrightarrow> char_at p 0 = 0 \<longleftrightarrow> path_elems p = []"
  using path_elems_end first_elem(1) by fastforce

text \<open>C32: \<^verbatim>\<open>skipelem\<close> splits path names as the reference definition does: it fails exactly when no element
  is left; otherwise it puts the next element into \<^verbatim>\<open>name\<close>, the remaining path has the remaining
  elements and no leading slash, and it is empty exactly when the element was the last.\<close>

theorem skipelem_splits_path:
  assumes "length name = DIRSIZ"
  shows "case skipelem p name of
      None \<Rightarrow> path_elems p = []
    | Some (p1, name1) \<Rightarrow> length name1 = DIRSIZ \<and> path_elems p = cstr (char_at name1) DIRSIZ # path_elems p1 \<and>
        char_at p1 0 \<noteq> 47 \<and> (char_at p1 0 = 0 \<longleftrightarrow> path_elems p1 = []) \<and> length p1 < length p"
proof -
  define s where "s = dropWhile (\<lambda>c. c = 47) p"
  have ps: "path_elems p = path_elems s" by (simp add: s_def path_elems_dropWhile)
  have s47: "char_at s 0 \<noteq> 47" unfolding s_def by (rule dropWhile_slash)
  show ?thesis
  proof (cases "char_at s 0 = 0")
    case True
    then have "skipelem p name = None" by (simp add: skipelem_def s_def)
    then show ?thesis using path_elems_end [OF True] ps by simp
  next
    case False
    define e where "e = takeWhile (\<lambda>c. c \<noteq> 47 \<and> c \<noteq> 0) s"
    define p1 where "p1 = dropWhile (\<lambda>c. c = 47) (drop (length e) s)"
    define n1 where "n1 = (if DIRSIZ \<le> length e then wr 0 (take DIRSIZ e) name else wr 0 (e @ [0]) name)"
    have k: "skipelem p name = Some (p1, n1)"
      using False unfolding skipelem_def Let_def s_def e_def p1_def n1_def by simp
    note F = first_elem [OF False s47, folded e_def]
    have "path_elems p = take DIRSIZ e # path_elems p1" using F(1) ps by (simp add: p1_def path_elems_dropWhile)
    moreover note elem_buffer [OF F(2) assms, folded n1_def]
    moreover have h: "char_at p1 0 \<noteq> 47" unfolding p1_def by (rule dropWhile_slash)
    ultimately show ?thesis
      unfolding k option.case prod.case using path_elems_Nil_iff [OF h] skipelem_shorter [OF k] by metis
  qed
qed

theorem skipelem_splits_path_witness:
  "length (replicate 14 (0::u8)) = DIRSIZ \<and> skipelem [47, 97, 47, 47, 98, 0] (replicate 14 0) = Some ([98, 0], 97 # replicate 13 0) \<and>
   path_elems [47, 97, 47, 47, 98, 0] = [[97], [98]] \<and> char_at [98, 0] 0 \<noteq> 47"
proof -
  have l: "length (replicate 14 (0::u8)) = DIRSIZ" by (simp add: DIRSIZ_def)
  have k: "skipelem [47, 97, 47, 47, 98, 0] (replicate 14 0) = Some ([98, 0], 97 # replicate 13 0)" by code_simp
  have p: "path_elems [47, 97, 47, 47, 98, 0] = [[97], [98]]" by code_simp
  from skipelem_splits_path [OF l, of "[47, 97, 47, 47, 98, 0]"] have "char_at [98, 0] 0 \<noteq> 47"
    unfolding k option.case prod.case by blast
  with l k p show ?thesis by blast
qed

end
