(* ===== verification/Ring.thy ===== *)
theory Ring
  imports Prelude
begin

text \<open>
  Ring buffers. Pipes, the semaphore's waiting queue and the UART's transmit buffer keep a
  queue in an array with a head and a tail that run round. \<open>ring xs h n\<close> are the \<open>n\<close> elements
  of the array \<open>xs\<close> from position \<open>h\<close> on. The locale \<open>bounded_queue\<close> is the contract these
  components share and what follows from it.
\<close>

definition ring :: "'a list \<Rightarrow> nat \<Rightarrow> nat \<Rightarrow> 'a list" where
  "ring xs h n = map (\<lambda>k. xs ! ((h + k) mod length xs)) [0..<n]"

lemma length_ring [simp]: "length (ring xs h n) = n"
  by (simp add: ring_def)

lemma ring_0 [simp]: "ring xs h 0 = []"
  by (simp add: ring_def)

lemma ring_eq_Nil [simp]: "ring xs h n = [] \<longleftrightarrow> n = 0"
  by (simp add: ring_def)

lemma ring_nth: "k < n \<Longrightarrow> ring xs h n ! k = xs ! ((h + k) mod length xs)"
  by (simp add: ring_def)

lemma ring_mod [simp]: "ring xs (h mod length xs) n = ring xs h n"
  by (simp add: ring_def mod_add_left_eq)

lemma mod_inj:
  assumes "(a + k) mod n = (a + j) mod n" "k < n" "j < (n :: nat)"
  shows "k = j"
proof -
  have "k = j" if "(a + k) mod n = (a + j) mod n" "k \<le> j" "j < n" for k j
  proof -
    have "n dvd (a + j) - (a + k)" using that by (intro mod_eq_dvd_iff_nat [THEN iffD1]) auto
    then have "n dvd j - k" by simp
    with that show ?thesis by (auto dest: dvd_imp_le)
  qed
  from this [of k j] this [of j k] assms show ?thesis by (metis nat_le_linear)
qed

lemma ring_put:
  assumes "n < length xs"
  shows "ring (xs[(h + n) mod length xs := x]) h (Suc n) = ring xs h n @ [x]"
proof (rule nth_equalityI)
  fix k assume "k < length (ring (xs[(h + n) mod length xs := x]) h (Suc n))"
  then have k: "k \<le> n" by simp
  have lt: "(h + n) mod length xs < length xs" using assms by (intro mod_less_divisor) linarith
  show "ring (xs[(h + n) mod length xs := x]) h (Suc n) ! k = (ring xs h n @ [x]) ! k"
  proof (cases "k = n")
    case True
    then show ?thesis using lt by (simp add: ring_nth nth_append)
  next
    case False
    then have "(h + k) mod length xs \<noteq> (h + n) mod length xs" using mod_inj [of h k "length xs" n] k assms by auto
    then show ?thesis using False k by (simp add: ring_nth nth_append)
  qed
qed simp

lemma ring_get: "ring xs h (Suc n) = xs ! (h mod length xs) # ring xs (Suc h) n"
proof (rule nth_equalityI)
  fix k assume "k < length (ring xs h (Suc n))"
  then show "ring xs h (Suc n) ! k = (xs ! (h mod length xs) # ring xs (Suc h) n) ! k"
    by (cases k) (simp_all add: ring_nth)
qed simp

section \<open>Bounded queues\<close>

text \<open>
  \<open>items\<close> is the abstract queue, \<open>inv\<close> the representation invariant. An element is put
  only when the queue is not full and taken only when it is not empty.
\<close>

locale bounded_queue =
  fixes inv :: "'q \<Rightarrow> bool"
    and items :: "'q \<Rightarrow> 'a list"
    and cap :: nat
    and full :: "'q \<Rightarrow> bool"
    and empty :: "'q \<Rightarrow> bool"
    and put :: "'q \<Rightarrow> 'a \<Rightarrow> 'q"
    and get :: "'q \<Rightarrow> 'a \<times> 'q"
  assumes full_law: "inv q \<Longrightarrow> full q \<longleftrightarrow> length (items q) = cap"
    and empty_law: "inv q \<Longrightarrow> empty q \<longleftrightarrow> items q = []"
    and bound_law: "inv q \<Longrightarrow> length (items q) \<le> cap"
    and put_law: "inv q \<Longrightarrow> \<not> full q \<Longrightarrow> inv (put q x) \<and> items (put q x) = items q @ [x]"
    and get_law: "inv q \<Longrightarrow> \<not> empty q \<Longrightarrow> inv (snd (get q)) \<and> items q = fst (get q) # items (snd (get q))"
begin

fun put_all :: "'q \<Rightarrow> 'a list \<Rightarrow> 'q" where
  "put_all q [] = q"
| "put_all q (x # xs) = put_all (put q x) xs"

fun get_all :: "nat \<Rightarrow> 'q \<Rightarrow> 'a list \<times> 'q" where
  "get_all 0 q = ([], q)"
| "get_all (Suc n) q = (fst (get q) # fst (get_all n (snd (get q))), snd (get_all n (snd (get q))))"

lemma put_all_items:
  "inv q \<Longrightarrow> length (items q) + length xs \<le> cap \<Longrightarrow> inv (put_all q xs) \<and> items (put_all q xs) = items q @ xs"
proof (induction xs arbitrary: q)
  case (Cons x xs)
  then have "\<not> full q" by (simp add: full_law)
  with Cons show ?case using put_law [of q x] by simp
qed simp

lemma get_all_items:
  "inv q \<Longrightarrow> n \<le> length (items q) \<Longrightarrow>
     fst (get_all n q) = take n (items q) \<and> items (snd (get_all n q)) = drop n (items q) \<and> inv (snd (get_all n q))"
proof (induction n arbitrary: q)
  case (Suc n)
  then have "\<not> empty q" by (auto simp: empty_law)
  with Suc.prems have "inv (snd (get q))" "items q = fst (get q) # items (snd (get q))" using get_law [of q] by auto
  with Suc show ?case by simp
qed simp

lemma put_get_all:
  assumes "inv q" "items q = []" "length xs \<le> cap"
  shows "fst (get_all (length xs) (put_all q xs)) = xs"
  using put_all_items [OF assms(1), of xs] get_all_items [of "put_all q xs" "length xs"] assms by simp

lemma put_bound: "inv q \<Longrightarrow> \<not> full q \<Longrightarrow> length (items q) < cap"
  using full_law bound_law by (metis le_neq_implies_less)

end

end
