(* ===== verification/Pipe.thy ===== *)
theory Pipe
  imports Proc_Wait Ring
begin

text \<open>
  \<^verbatim>\<open>kernel/pipe.c\<close>: the ring buffer, reading, writing and closing; that a pipe is a first-in
  first-out queue of bytes under every interleaving of readers and writers, and that
  sleeping readers and writers are woken. \<^verbatim>\<open>pipealloc\<close> is in \<open>File\<close>.
\<close>

definition PIPESIZE :: nat where "PIPESIZE = 512"

record pipe =
  pi_data :: "u8 list"
  pi_nread :: u32
  pi_nwrite :: u32
  pi_readopen :: bool
  pi_writeopen :: bool

definition pipe_empty :: "pipe \<Rightarrow> bool" where
  "pipe_empty q \<longleftrightarrow> pi_nread q = pi_nwrite q"

definition pipe_full :: "pipe \<Rightarrow> bool" where
  "pipe_full q \<longleftrightarrow> pi_nwrite q = pi_nread q + of_nat PIPESIZE"

definition pipe_put :: "pipe \<Rightarrow> u8 \<Rightarrow> pipe" where
  "pipe_put q ch = q\<lparr>pi_data := (pi_data q)[unat (pi_nwrite q) mod PIPESIZE := ch], pi_nwrite := pi_nwrite q + 1\<rparr>"

definition pipe_get :: "pipe \<Rightarrow> u8 \<times> pipe" where
  "pipe_get q = (pi_data q ! (unat (pi_nread q) mod PIPESIZE), q\<lparr>pi_nread := pi_nread q + 1\<rparr>)"

text \<open>
  A pass of \<^verbatim>\<open>pipewrite\<close> through its loop, from byte \<open>i\<close> on, until it returns or sleeps; it
  goes on from the \<open>i\<close> at which it went to sleep. \<^verbatim>\<open>killed(pr)\<close> looks at a flag that the pipe's
  lock does not protect, so it may change while the loop runs: \<open>kf i\<close> is its answer in the
  iteration that would write byte \<open>i\<close>. \<open>pi\<close> is the address of the pipe.
\<close>

function pipewrite :: "sys \<Rightarrow> pipe \<Rightarrow> u64 \<Rightarrow> nat \<Rightarrow> (nat \<Rightarrow> bool) \<Rightarrow> u64 \<Rightarrow> int \<Rightarrow> nat \<Rightarrow>
    ((int, nat) run \<times> sys \<times> pipe) res" where
  "pipewrite s q pi me kf addr n i =
     (if int i < n
      then if \<not> pi_readopen q \<or> kf i then Ok (Returns (-1), s, q)
      else if pipe_full q
      then Ok (Sleeps i, s\<lparr>procs := go_to_sleep me (ChPipeWrite pi)
             (wakeup (Some me) (Some (ChPipeRead pi)) (procs s))\<rparr>, q)
      else (case copyin (mch s) (p_pagetable (prc s me)) (addr + of_nat i) 1 of
          Panic e \<Rightarrow> Panic e
        | Ok (r, bs) \<Rightarrow>
            if r = -1
            then Ok (Returns (int i), s\<lparr>procs := wakeup (Some me) (Some (ChPipeRead pi)) (procs s)\<rparr>, q)
            else pipewrite s (pipe_put q (hd bs)) pi me kf addr n (i + 1))
      else Ok (Returns (int i), s\<lparr>procs := wakeup (Some me) (Some (ChPipeRead pi)) (procs s)\<rparr>, q))"
  by pat_completeness auto
termination
  by (relation "measure (\<lambda>(s, q, pi, me, kf, addr, n, i). nat (n - int i))") auto

text \<open>The copying loop of \<^verbatim>\<open>piperead\<close>. The byte whose \<^verbatim>\<open>copyout\<close> fails has left the pipe.\<close>

function piperead_loop :: "machine \<Rightarrow> pipe \<Rightarrow> u64 \<Rightarrow> u64 \<Rightarrow> int \<Rightarrow> nat \<Rightarrow> (int \<times> machine \<times> pipe) res" where
  "piperead_loop m q pagetable addr n i =
     (if int i < n
      then if pipe_empty q then Ok (int i, m, q)
      else (let (ch, q1) = pipe_get q in
        case copyout m pagetable (addr + of_nat i) [ch] of
          Panic e \<Rightarrow> Panic e
        | Ok (r, m1) \<Rightarrow>
            if r = -1 then Ok (int i, m1, q1) else piperead_loop m1 q1 pagetable addr n (i + 1))
      else Ok (int i, m, q))"
  by pat_completeness auto
termination
  by (relation "measure (\<lambda>(m, q, pt, addr, n, i). nat (n - int i))") auto

declare pipewrite.simps [simp del] piperead_loop.simps [simp del]

definition piperead :: "sys \<Rightarrow> pipe \<Rightarrow> u64 \<Rightarrow> nat \<Rightarrow> bool \<Rightarrow> u64 \<Rightarrow> int \<Rightarrow> ((int, unit) run \<times> sys \<times> pipe) res" where
  "piperead s q pi me k addr n =
     (if pipe_empty q \<and> pi_writeopen q
      then if k then Ok (Returns (-1), s, q)
           else Ok (Sleeps (), s\<lparr>procs := go_to_sleep me (ChPipeRead pi) (procs s)\<rparr>, q)
      else and_then (piperead_loop (mch s) q (p_pagetable (prc s me)) addr n 0) (\<lambda>(r, m, q1).
        Ok (Returns r, s\<lparr>mch := m, procs := wakeup (Some me) (Some (ChPipeWrite pi)) (procs s)\<rparr>, q1)))"

text \<open>\<^verbatim>\<open>pipeclose\<close>; when both ends are closed the page is freed and the pipe is gone.\<close>

definition pipeclose :: "sys \<Rightarrow> pipe \<Rightarrow> u64 \<Rightarrow> nat option \<Rightarrow> bool \<Rightarrow> (sys \<times> pipe option) res" where
  "pipeclose s q pi me w_end =
     (let (s1, q1) =
        (if w_end
         then (s\<lparr>procs := wakeup me (Some (ChPipeRead pi)) (procs s)\<rparr>, q\<lparr>pi_writeopen := False\<rparr>)
         else (s\<lparr>procs := wakeup me (Some (ChPipeWrite pi)) (procs s)\<rparr>, q\<lparr>pi_readopen := False\<rparr>)) in
      if \<not> pi_readopen q1 \<and> \<not> pi_writeopen q1
      then and_then (kfree (mch s1) pi) (\<lambda>m. Ok (s1\<lparr>mch := m\<rparr>, None))
      else Ok (s1, Some q1))"

section \<open>The ring is a queue\<close>

definition pipe_len :: "pipe \<Rightarrow> nat" where
  "pipe_len q = unat (pi_nwrite q - pi_nread q)"

definition pipe_inv :: "pipe \<Rightarrow> bool" where
  "pipe_inv q \<longleftrightarrow> length (pi_data q) = PIPESIZE \<and> pipe_len q \<le> PIPESIZE"

definition pipe_bytes :: "pipe \<Rightarrow> u8 list" where
  "pipe_bytes q = ring (pi_data q) (unat (pi_nread q)) (pipe_len q)"

lemma length_pipe_bytes [simp]: "length (pipe_bytes q) = pipe_len q"
  by (simp add: pipe_bytes_def)

lemma pipe_empty_iff: "pipe_empty q \<longleftrightarrow> pipe_bytes q = []"
proof -
  have "pipe_empty q \<longleftrightarrow> pipe_len q = 0" by (auto simp: pipe_empty_def pipe_len_def unat_eq_zero)
  then show ?thesis by (metis length_0_conv length_pipe_bytes)
qed

lemma pipe_full_iff: "pipe_full q \<longleftrightarrow> pipe_len q = PIPESIZE"
proof -
  have "unat (of_nat PIPESIZE :: u32) = PIPESIZE" by (simp add: PIPESIZE_def)
  then have "pipe_len q = PIPESIZE \<longleftrightarrow> pi_nwrite q - pi_nread q = of_nat PIPESIZE"
    unfolding pipe_len_def by (simp add: word_unat_eq_iff)
  then show ?thesis by (auto simp: pipe_full_def algebra_simps)
qed

lemma nwrite_index: "unat (pi_nwrite q) mod PIPESIZE = (unat (pi_nread q) + pipe_len q) mod PIPESIZE"
proof -
  have "unat (pi_nwrite q) = (unat (pi_nread q) + pipe_len q) mod 2 ^ 32"
    using unat_word_ariths(1) [of "pi_nread q" "pi_nwrite q - pi_nread q"] by (simp add: pipe_len_def)
  then show ?thesis by (simp add: PIPESIZE_def mod_mod_cancel)
qed

lemma pipe_put_len: "pipe_inv q \<Longrightarrow> \<not> pipe_full q \<Longrightarrow> pipe_len (pipe_put q ch) = Suc (pipe_len q)"
proof -
  assume "pipe_inv q" "\<not> pipe_full q"
  then have "unat (pi_nwrite q - pi_nread q) < 512" by (simp add: pipe_full_iff pipe_inv_def pipe_len_def PIPESIZE_def)
  then have "unat (pi_nwrite q - pi_nread q + 1) = Suc (unat (pi_nwrite q - pi_nread q))"
    by (simp only: unat_word_ariths) simp
  then show ?thesis by (simp add: pipe_len_def pipe_put_def algebra_simps)
qed

lemma pipe_get_len: "\<not> pipe_empty q \<Longrightarrow> pipe_len q = Suc (pipe_len (snd (pipe_get q)))"
proof -
  assume "\<not> pipe_empty q"
  then have "pi_nwrite q - pi_nread q \<noteq> 0" by (auto simp: pipe_empty_def)
  then have "unat (pi_nwrite q - pi_nread q) = Suc (unat (pi_nwrite q - pi_nread q - 1))"
    by (simp add: unat_minus_one unat_gt_0)
  then show ?thesis by (simp add: pipe_len_def pipe_get_def diff_diff_eq)
qed

text \<open>The two refinement steps: \<open>pipe_put\<close> appends, \<open>pipe_get\<close> takes the head.\<close>

lemma pipe_put_bytes:
  assumes "pipe_inv q" "\<not> pipe_full q"
  shows "pipe_bytes (pipe_put q ch) = pipe_bytes q @ [ch]" "pipe_inv (pipe_put q ch)"
proof -
  have len: "pipe_len q < PIPESIZE" "length (pi_data q) = PIPESIZE"
    using assms by (auto simp: pipe_full_iff pipe_inv_def)
  show "pipe_inv (pipe_put q ch)" using pipe_put_len [OF assms, of ch] len by (simp add: pipe_inv_def pipe_put_def)
  show "pipe_bytes (pipe_put q ch) = pipe_bytes q @ [ch]"
    using ring_put [of "pipe_len q" "pi_data q" "unat (pi_nread q)" ch] len
    unfolding pipe_bytes_def pipe_put_len [OF assms] by (simp add: pipe_put_def nwrite_index)
qed

lemma pipe_get_bytes:
  assumes "pipe_inv q" "\<not> pipe_empty q" "pipe_get q = (ch, q')"
  shows "pipe_bytes q = ch # pipe_bytes q'" "pipe_inv q'"
proof -
  have q': "q' = snd (pipe_get q)" "ch = fst (pipe_get q)" using assms(3) by simp_all
  have l: "pipe_len q = Suc (pipe_len q')" using pipe_get_len [OF assms(2)] q' by simp
  then show "pipe_inv q'" using assms(1) by (auto simp: pipe_inv_def q' pipe_get_def)
  have d: "length (pi_data q) = PIPESIZE" using assms(1) by (simp add: pipe_inv_def)
  have "unat (pi_nread q + 1) mod PIPESIZE = Suc (unat (pi_nread q)) mod PIPESIZE"
    by (simp only: unat_word_ariths) (simp add: PIPESIZE_def mod_mod_cancel)
  then have "ring (pi_data q) (unat (pi_nread q + 1)) n = ring (pi_data q) (Suc (unat (pi_nread q))) n" for n
    using ring_mod [of "pi_data q"] d by metis
  then show "pipe_bytes q = ch # pipe_bytes q'"
    using ring_get [of "pi_data q" "unat (pi_nread q)" "pipe_len q'"] d
    unfolding pipe_bytes_def l by (simp add: q' pipe_get_def)
qed

interpretation pipe_queue: bounded_queue pipe_inv pipe_bytes PIPESIZE pipe_full pipe_empty pipe_put pipe_get
proof
  fix q :: pipe assume "pipe_inv q"
  then show "pipe_full q \<longleftrightarrow> length (pipe_bytes q) = PIPESIZE" "length (pipe_bytes q) \<le> PIPESIZE"
    "pipe_empty q \<longleftrightarrow> pipe_bytes q = []"
    by (simp_all add: pipe_full_iff pipe_inv_def pipe_empty_iff)
next
  fix q :: pipe and x assume "pipe_inv q" "\<not> pipe_full q"
  then show "pipe_inv (pipe_put q x) \<and> pipe_bytes (pipe_put q x) = pipe_bytes q @ [x]" using pipe_put_bytes by blast
next
  fix q :: pipe assume "pipe_inv q" "\<not> pipe_empty q"
  then show "pipe_inv (snd (pipe_get q)) \<and> pipe_bytes q = fst (pipe_get q) # pipe_bytes (snd (pipe_get q))"
    using pipe_get_bytes [of q "fst (pipe_get q)" "snd (pipe_get q)"] by simp
qed

section \<open>What the operations do to the queue\<close>

lemma pipe_put_fields [simp]:
  "pi_readopen (pipe_put q ch) = pi_readopen q" "pi_writeopen (pipe_put q ch) = pi_writeopen q"
  by (simp_all add: pipe_put_def)

text \<open>
  How a pass of \<open>pipewrite\<close> ends, with the bytes \<open>bs\<close> added to the queue: by an error, by going
  to sleep on a full pipe, or after the last byte or at an unreadable address.
\<close>

definition write_outcome :: "sys \<Rightarrow> pipe \<Rightarrow> u64 \<Rightarrow> nat \<Rightarrow> (nat \<Rightarrow> bool) \<Rightarrow> u64 \<Rightarrow> int \<Rightarrow> nat \<Rightarrow>
    (int, nat) run \<Rightarrow> sys \<Rightarrow> bool" where
  "write_outcome s q pi me kf addr n k r s' \<longleftrightarrow>
     (case r of
        Sleeps j \<Rightarrow> j = k \<and> pipe_full q \<and> pi_readopen q \<and> \<not> kf k \<and> int k < n \<and>
          s' = s\<lparr>procs := go_to_sleep me (ChPipeWrite pi) (wakeup (Some me) (Some (ChPipeRead pi)) (procs s))\<rparr>
      | Returns v \<Rightarrow>
          v = -1 \<and> s' = s \<and> (\<not> pi_readopen q \<or> kf k) \<or>
          v = int k \<and> s' = s\<lparr>procs := wakeup (Some me) (Some (ChPipeRead pi)) (procs s)\<rparr> \<and>
            (n \<le> int k \<or> \<not> readable (pm (mch s)) (p_pagetable (prc s me)) (addr + of_nat k)))"

lemma copyin_one:
  assumes "uspace s pt F"
  shows "copyin s pt a 1 = (if readable (pm s) pt a then Ok (0, [ubyte s pt a]) else Ok (-1, []))"
proof -
  obtain k where k: "upto_fault (readable (pm s) pt) a 1 k"
    "copyin s pt a 1 = Ok (if k = 1 then 0 else -1, user_bytes s pt a k)"
    using copyin_spec [OF assms] by blast
  have "k = (if readable (pm s) pt a then 1 else 0)"
  proof (cases "k = 0")
    case True
    with k(1) show ?thesis by (simp add: upto_fault_def)
  next
    case False
    with k(1) have "k = 1" by (simp add: upto_fault_def)
    with k(1) show ?thesis by (simp add: upto_fault_def)
  qed
  with k(2) show ?thesis by (auto simp: user_bytes_def)
qed

lemma pipewrite_spec:
  assumes "uspace (mch s) (p_pagetable (prc s me)) F" "pipe_inv q" "pipewrite s q pi me kf addr n i = Ok (r, s', q')"
  shows "\<exists>k. pipe_inv q' \<and>
    pipe_bytes q' = pipe_bytes q @ user_bytes (mch s) (p_pagetable (prc s me)) (addr + of_nat i) k \<and>
    pi_readopen q' = pi_readopen q \<and> pi_writeopen q' = pi_writeopen q \<and>
    (0 < k \<longrightarrow> pi_readopen q \<and> \<not> kf i) \<and> write_outcome s q' pi me kf addr n (i + k) r s'"
  using assms
proof (induction s q pi me kf addr n i rule: pipewrite.induct)
  case (1 s q pi me kf addr n i)
  let ?pt = "p_pagetable (prc s me)" let ?a = "addr + of_nat i"
  note E = "1.prems"(3) [unfolded pipewrite.simps [of s q pi me kf addr n i]]
  consider "\<not> int i < n" | "int i < n" "\<not> pi_readopen q \<or> kf i" | "int i < n" "pi_readopen q" "\<not> kf i" "pipe_full q"
    | "int i < n" "pi_readopen q" "\<not> kf i" "\<not> pipe_full q" "\<not> readable (pm (mch s)) ?pt ?a"
    | "int i < n" "pi_readopen q" "\<not> kf i" "\<not> pipe_full q" "readable (pm (mch s)) ?pt ?a" by blast
  then show ?case
  proof cases
    case 5
    have c: "copyin (mch s) ?pt ?a 1 = Ok (0, [ubyte (mch s) ?pt ?a])"
      using copyin_one [OF "1.prems"(1)] 5 by simp
    let ?q = "pipe_put q (ubyte (mch s) ?pt ?a)"
    note P = pipe_put_bytes [OF "1.prems"(2) 5(4), of "ubyte (mch s) ?pt ?a"]
    have "pipewrite s ?q pi me kf addr n (i + 1) = Ok (r, s', q')"
      using E 5 c by simp
    moreover have ih: "\<exists>k. pipe_inv q' \<and> pipe_bytes q' = pipe_bytes ?q @ user_bytes (mch s) ?pt (addr + of_nat (i + 1)) k \<and>
        pi_readopen q' = pi_readopen ?q \<and> pi_writeopen q' = pi_writeopen ?q \<and>
        (0 < k \<longrightarrow> pi_readopen ?q \<and> \<not> kf (i + 1)) \<and> write_outcome s q' pi me kf addr n (i + 1 + k) r s'"
      using "1.IH" [of "(0, [ubyte (mch s) ?pt ?a])" 0 "[ubyte (mch s) ?pt ?a]"] 5 c "1.prems"(1) P(2) calculation by simp
    then obtain k where k: "pipe_inv q'" "pipe_bytes q' = pipe_bytes ?q @ user_bytes (mch s) ?pt (addr + of_nat (i + 1)) k"
        "pi_readopen q' = pi_readopen q" "pi_writeopen q' = pi_writeopen q" "write_outcome s q' pi me kf addr n (i + 1 + k) r s'"
      by auto
    have "user_bytes (mch s) ?pt ?a (Suc k) = ubyte (mch s) ?pt ?a # user_bytes (mch s) ?pt (addr + of_nat (i + 1)) k"
      using user_bytes_append [of "mch s" ?pt ?a 1 k] by (simp add: user_bytes_def add.commute add.left_commute)
    with k P(1) 5(2,3) show ?thesis by (intro exI [of _ "Suc k"]) auto
  qed (use E "1.prems"(2) copyin_one [OF "1.prems"(1), of ?a] in
      \<open>intro exI [of _ 0], auto simp: write_outcome_def user_bytes_def\<close>)
qed

lemma pipe_get_fields:
  assumes "pipe_get q = (ch, q')"
  shows "pi_readopen q' = pi_readopen q" "pi_writeopen q' = pi_writeopen q"
  using assms by (auto simp: pipe_get_def)

lemma copyout_one:
  assumes "uspace s pt F" "kinv s F"
  obtains s' where "copyout s pt a [b] = Ok (if writable (pm s) pt a then 0 else -1, s')"
    "uspace s' pt F" "kinv s' F" "same_space pt s s'"
    "\<And>va. readable (pm s) pt va \<Longrightarrow> ubyte s' pt va = (if writable (pm s) pt a \<and> va = a then b else ubyte s pt va)"
proof -
  obtain k s' where k: "upto_fault (writable (pm s) pt) a (length [b]) k"
    "copyout s pt a [b] = Ok (if k = length [b] then 0 else -1, s')" "uspace s' pt F" "kinv s' F" "same_space pt s s'"
    "\<forall>va. readable (pm s) pt va \<longrightarrow> ubyte s' pt va = (if unat (va - a) < k then [b] ! unat (va - a) else ubyte s pt va)"
    using copyout_spec [OF assms, of "[b]" a] by auto
  have kk: "k = (if writable (pm s) pt a then 1 else 0)"
  proof (cases "k = 0")
    case True
    with k(1) show ?thesis by (simp add: upto_fault_def)
  next
    case False
    with k(1) have "k = 1" by (simp add: upto_fault_def)
    with k(1) show ?thesis by (simp add: upto_fault_def)
  qed
  have z: "unat (va - a) = 0 \<longleftrightarrow> va = a" for va by (simp add: unat_eq_zero)
  show thesis
    by (rule that [OF _ k(3-5)]) (use k(2,6) kk z in \<open>auto split: if_splits\<close>)
qed

lemma same_space_access:
  assumes "same_space pt s s'"
  shows "readable (pm s') pt = readable (pm s) pt" "writable (pm s') pt = writable (pm s) pt"
  using assms by (auto simp: same_space_def readable_def writable_def fun_eq_iff)

lemma unat_Suc_minus_1: "x \<noteq> (0 :: u64) \<Longrightarrow> unat x = Suc (unat (x - 1))"
  by (simp add: unat_minus_one unat_gt_0)

lemma int_less_2p63: "int k < 2 ^ 63 \<Longrightarrow> k < 2 ^ 64 - 1"
  by simp

lemma piperead_loop_spec:
  assumes "uspace m pt F" "kinv m F" "pipe_inv q" "n < 2 ^ 63" "piperead_loop m q pt addr n i = Ok (r, m', q')"
  shows "\<exists>bs k. pipe_inv q' \<and> pipe_bytes q = bs @ pipe_bytes q' \<and> r = int (i + k) \<and> (int i \<le> n \<longrightarrow> int (i + k) \<le> n) \<and>
    (length bs = k \<or> length bs = Suc k \<and> \<not> writable (pm m) pt (addr + of_nat (i + k))) \<and>
    (int (i + k) < n \<longrightarrow> pipe_bytes q' = [] \<or> \<not> writable (pm m) pt (addr + of_nat (i + k))) \<and>
    pi_readopen q' = pi_readopen q \<and> pi_writeopen q' = pi_writeopen q \<and> same_space pt m m' \<and> uspace m' pt F \<and> kinv m' F \<and>
    (\<forall>va. readable (pm m) pt va \<longrightarrow> ubyte m' pt va =
      (if unat (va - (addr + of_nat i)) < k then bs ! unat (va - (addr + of_nat i)) else ubyte m pt va))"
  using assms
proof (induction m q pt addr n i rule: piperead_loop.induct)
  case (1 m q pt addr n i)
  note E = "1.prems"(5) [unfolded piperead_loop.simps [of m q pt addr n i]]
  let ?a = "addr + of_nat i :: u64"
  have sp: "same_space pt m m" by (simp add: same_space_def)
  show ?case
  proof (cases "int i < n \<and> \<not> pipe_empty q")
    case False
    then have "r = int i" "m' = m" "q' = q" using E by (auto split: if_splits)
    with False "1.prems" sp show ?thesis
      by (intro exI [of _ "[]"] exI [of _ 0]) (auto simp: pipe_empty_iff)
  next
    case True
    obtain ch q1 where g: "pipe_get q = (ch, q1)" by force
    note G = pipe_get_bytes [OF "1.prems"(3) _ g] pipe_get_fields [OF g]
    obtain m1 where c: "copyout m pt ?a [ch] = Ok (if writable (pm m) pt ?a then 0 else -1, m1)"
      and M: "uspace m1 pt F" "kinv m1 F" "same_space pt m m1"
      "\<And>va. readable (pm m) pt va \<Longrightarrow> ubyte m1 pt va = (if writable (pm m) pt ?a \<and> va = ?a then ch else ubyte m pt va)"
      using copyout_one [OF "1.prems"(1,2), of ?a ch] by metis
    show ?thesis
    proof (cases "writable (pm m) pt ?a")
      case w: False
      then have "r = int i" "m' = m1" "q' = q1" using E True g c by auto
      with w True G M g show ?thesis
        by (intro exI [of _ "[ch]"] exI [of _ 0]) auto
    next
      case w: True
      have L: "piperead_loop m1 q1 pt addr n (i + 1) = Ok (r, m', q')" using E True g c w by simp
      have "\<exists>bs k. pipe_inv q' \<and> pipe_bytes q1 = bs @ pipe_bytes q' \<and> r = int (i + 1 + k) \<and> (int (i + 1) \<le> n \<longrightarrow> int (i + 1 + k) \<le> n) \<and>
        (length bs = k \<or> length bs = Suc k \<and> \<not> writable (pm m1) pt (addr + of_nat (i + 1 + k))) \<and>
        (int (i + 1 + k) < n \<longrightarrow> pipe_bytes q' = [] \<or> \<not> writable (pm m1) pt (addr + of_nat (i + 1 + k))) \<and>
        pi_readopen q' = pi_readopen q1 \<and> pi_writeopen q' = pi_writeopen q1 \<and> same_space pt m1 m' \<and> uspace m' pt F \<and> kinv m' F \<and>
        (\<forall>va. readable (pm m1) pt va \<longrightarrow> ubyte m' pt va =
          (if unat (va - (addr + of_nat (i + 1))) < k then bs ! unat (va - (addr + of_nat (i + 1))) else ubyte m1 pt va))"
        using "1.IH" [of "(ch, q1)" ch q1 "(0, m1)" 0 m1] True g c w M(1,2) G(2) "1.prems"(4) L by simp
      then obtain bs k where k: "pipe_inv q'" "pipe_bytes q1 = bs @ pipe_bytes q'" "r = int (i + 1 + k)" "int (i + 1 + k) \<le> n"
        "length bs = k \<or> length bs = Suc k \<and> \<not> writable (pm m) pt (addr + of_nat (i + 1 + k))"
        "int (i + 1 + k) < n \<longrightarrow> pipe_bytes q' = [] \<or> \<not> writable (pm m) pt (addr + of_nat (i + 1 + k))"
        "pi_readopen q' = pi_readopen q" "pi_writeopen q' = pi_writeopen q" "same_space pt m1 m'" "uspace m' pt F" "kinv m' F"
        "\<forall>va. readable (pm m) pt va \<longrightarrow> ubyte m' pt va =
          (if unat (va - (addr + of_nat (i + 1))) < k then bs ! unat (va - (addr + of_nat (i + 1))) else ubyte m1 pt va)"
        using G(3,4) True unfolding same_space_access [OF M(3)] by force
      have "ubyte m' pt va = (if unat (va - ?a) < Suc k then (ch # bs) ! unat (va - ?a) else ubyte m pt va)"
        if "readable (pm m) pt va" for va
      proof -
        have e: "va - (addr + of_nat (i + 1)) = va - ?a - 1" by (simp add: algebra_simps)
        note ub = k(12) [rule_format, OF that, unfolded e]
        have "int k < 2 ^ 63" using k(4) "1.prems"(4) by linarith
        then have kb: "k < 2 ^ 64 - 1" using int_less_2p63 by blast
        show ?thesis
        proof (cases "va = ?a")
          case True
          then have "\<not> unat (va - ?a - 1) < k" using kb by (simp add: unat_minus_1_u64)
          then show ?thesis using ub M(4) [OF that] w True by simp
        next
          case False
          then have "unat (va - ?a) = Suc (unat (va - ?a - 1))"
            by (intro unat_Suc_minus_1) simp
          then show ?thesis using ub M(4) [OF that] False by simp
        qed
      qed
      then have bytes: "\<forall>va. readable (pm m) pt va \<longrightarrow> ubyte m' pt va =
          (if unat (va - ?a) < Suc k then (ch # bs) ! unat (va - ?a) else ubyte m pt va)" by blast
      have ik: "i + Suc k = i + 1 + k" by simp
      have qb: "pipe_bytes q = (ch # bs) @ pipe_bytes q'" using G(1) True k(2) by simp
      have sp': "same_space pt m m'" using M(3) k(9) by (rule same_space_trans)
      show ?thesis
        by (rule exI [of _ "ch # bs"], rule exI [of _ "Suc k"], unfold ik)
          (use k(1,3-8,10,11) qb sp' bytes in \<open>intro conjI; simp\<close>)
    qed
  qed
qed

section \<open>Readers and writers together\<close>

text \<open>
  The pipe at page \<open>pi\<close> and the processes that use it. \<open>W\<close> is everything ever written into
  the pipe, \<open>R\<close> everything taken out. A step is a pass of a reader or a writer, the closing
  of one end while the other is open, or anything else the system does: it may change
  memory and processes at will, but nobody else sleeps on the pipe's channels.
\<close>

record pstate =
  ps_sys :: sys
  ps_pipe :: pipe
  ps_written :: "u8 list"
  ps_read :: "u8 list"

definition added :: "pipe \<Rightarrow> pipe \<Rightarrow> u8 list" where
  "added q q' = drop (pipe_len q) (pipe_bytes q')"

definition removed :: "pipe \<Rightarrow> pipe \<Rightarrow> u8 list" where
  "removed q q' = take (pipe_len q - pipe_len q') (pipe_bytes q)"

inductive pipe_step :: "u64 \<Rightarrow> bool \<Rightarrow> pstate \<Rightarrow> pstate \<Rightarrow> bool" for pi calm where
  pp_write: "me < length (procs (ps_sys t)) \<Longrightarrow> p_state (prc (ps_sys t) me) = RUNNING \<Longrightarrow>
    uspace (mch (ps_sys t)) (p_pagetable (prc (ps_sys t) me)) F \<Longrightarrow> (calm \<Longrightarrow> \<forall>j. kf j = kf i) \<Longrightarrow>
    pipewrite (ps_sys t) (ps_pipe t) pi me kf addr n i = Ok (r, s', q') \<Longrightarrow>
    pipe_step pi calm t (t\<lparr>ps_sys := s', ps_pipe := q', ps_written := ps_written t @ added (ps_pipe t) q'\<rparr>)"
| pp_read: "me < length (procs (ps_sys t)) \<Longrightarrow> p_state (prc (ps_sys t) me) = RUNNING \<Longrightarrow>
    uspace (mch (ps_sys t)) (p_pagetable (prc (ps_sys t) me)) F \<Longrightarrow> kinv (mch (ps_sys t)) F \<Longrightarrow> n < 2 ^ 63 \<Longrightarrow>
    piperead (ps_sys t) (ps_pipe t) pi me k addr n = Ok (r', s', q') \<Longrightarrow>
    pipe_step pi calm t (t\<lparr>ps_sys := s', ps_pipe := q', ps_read := ps_read t @ removed (ps_pipe t) q'\<rparr>)"
| pp_close: "p_state (prc (ps_sys t) me) = RUNNING \<Longrightarrow>
    pipeclose (ps_sys t) (ps_pipe t) pi (Some me) w_end = Ok (s', Some q') \<Longrightarrow>
    pipe_step pi calm t (t\<lparr>ps_sys := s', ps_pipe := q'\<rparr>)"
| pp_other: "(\<And>j. sleeps_on s' (ChPipeRead pi) j \<Longrightarrow> sleeps_on (ps_sys t) (ChPipeRead pi) j) \<Longrightarrow>
    (\<And>j. sleeps_on s' (ChPipeWrite pi) j \<Longrightarrow> sleeps_on (ps_sys t) (ChPipeWrite pi) j) \<Longrightarrow>
    pipe_step pi calm t (t\<lparr>ps_sys := s'\<rparr>)"

definition fifo :: "pstate \<Rightarrow> bool" where
  "fifo t \<longleftrightarrow> pipe_inv (ps_pipe t) \<and> ps_written t = ps_read t @ pipe_bytes (ps_pipe t)"

definition waits_justly :: "u64 \<Rightarrow> pstate \<Rightarrow> bool" where
  "waits_justly pi t \<longleftrightarrow>
     (\<forall>j. sleeps_on (ps_sys t) (ChPipeRead pi) j \<longrightarrow> pipe_bytes (ps_pipe t) = [] \<and> pi_writeopen (ps_pipe t)) \<and>
     (\<forall>j. sleeps_on (ps_sys t) (ChPipeWrite pi) j \<longrightarrow> pipe_len (ps_pipe t) = PIPESIZE \<and> pi_readopen (ps_pipe t))"

lemma pipe_write_step:
  assumes "pipe_inv q" "uspace (mch s) (p_pagetable (prc s me)) F" "pipewrite s q pi me kf addr n i = Ok (r, s', q')"
  shows "pipe_inv q'" "pipe_bytes q' = pipe_bytes q @ added q q'"
    "pi_readopen q' = pi_readopen q" "pi_writeopen q' = pi_writeopen q"
    "added q q' = [] \<or> pi_readopen q \<and> \<not> kf i"
    "write_outcome s q' pi me kf addr n (i + length (added q q')) r s'"
proof -
  from pipewrite_spec [OF assms(2,1,3)] obtain k where k: "pipe_inv q'"
      "pipe_bytes q' = pipe_bytes q @ user_bytes (mch s) (p_pagetable (prc s me)) (addr + of_nat i) k"
      "pi_readopen q' = pi_readopen q" "pi_writeopen q' = pi_writeopen q" "0 < k \<longrightarrow> pi_readopen q \<and> \<not> kf i"
      "write_outcome s q' pi me kf addr n (i + k) r s'"
    by blast
  then have a: "added q q' = user_bytes (mch s) (p_pagetable (prc s me)) (addr + of_nat i) k" by (simp add: added_def)
  have "length (added q q') = k" unfolding a by simp
  moreover from this have "added q q' = [] \<longleftrightarrow> k = 0" by auto
  ultimately show "pipe_inv q'" "pipe_bytes q' = pipe_bytes q @ added q q'"
    "pi_readopen q' = pi_readopen q" "pi_writeopen q' = pi_writeopen q"
    "added q q' = [] \<or> pi_readopen q \<and> \<not> kf i"
    "write_outcome s q' pi me kf addr n (i + length (added q q')) r s'"
    using k a by auto
qed

lemma pipe_read_step:
  assumes "pipe_inv q" "uspace (mch s) (p_pagetable (prc s me)) F" "kinv (mch s) F" "n < 2 ^ 63"
    and "piperead s q pi me k addr n = Ok (r, s', q')"
  shows "pipe_inv q'" "pipe_bytes q = removed q q' @ pipe_bytes q'"
    "pi_readopen q' = pi_readopen q" "pi_writeopen q' = pi_writeopen q"
    "pipe_bytes q = [] \<and> pi_writeopen q \<and> q' = q \<and>
       (s' = s \<or> s' = s\<lparr>procs := go_to_sleep me (ChPipeRead pi) (procs s)\<rparr>) \<or>
     \<not> (pipe_bytes q = [] \<and> pi_writeopen q) \<and>
       (\<exists>m. s' = s\<lparr>mch := m, procs := wakeup (Some me) (Some (ChPipeWrite pi)) (procs s)\<rparr>)"
proof -
  have "pipe_inv q' \<and> (\<exists>bs. pipe_bytes q = bs @ pipe_bytes q') \<and> pi_readopen q' = pi_readopen q \<and> pi_writeopen q' = pi_writeopen q \<and>
    (pipe_bytes q = [] \<and> pi_writeopen q \<and> q' = q \<and> (s' = s \<or> s' = s\<lparr>procs := go_to_sleep me (ChPipeRead pi) (procs s)\<rparr>) \<or>
     \<not> (pipe_bytes q = [] \<and> pi_writeopen q) \<and>
       (\<exists>m. s' = s\<lparr>mch := m, procs := wakeup (Some me) (Some (ChPipeWrite pi)) (procs s)\<rparr>))"
  proof (cases "pipe_empty q \<and> pi_writeopen q")
    case True
    with assms show ?thesis by (auto simp: piperead_def pipe_empty_iff split: if_splits)
  next
    case False
    with assms(5) obtain v m where l: "piperead_loop (mch s) q (p_pagetable (prc s me)) addr n 0 = Ok (v, m, q')"
        "s' = s\<lparr>mch := m, procs := wakeup (Some me) (Some (ChPipeWrite pi)) (procs s)\<rparr>"
      by (auto simp: piperead_def split: res.splits)
    from piperead_loop_spec [OF assms(2,3,1,4) l(1)] obtain bs where "pipe_inv q'" "pipe_bytes q = bs @ pipe_bytes q'"
        "pi_readopen q' = pi_readopen q" "pi_writeopen q' = pi_writeopen q"
      by blast
    with False l(2) show ?thesis unfolding pipe_empty_iff by blast
  qed
  moreover from this obtain bs where "pipe_bytes q = bs @ pipe_bytes q'" by blast
  moreover from this have "removed q q' = bs"
    by (simp add: removed_def flip: length_pipe_bytes)
  ultimately show "pipe_inv q'" "pipe_bytes q = removed q q' @ pipe_bytes q'"
    "pi_readopen q' = pi_readopen q" "pi_writeopen q' = pi_writeopen q"
    "pipe_bytes q = [] \<and> pi_writeopen q \<and> q' = q \<and>
       (s' = s \<or> s' = s\<lparr>procs := go_to_sleep me (ChPipeRead pi) (procs s)\<rparr>) \<or>
     \<not> (pipe_bytes q = [] \<and> pi_writeopen q) \<and>
       (\<exists>m. s' = s\<lparr>mch := m, procs := wakeup (Some me) (Some (ChPipeWrite pi)) (procs s)\<rparr>)"
    by blast+
qed

lemma pipe_close_step:
  assumes "pipeclose s q pi me w_end = Ok (s', Some q')"
  shows "pipe_bytes q' = pipe_bytes q" "pipe_inv q' = pipe_inv q" "pipe_len q' = pipe_len q"
    "w_end \<and> pi_readopen q' = pi_readopen q \<and> s' = s\<lparr>procs := wakeup me (Some (ChPipeRead pi)) (procs s)\<rparr> \<or>
     \<not> w_end \<and> pi_writeopen q' = pi_writeopen q \<and> s' = s\<lparr>procs := wakeup me (Some (ChPipeWrite pi)) (procs s)\<rparr>"
  using assms by (auto simp: pipeclose_def pipe_bytes_def pipe_inv_def pipe_len_def split: if_splits res.splits)

lemma fifo_step: "pipe_step pi calm t t' \<Longrightarrow> fifo t \<Longrightarrow> fifo t'"
proof (induction rule: pipe_step.induct)
  case (pp_write me t F kf i addr n r s' q')
  then have "pipe_inv (ps_pipe t)" by (simp add: fifo_def)
  from pipe_write_step(1,2) [OF this pp_write(3,5)] show ?case using pp_write(6) by (simp add: fifo_def)
next
  case (pp_read me t F n k addr r' s' q')
  then have "pipe_inv (ps_pipe t)" by (simp add: fifo_def)
  from pipe_read_step(1,2) [OF this pp_read(3,4,5,6)] show ?case using pp_read(7) by (simp add: fifo_def)
next
  case (pp_close t me w_end s' q')
  from pipe_close_step(1,2) [OF pp_close(2)] show ?case using pp_close(3) by (simp add: fifo_def)
qed (simp add: fifo_def)

lemma waits_justlyI:
  assumes "\<And>j. sleeps_on (ps_sys t) (ChPipeRead pi) j \<Longrightarrow> pipe_bytes (ps_pipe t) = [] \<and> pi_writeopen (ps_pipe t)"
    and "\<And>j. sleeps_on (ps_sys t) (ChPipeWrite pi) j \<Longrightarrow> pipe_len (ps_pipe t) = PIPESIZE \<and> pi_readopen (ps_pipe t)"
  shows "waits_justly pi t"
  using assms by (auto simp: waits_justly_def)

lemma waits_justlyD:
  assumes "waits_justly pi t"
  shows "sleeps_on (ps_sys t) (ChPipeRead pi) j \<Longrightarrow> pipe_bytes (ps_pipe t) = []"
    "sleeps_on (ps_sys t) (ChPipeRead pi) j \<Longrightarrow> pi_writeopen (ps_pipe t)"
    "sleeps_on (ps_sys t) (ChPipeWrite pi) j \<Longrightarrow> pipe_len (ps_pipe t) = PIPESIZE"
    "sleeps_on (ps_sys t) (ChPipeWrite pi) j \<Longrightarrow> pi_readopen (ps_pipe t)"
  using assms by (auto simp: waits_justly_def)

text \<open>A pass of a writer leaves nobody waiting on a pipe that could serve it.\<close>

lemma write_sleepers:
  assumes "write_outcome s q' pi me kf addr n k r s'" "me < length (procs s)" "p_state (prc s me) = RUNNING"
  shows "sleeps_on s' (ChPipeRead pi) j \<Longrightarrow> sleeps_on s (ChPipeRead pi) j \<and> (\<not> pi_readopen q' \<or> kf k)"
    "sleeps_on s' (ChPipeWrite pi) j \<Longrightarrow> sleeps_on s (ChPipeWrite pi) j \<or> pipe_full q' \<and> pi_readopen q'"
  using assms
  by (auto simp: write_outcome_def sleeps_on_wakeup sleeps_on_wake_sleep split: run.splits if_splits)

lemma waits_justly_write:
  assumes w: "pipewrite (ps_sys t) (ps_pipe t) pi me kf addr n i = Ok (r, s', q')" and kf: "\<forall>j. kf j = kf i"
    and me: "me < length (procs (ps_sys t))" "p_state (prc (ps_sys t) me) = RUNNING"
    and us: "uspace (mch (ps_sys t)) (p_pagetable (prc (ps_sys t) me)) F" and f: "fifo t" and wj: "waits_justly pi t"
  shows "waits_justly pi (t\<lparr>ps_sys := s', ps_pipe := q', ps_written := w'\<rparr>)"
proof -
  have inv: "pipe_inv (ps_pipe t)" using f by (simp add: fifo_def)
  note W = pipe_write_step [OF inv us w]
  note S = write_sleepers [OF W(6) me]
  have len: "pipe_len q' = pipe_len (ps_pipe t) + length (added (ps_pipe t) q')"
    using W(2) by (metis length_append length_pipe_bytes)
  have le: "pipe_len q' \<le> PIPESIZE" using W(1) by (simp add: pipe_inv_def)
  have no: "added (ps_pipe t) q' = []" if "\<not> pi_readopen q' \<or> kf (i + length (added (ps_pipe t) q'))"
    using that W(3,5) kf by auto
  show ?thesis
  proof (rule waits_justlyI, simp_all)
    fix j assume "sleeps_on s' (ChPipeRead pi) j"
    then have "sleeps_on (ps_sys t) (ChPipeRead pi) j" "added (ps_pipe t) q' = []" using S(1) no by blast+
    then show "pipe_bytes q' = [] \<and> pi_writeopen q'" using W(2,4) waits_justlyD(1,2) [OF wj] by simp
  next
    fix j assume "sleeps_on s' (ChPipeWrite pi) j"
    then consider "sleeps_on (ps_sys t) (ChPipeWrite pi) j" | "pipe_full q'" "pi_readopen q'" using S(2) by blast
    then show "pipe_len q' = PIPESIZE \<and> pi_readopen q'"
      using waits_justlyD(3,4) [OF wj] len le W(3) by cases (auto simp: pipe_full_iff)
  qed
qed

lemma waits_justly_read:
  assumes r: "piperead (ps_sys t) (ps_pipe t) pi me k addr n = Ok (r, s', q')" and n: "n < 2 ^ 63"
    and me: "me < length (procs (ps_sys t))" "p_state (prc (ps_sys t) me) = RUNNING"
    and us: "uspace (mch (ps_sys t)) (p_pagetable (prc (ps_sys t) me)) F" "kinv (mch (ps_sys t)) F"
    and f: "fifo t" and wj: "waits_justly pi t"
  shows "waits_justly pi (t\<lparr>ps_sys := s', ps_pipe := q', ps_read := w'\<rparr>)"
proof -
  have inv: "pipe_inv (ps_pipe t)" using f by (simp add: fifo_def)
  note R = pipe_read_step [OF inv us n r]
  from R(5) show ?thesis
  proof (elim disjE conjE exE)
    assume *: "pipe_bytes (ps_pipe t) = []" "pi_writeopen (ps_pipe t)" "q' = ps_pipe t"
      "s' = ps_sys t\<lparr>procs := go_to_sleep me (ChPipeRead pi) (procs (ps_sys t))\<rparr>"
    show ?thesis
      by (rule waits_justlyI) (use * waits_justlyD [OF wj] in \<open>auto simp: sleeps_on_sleep [OF me(1)] split: if_splits\<close>)
  next
    fix m assume *: "\<not> (pipe_bytes (ps_pipe t) = [] \<and> pi_writeopen (ps_pipe t))"
      "s' = ps_sys t\<lparr>mch := m, procs := wakeup (Some me) (Some (ChPipeWrite pi)) (procs (ps_sys t))\<rparr>"
    show ?thesis
      by (rule waits_justlyI) (use * waits_justlyD [OF wj] in \<open>auto simp: sleeps_on_wakeup [OF me(2)]\<close>)
  qed (use wj in \<open>simp add: waits_justly_def\<close>)
qed

lemma waits_justly_close:
  assumes "pipeclose (ps_sys t) (ps_pipe t) pi (Some me) w_end = Ok (s', Some q')"
    "p_state (prc (ps_sys t) me) = RUNNING" "waits_justly pi t"
  shows "waits_justly pi (t\<lparr>ps_sys := s', ps_pipe := q'\<rparr>)"
  by (rule waits_justlyI)
    (use pipe_close_step [OF assms(1)] waits_justlyD [OF assms(3)] in \<open>auto simp: sleeps_on_wakeup [OF assms(2)]\<close>)

lemma waits_justly_step: "pipe_step pi calm t t' \<Longrightarrow> calm \<Longrightarrow> fifo t \<Longrightarrow> waits_justly pi t \<Longrightarrow> waits_justly pi t'"
proof (induction rule: pipe_step.induct)
  case (pp_write me t F kf i addr n r s' q')
  then show ?case by (blast intro: waits_justly_write)
next
  case (pp_read me t F n k addr r' s' q')
  then show ?case by (blast intro: waits_justly_read)
next
  case (pp_close t me w_end s' q')
  then show ?case by (blast intro: waits_justly_close)
next
  case (pp_other s' t)
  note wj = waits_justlyD [OF pp_other(5)]
  show ?case
    by (rule waits_justlyI) (use pp_other(1) wj(1,2) in \<open>simp, blast\<close>, use pp_other(2) wj(3,4) in \<open>simp, blast\<close>)
qed

section \<open>Properties\<close>


definition new_pipe :: "u8 list \<Rightarrow> pipe" where
  "new_pipe d = \<lparr>pi_data = d, pi_nread = 0, pi_nwrite = 0, pi_readopen = True, pi_writeopen = True\<rparr>"

lemma new_pipe_inv: "length d = PIPESIZE \<Longrightarrow> pipe_inv (new_pipe d)" "pipe_bytes (new_pipe d) = []"
  by (simp_all add: pipe_inv_def pipe_len_def new_pipe_def pipe_bytes_def)

definition demo_pipe :: pstate where
  "demo_pipe = \<lparr>ps_sys = family, ps_pipe = new_pipe (replicate 512 7), ps_written = [], ps_read = []\<rparr>"

lemma demo_readable: "readable (pm one_page) 0x80021000 0"
  using one_page_low [of 0] by (simp add: one_page_readable)

lemma demo_copyin: "copyin one_page 0x80021000 0 1 = Ok (0, [0])"
  using copyin_one [OF one_page_uspace, of 0] by (simp add: one_page_byte demo_readable)

lemmas demo_copyin_Suc = demo_copyin [unfolded One_nat_def]

lemma demo_write:
  "pipewrite family (new_pipe (replicate 512 7)) pi 0 (\<lambda>_. False) 0 1 0 =
     Ok (Returns 1, family\<lparr>procs := wakeup (Some 0) (Some (ChPipeRead pi)) (procs family)\<rparr>,
       pipe_put (new_pipe (replicate 512 7)) 0)"
  apply (subst pipewrite.simps)
  apply (subst pipewrite.simps)
  apply (simp add: demo_simps new_pipe_def pipe_full_def PIPESIZE_def demo_copyin_Suc)
  done

lemma demo_put: "pipe_bytes (pipe_put (new_pipe (replicate 512 7)) b) = [b]"
  using pipe_put_bytes(1) [of "new_pipe (replicate 512 7)" b] new_pipe_inv [of "replicate 512 7"]
  by (simp add: pipe_full_iff PIPESIZE_def flip: length_pipe_bytes)

definition demo_written :: "u64 \<Rightarrow> pstate" where
  "demo_written pi = demo_pipe\<lparr>ps_sys := family\<lparr>procs := wakeup (Some 0) (Some (ChPipeRead pi)) (procs family)\<rparr>,
     ps_pipe := pipe_put (new_pipe (replicate 512 7)) 0, ps_written := [0]\<rparr>"

lemma demo_pipe_step: "(pipe_step pi calm)\<^sup>*\<^sup>* demo_pipe (demo_written pi)"
proof (rule r_into_rtranclp)
  have a: "added (new_pipe (replicate 512 7)) (pipe_put (new_pipe (replicate 512 7)) 0) = [0]"
    by (simp add: added_def demo_put new_pipe_inv flip: length_pipe_bytes)
  have f: "0 < length (procs family)" "p_state (prc family 0) = RUNNING"
    "uspace (mch family) (p_pagetable (prc family 0)) {}"
    using one_page_uspace by (simp_all add: demo_simps)
  show "pipe_step pi calm demo_pipe (demo_written pi)"
    using pipe_step.pp_write [where t = demo_pipe and me = 0 and kf = "\<lambda>_. False" and pi = pi and calm = calm
        and F = "{}" and addr = 0 and n = 1 and i = 0] f a demo_write [of pi]
    by (simp add: demo_pipe_def demo_written_def)
qed

lemma demo_pipe_start:
  "pipe_inv (ps_pipe demo_pipe)" "ps_written demo_pipe = ps_read demo_pipe @ pipe_bytes (ps_pipe demo_pipe)"
  "\<not> sleeps_on (ps_sys demo_pipe) c j"
  using new_pipe_inv [of "replicate 512 7"]
  by (auto simp: demo_pipe_def PIPESIZE_def sleeps_on_def demo_simps nth_Cons split: nat.splits)




text \<open>
  A \<^verbatim>\<open>kill\<close> that lands between two iterations makes \<^verbatim>\<open>pipewrite\<close> return without the wakeup:
  process 1 stays asleep although the pipe holds a byte and its other end is still open.
\<close>

definition demo_reader :: sys where
  "demo_reader = family\<lparr>procs := go_to_sleep 1 (ChPipeRead 0x80025000) (procs family)\<rparr>"

lemma pipewrite_killed_loses_wakeup:
  "pipewrite demo_reader (new_pipe (replicate 512 7)) 0x80025000 0 (\<lambda>i. i = 1) 0 2 0 =
     Ok (Returns (-1), demo_reader, pipe_put (new_pipe (replicate 512 7)) 0)"
  "sleeps_on demo_reader (ChPipeRead 0x80025000) 1" "pipe_bytes (pipe_put (new_pipe (replicate 512 7)) 0) = [0]"
proof -
  show "pipewrite demo_reader (new_pipe (replicate 512 7)) 0x80025000 0 (\<lambda>i. i = 1) 0 2 0 =
     Ok (Returns (-1), demo_reader, pipe_put (new_pipe (replicate 512 7)) 0)"
    apply (subst pipewrite.simps)
    apply (subst pipewrite.simps)
    apply (simp add: demo_reader_def go_to_sleep_def demo_simps new_pipe_def pipe_full_def PIPESIZE_def demo_copyin_Suc)
    done
qed (simp_all add: sleeps_on_def demo_reader_def go_to_sleep_def demo_simps demo_put)

end
