(* ===== verification/File.thy ===== *)
theory File
  imports Fs_Dir Pipe
begin

text \<open>
  Open files: \<^verbatim>\<open>kernel/file.c\<close>, \<^verbatim>\<open>kernel/file.h\<close>, and \<^verbatim>\<open>pipealloc\<close> of \<^verbatim>\<open>kernel/pipe.c\<close>. A pointer to a
  file is its index in \<^verbatim>\<open>ftable\<close>, a pointer to a pipe the address of its page. The process that makes
  the call has the index \<open>me\<close> in the process table. The functions in \<^verbatim>\<open>devsw\<close> are an argument.
\<close>

definition NDEV :: int where "NDEV = 10"
definition NFILE :: nat where "NFILE = 100"

datatype fdtype = FD_NONE | FD_PIPE | FD_INODE | FD_DEVICE

record file_struct =
  f_type :: fdtype
  f_ref :: int
  f_readable :: bool
  f_writable :: bool
  f_pipe :: u64
  f_ip :: nat
  f_off :: nat
  f_major :: u16

record kern =
  k_sys :: sys
  k_fs :: fsys
  k_pipes :: "u64 \<Rightarrow> pipe"
  k_files :: "file_struct list"

text \<open>\<^verbatim>\<open>devsw[major].read\<close> or \<^verbatim>\<open>.write\<close>, for user memory: the address and the number of bytes.\<close>

type_synonym devfun = "kern \<Rightarrow> nat \<Rightarrow> u64 \<Rightarrow> int \<Rightarrow> (int \<times> kern) fs"

abbreviation fil :: "kern \<Rightarrow> nat \<Rightarrow> file_struct" where
  "fil k i \<equiv> k_files k ! i"

definition upd_file :: "nat \<Rightarrow> (file_struct \<Rightarrow> file_struct) \<Rightarrow> kern \<Rightarrow> kern" where
  "upd_file i f k = k\<lparr>k_files := (k_files k)[i := f (fil k i)]\<rparr>"

text \<open>A routine of the file system, run on the file system of the kernel state.\<close>

definition on_fs :: "(fsys \<Rightarrow> fsys fs) \<Rightarrow> kern \<Rightarrow> kern fs" where
  "on_fs f k = fbind (f (k_fs k)) (\<lambda>s. Done (k\<lparr>k_fs := s\<rparr>))"

definition on_fs2 :: "(fsys \<Rightarrow> ('a \<times> fsys) fs) \<Rightarrow> kern \<Rightarrow> ('a \<times> kern) fs" where
  "on_fs2 f k = fbind (f (k_fs k)) (\<lambda>(x, s). Done (x, k\<lparr>k_fs := s\<rparr>))"

definition my_pid :: "nat \<Rightarrow> kern \<Rightarrow> int" where
  "my_pid me k = p_pid (prc (k_sys k) me)"

section \<open>Transactions\<close>

definition k_begin_op :: "nat \<Rightarrow> kern \<Rightarrow> kern fs" where
  "k_begin_op me k =
     (case begin_op (procs (k_sys k)) me (fs_log (k_fs k)) of
        (Returns _, ps, lg) \<Rightarrow> Done (k\<lparr>k_sys := (k_sys k)\<lparr>procs := ps\<rparr>, k_fs := (k_fs k)\<lparr>fs_log := lg\<rparr>\<rparr>)
      | (Sleeps _, ps, lg) \<Rightarrow> Waits ChLog)"

definition k_end_op :: "nat \<Rightarrow> kern \<Rightarrow> kern fs" where
  "k_end_op me k =
     fbind (of_res (end_op_start (procs (k_sys k)) me (fs_log (k_fs k)))) (\<lambda>(do_commit, ps, lg).
       if do_commit
       then (let (lg1, d1) = commit (lg, fs_dev (k_fs k)); (ps1, lg2) = end_op_finish ps me lg1 in
             Done (k\<lparr>k_sys := (k_sys k)\<lparr>procs := ps1\<rparr>, k_fs := (k_fs k)\<lparr>fs_log := lg2, fs_dev := d1\<rparr>\<rparr>))
       else Done (k\<lparr>k_sys := (k_sys k)\<lparr>procs := ps\<rparr>, k_fs := (k_fs k)\<lparr>fs_log := lg\<rparr>\<rparr>))"

section \<open>The file table\<close>

definition filealloc :: "kern \<Rightarrow> nat option \<times> kern" where
  "filealloc k =
     (case find (\<lambda>i. f_ref (fil k i) = 0) [0..<length (k_files k)] of
        None \<Rightarrow> (None, k)
      | Some i \<Rightarrow> (Some i, upd_file i (\<lambda>f. f\<lparr>f_ref := 1\<rparr>) k))"

definition filedup :: "nat \<Rightarrow> kern \<Rightarrow> kern fs" where
  "filedup i k =
     (if f_ref (fil k i) < 1 then Died ''filedup'' else Done (upd_file i (\<lambda>f. f\<lparr>f_ref := f_ref f + 1\<rparr>) k))"

definition close_pipe :: "nat \<Rightarrow> u64 \<Rightarrow> bool \<Rightarrow> kern \<Rightarrow> kern fs" where
  "close_pipe me pi w_end k =
     fbind (of_res (pipeclose (k_sys k) (k_pipes k pi) pi (Some me) w_end)) (\<lambda>(s, q).
       Done (k\<lparr>k_sys := s, k_pipes := (case q of Some q1 \<Rightarrow> (k_pipes k)(pi := q1) | None \<Rightarrow> k_pipes k)\<rparr>))"

definition fileclose :: "nat \<Rightarrow> nat \<Rightarrow> kern \<Rightarrow> kern fs" where
  "fileclose me i k =
     (if f_ref (fil k i) < 1 then Died ''fileclose''
      else
        (let k1 = upd_file i (\<lambda>f. f\<lparr>f_ref := f_ref f - 1\<rparr>) k in
         if f_ref (fil k1 i) > 0 then Done k1
         else
           (let ff = fil k1 i; k2 = upd_file i (\<lambda>f. f\<lparr>f_ref := 0, f_type := FD_NONE\<rparr>) k1 in
            case f_type ff of
              FD_PIPE \<Rightarrow> close_pipe me (f_pipe ff) (f_writable ff) k2
            | FD_NONE \<Rightarrow> Done k2
            | _ \<Rightarrow>
                fbind (k_begin_op me k2) (\<lambda>k3.
                fbind (on_fs (iput (f_ip ff)) k3) (k_end_op me)))))"

definition pipealloc :: "nat \<Rightarrow> kern \<Rightarrow> ((nat \<times> nat) option \<times> kern) fs" where
  "pipealloc me k =
     (case filealloc k of
        (None, k1) \<Rightarrow> Done (None, k1)
      | (Some f0, k1) \<Rightarrow>
          (case filealloc k1 of
             (None, k2) \<Rightarrow> fbind (fileclose me f0 k2) (\<lambda>k3. Done (None, k3))
           | (Some f1, k2) \<Rightarrow>
               (let (pi, m) = kalloc (mch (k_sys k2)); k3 = k2\<lparr>k_sys := (k_sys k2)\<lparr>mch := m\<rparr>\<rparr> in
                if pi = 0
                then fbind (fileclose me f0 k3) (\<lambda>k4. fbind (fileclose me f1 k4) (\<lambda>k5. Done (None, k5)))
                else
                  (let k4 = k3\<lparr>k_pipes := (k_pipes k3)(pi := \<lparr>pi_data = replicate PIPESIZE 5, pi_nread = 0, pi_nwrite = 0,
                         pi_readopen = True, pi_writeopen = True\<rparr>)\<rparr>;
                       k5 = upd_file f0 (\<lambda>f. f\<lparr>f_type := FD_PIPE, f_readable := True, f_writable := False, f_pipe := pi\<rparr>) k4;
                       k6 = upd_file f1 (\<lambda>f. f\<lparr>f_type := FD_PIPE, f_readable := False, f_writable := True, f_pipe := pi\<rparr>) k5 in
                   Done (Some (f0, f1), k6)))))"

section \<open>Reading, writing, status\<close>

text \<open>
  \<^verbatim>\<open>struct stat\<close> in memory; \<open>pad\<close> are the four bytes between \<^verbatim>\<open>nlink\<close> and \<^verbatim>\<open>size\<close>, which belong to no
  field and are copied to the user with whatever the kernel stack held.
\<close>

definition stat_bytes :: "u8 list \<Rightarrow> stat \<Rightarrow> u8 list" where
  "stat_bytes pad x =
     le_bytes 4 (st_dev x) @ le_bytes 4 (st_ino x) @ le_bytes 2 (unat (st_type x)) @ le_bytes 2 (unat (st_nlink x)) @
     take 4 pad @ bytes64 (st_size x)"

definition filestat :: "nat \<Rightarrow> u8 list \<Rightarrow> nat \<Rightarrow> u64 \<Rightarrow> kern \<Rightarrow> (int \<times> kern) fs" where
  "filestat me pad i addr k =
     (if f_type (fil k i) = FD_INODE \<or> f_type (fil k i) = FD_DEVICE
      then
        fbind (on_fs (ilock (my_pid me k) (f_ip (fil k i))) k) (\<lambda>k1.
        let x = stati (f_ip (fil k i)) (k_fs k1) in
        fbind (on_fs (iunlock (my_pid me k) (f_ip (fil k i))) k1) (\<lambda>k2.
        fbind (of_res (copyout (mch (k_sys k2)) (p_pagetable (prc (k_sys k2) me)) addr (stat_bytes pad x))) (\<lambda>(r, m).
          Done (if r < 0 then -1 else 0, k2\<lparr>k_sys := (k_sys k2)\<lparr>mch := m\<rparr>\<rparr>))))
      else Done (-1, k))"

definition user_out :: "u64 \<Rightarrow> u64 \<Rightarrow> machine \<Rightarrow> nat \<Rightarrow> u8 list \<Rightarrow> (int \<times> machine) res" where
  "user_out pagetable addr m t bs = copyout m pagetable (addr + of_nat t) bs"

definition user_in :: "machine \<Rightarrow> u64 \<Rightarrow> u64 \<Rightarrow> nat \<Rightarrow> nat \<Rightarrow> (int \<times> u8 list) res" where
  "user_in m pagetable addr t n = copyin m pagetable (addr + of_nat t) n"

text \<open>An \<^verbatim>\<open>int\<close> passed as \<^verbatim>\<open>uint\<close>.\<close>

definition to_uint :: "int \<Rightarrow> nat" where
  "to_uint n = nat (n mod 2 ^ 32)"

definition fileread :: "(u16 \<Rightarrow> devfun option) \<Rightarrow> nat \<Rightarrow> nat \<Rightarrow> u64 \<Rightarrow> int \<Rightarrow> kern \<Rightarrow> (int \<times> kern) fs" where
  "fileread dread me i addr n k =
     (let f = fil k i; pt = p_pagetable (prc (k_sys k) me) in
      if \<not> f_readable f then Done (-1, k)
      else (case f_type f of
          FD_PIPE \<Rightarrow>
            fbind (of_res (piperead (k_sys k) (k_pipes k (f_pipe f)) (f_pipe f) me (killed (procs (k_sys k)) me) addr n)) (\<lambda>(r, s, q).
              case r of
                Returns v \<Rightarrow> Done (v, k\<lparr>k_sys := s, k_pipes := (k_pipes k)(f_pipe f := q)\<rparr>)
              | Sleeps _ \<Rightarrow> Waits (ChPipeRead (f_pipe f)))
        | FD_DEVICE \<Rightarrow>
            if sint (f_major f) < 0 \<or> NDEV \<le> sint (f_major f) then Done (-1, k)
            else (case dread (f_major f) of None \<Rightarrow> Done (-1, k) | Some g \<Rightarrow> g k me addr n)
        | FD_INODE \<Rightarrow>
            fbind (on_fs (ilock (my_pid me k) (f_ip f)) k) (\<lambda>k1.
            fbind (readi (user_out pt addr) (f_ip f) (f_off f) (to_uint n) (mch (k_sys k1)) (k_fs k1)) (\<lambda>(r, m, s).
              let k2 = k1\<lparr>k_sys := (k_sys k1)\<lparr>mch := m\<rparr>, k_fs := s\<rparr>;
                  k3 = (if r > 0 then upd_file i (\<lambda>f. f\<lparr>f_off := f_off f + nat r\<rparr>) k2 else k2) in
              fbind (on_fs (iunlock (my_pid me k) (f_ip f)) k3) (\<lambda>k4. Done (r, k4))))
        | FD_NONE \<Rightarrow> Died ''fileread''))"

definition max_write :: int where
  "max_write = int (((MAXOPBLOCKS - 1 - 1 - 2) div 2) * BSIZE)"

function filewrite_loop :: "nat \<Rightarrow> nat \<Rightarrow> u64 \<Rightarrow> int \<Rightarrow> int \<Rightarrow> kern \<Rightarrow> (int \<times> kern) fs" where
  "filewrite_loop me i addr n done k =
     (if done < n then
        (let n1 = min (n - done) max_write; f = fil k i; pid = my_pid me k in
         fbind (k_begin_op me k) (\<lambda>k1.
         fbind (on_fs (ilock pid (f_ip f)) k1) (\<lambda>k2.
         fbind (on_fs2 (writei (user_in (mch (k_sys k2)) (p_pagetable (prc (k_sys k2) me)) (addr + of_int done))
                  (f_ip f) (f_off f) (to_uint n1)) k2) (\<lambda>(r, k3).
         let k4 = (if r > 0 then upd_file i (\<lambda>f. f\<lparr>f_off := f_off f + nat r\<rparr>) k3 else k3) in
         fbind (on_fs (iunlock pid (f_ip f)) k4) (\<lambda>k5.
         fbind (k_end_op me k5) (\<lambda>k6.
           if r \<noteq> n1 then Done (done, k6) else filewrite_loop me i addr n (done + n1) k6))))))
      else Done (done, k))"
  by auto
termination
  by (relation "measure (\<lambda>(me, i, addr, n, done, k). nat (n - done))")
    (auto simp: max_write_def MAXOPBLOCKS_def BSIZE_def)

declare filewrite_loop.simps [simp del]

definition filewrite :: "(u16 \<Rightarrow> devfun option) \<Rightarrow> nat \<Rightarrow> nat \<Rightarrow> u64 \<Rightarrow> int \<Rightarrow> kern \<Rightarrow> (int \<times> kern) fs" where
  "filewrite dwrite me i addr n k =
     (let f = fil k i in
      if \<not> f_writable f then Done (-1, k)
      else (case f_type f of
          FD_PIPE \<Rightarrow>
            fbind (of_res (pipewrite (k_sys k) (k_pipes k (f_pipe f)) (f_pipe f) me (\<lambda>_. killed (procs (k_sys k)) me) addr n 0)) (\<lambda>(r, s, q).
              case r of
                Returns v \<Rightarrow> Done (v, k\<lparr>k_sys := s, k_pipes := (k_pipes k)(f_pipe f := q)\<rparr>)
              | Sleeps _ \<Rightarrow> Waits (ChPipeWrite (f_pipe f)))
        | FD_DEVICE \<Rightarrow>
            if sint (f_major f) < 0 \<or> NDEV \<le> sint (f_major f) then Done (-1, k)
            else (case dwrite (f_major f) of None \<Rightarrow> Done (-1, k) | Some g \<Rightarrow> g k me addr n)
        | FD_INODE \<Rightarrow>
            fbind (filewrite_loop me i addr n 0 k) (\<lambda>(done, k1). Done (if done = n then n else -1, k1))
        | FD_NONE \<Rightarrow> Died ''filewrite''))"

end
