(* ===== verification/Semaphore.thy ===== *)
theory Semaphore
  imports Proc_Wait Ring
begin

text \<open>
  \<^verbatim>\<open>kernel/semaphore.c\<close>: the one semaphore \<^verbatim>\<open>all_sem\<close> that every call works on, whatever
  semaphore it is given. As long as nothing but \<^verbatim>\<open>sem_post\<close> wakes its sleepers, it admits exactly
  as many processes as its initial value and the posts allow. A process that is killed while it
  waits is admitted without a post.
\<close>

record semaphore =
  sem_value :: int
  sem_queue :: "nat option list"
  sem_head :: nat
  sem_tail :: nat

definition sem_init :: "semaphore \<Rightarrow> int \<Rightarrow> int \<times> semaphore" where
  "sem_init sm v = (0, sm\<lparr>sem_value := v, sem_head := 0, sem_tail := 0\<rparr>)"

text \<open>
  \<^verbatim>\<open>sem_wait\<close> by process \<open>p\<close>, up to its return or its sleep on the channel \<open>p\<close>; when it is
  switched in again, \<open>sem_wait_woken\<close> is the rest.
\<close>

definition sem_wait :: "nat \<Rightarrow> proc list \<Rightarrow> semaphore \<Rightarrow> (int, unit) run \<times> proc list \<times> semaphore" where
  "sem_wait p ps sm =
     (let sm1 = sm\<lparr>sem_value := sem_value sm - 1\<rparr> in
      if sem_value sm1 < 0
      then (Sleeps (), go_to_sleep p (ChProc p) ps,
        sm1\<lparr>sem_queue := (sem_queue sm1)[sem_tail sm1 := Some p], sem_tail := (sem_tail sm1 + 1) mod NPROC\<rparr>)
      else (Returns 0, ps, sm1))"

definition sem_wait_woken :: "nat \<Rightarrow> proc list \<Rightarrow> int \<times> proc list" where
  "sem_wait_woken p ps = (0, back_from_sleep p ps)"

definition sem_post :: "nat \<Rightarrow> proc list \<Rightarrow> semaphore \<Rightarrow> int \<times> proc list \<times> semaphore" where
  "sem_post me ps sm =
     (let sm1 = sm\<lparr>sem_value := sem_value sm + 1\<rparr> in
      if sem_value sm1 \<le> 0
      then (0, wakeup (Some me) (map_option ChProc (sem_queue sm1 ! sem_head sm1)) ps,
        sm1\<lparr>sem_head := (sem_head sm1 + 1) mod NPROC\<rparr>)
      else (0, ps, sm1))"

definition sem_destroy :: "semaphore \<Rightarrow> (int \<times> semaphore) res" where
  "sem_destroy sm =
     (if sem_head sm \<noteq> sem_tail sm
      then Panic ''sem_destroy: destroying semaphore with waiting processes''
      else Ok (0, sm\<lparr>sem_value := 0, sem_queue := replicate NPROC None\<rparr>))"

section \<open>Everybody who uses the semaphore\<close>

text \<open>
  \<open>inside\<close> are the processes that \<^verbatim>\<open>sem_wait\<close> has put to sleep and that have not returned from
  it; \<open>granted\<close> and \<open>posted\<close> count the returns from \<^verbatim>\<open>sem_wait\<close> and the posts since \<^verbatim>\<open>sem_init\<close>.
\<close>

record sem_state =
  ss_procs :: "proc list"
  ss_sem :: semaphore
  inside :: "nat set"
  granted :: nat
  posted :: nat

definition asleep :: "proc list \<Rightarrow> nat \<Rightarrow> bool" where
  "asleep ps j \<longleftrightarrow> p_state (ps ! j) = SLEEPING \<and> p_chan (ps ! j) = Some (ChProc j)"

inductive sem_step :: "sem_state \<Rightarrow> sem_state \<Rightarrow> bool" where
  se_pass: "p < length (ss_procs t) \<Longrightarrow> p \<notin> inside t \<Longrightarrow> p_state (ss_procs t ! p) = RUNNING \<Longrightarrow>
    sem_wait p (ss_procs t) (ss_sem t) = (Returns r, ps, sm) \<Longrightarrow>
    sem_step t (t\<lparr>ss_procs := ps, ss_sem := sm, granted := granted t + 1\<rparr>)"
| se_block: "p < length (ss_procs t) \<Longrightarrow> p \<notin> inside t \<Longrightarrow> p_state (ss_procs t ! p) = RUNNING \<Longrightarrow>
    sem_wait p (ss_procs t) (ss_sem t) = (Sleeps (), ps, sm) \<Longrightarrow>
    sem_step t (t\<lparr>ss_procs := ps, ss_sem := sm, inside := insert p (inside t)\<rparr>)"
| se_resume: "p \<in> inside t \<Longrightarrow> p_state (ss_procs t ! p) = RUNNING \<Longrightarrow>
    sem_wait_woken p (ss_procs t) = (r, ps) \<Longrightarrow>
    sem_step t (t\<lparr>ss_procs := ps, inside := inside t - {p}, granted := granted t + 1\<rparr>)"
| se_post: "p < length (ss_procs t) \<Longrightarrow> p \<notin> inside t \<Longrightarrow> p_state (ss_procs t ! p) = RUNNING \<Longrightarrow>
    sem_post p (ss_procs t) (ss_sem t) = (r, ps, sm) \<Longrightarrow>
    sem_step t (t\<lparr>ss_procs := ps, ss_sem := sm, posted := posted t + 1\<rparr>)"
| se_other: "length ps = length (ss_procs t) \<Longrightarrow> (\<And>j. j \<in> inside t \<Longrightarrow> asleep ps j = asleep (ss_procs t) j) \<Longrightarrow>
    sem_step t (t\<lparr>ss_procs := ps\<rparr>)"

definition sleepers :: "sem_state \<Rightarrow> nat set" where
  "sleepers t = {j \<in> inside t. asleep (ss_procs t) j}"

definition sem_waiting :: "semaphore \<Rightarrow> nat option list" where
  "sem_waiting sm = ring (sem_queue sm) (sem_head sm) (nat (- sem_value sm))"

definition sem_inv :: "int \<Rightarrow> sem_state \<Rightarrow> bool" where
  "sem_inv v t \<longleftrightarrow> length (ss_procs t) \<le> NPROC \<and> inside t \<subseteq> {..<length (ss_procs t)} \<and>
     length (sem_queue (ss_sem t)) = NPROC \<and> sem_head (ss_sem t) < NPROC \<and>
     sem_tail (ss_sem t) = (sem_head (ss_sem t) + nat (- sem_value (ss_sem t))) mod NPROC \<and>
     distinct (sem_waiting (ss_sem t)) \<and> set (sem_waiting (ss_sem t)) = Some ` sleepers t \<and>
     sem_value (ss_sem t) = v + int (posted t) - int (granted t) - int (card (inside t))"

lemma NPROC_pos [simp]: "0 < NPROC"
  by (simp add: NPROC_def)

lemma sleepers_card:
  assumes "sem_inv v t"
  shows "card (sleepers t) = nat (- sem_value (ss_sem t))"
proof -
  have "card (Some ` sleepers t) = length (sem_waiting (ss_sem t))"
    using assms distinct_card [of "sem_waiting (ss_sem t)"] by (simp add: sem_inv_def)
  then show ?thesis by (simp add: card_image sem_waiting_def)
qed

lemma asleep_sleep: "p < length ps \<Longrightarrow> asleep (go_to_sleep p (ChProc p) ps) j \<longleftrightarrow> j = p \<or> asleep ps j"
  by (auto simp: asleep_def go_to_sleep_def nth_list_update)

lemma asleep_wakeup:
  "p_state (ps ! me) = RUNNING \<Longrightarrow> j < length ps \<Longrightarrow> asleep (wakeup (Some me) (Some (ChProc k)) ps) j \<longleftrightarrow> j \<noteq> k \<and> asleep ps j"
  by (auto simp: asleep_def nth_wakeup split: if_splits)

lemma asleep_back:
  "p_state (ps ! p) = RUNNING \<Longrightarrow> asleep (ps[p := (ps ! p)\<lparr>p_chan := None\<rparr>]) j = asleep ps j"
  by (cases "j = p"; cases "p < length ps") (auto simp: asleep_def list_update_beyond)

lemma finite_inside: "sem_inv v t \<Longrightarrow> finite (inside t)"
  unfolding sem_inv_def by (meson finite_lessThan finite_subset)

lemma sem_inv_block:
  assumes inv: "sem_inv v t" and p: "p < length (ss_procs t)" "p \<notin> inside t" "p_state (ss_procs t ! p) = RUNNING"
    and w: "sem_wait p (ss_procs t) (ss_sem t) = (Sleeps (), ps, sm)"
  shows "sem_inv v (t\<lparr>ss_procs := ps, ss_sem := sm, inside := insert p (inside t)\<rparr>)"
proof -
  let ?sm = "ss_sem t" and ?n = "nat (- sem_value (ss_sem t))"
  have val: "sem_value ?sm - 1 < 0" using w by (auto simp: sem_wait_def Let_def split: if_splits)
  then have E: "ps = go_to_sleep p (ChProc p) (ss_procs t)"
    "sm = ?sm\<lparr>sem_value := sem_value ?sm - 1, sem_queue := (sem_queue ?sm)[sem_tail ?sm := Some p], sem_tail := (sem_tail ?sm + 1) mod NPROC\<rparr>"
    using w by (auto simp: sem_wait_def Let_def)
  have n: "nat (- sem_value sm) = Suc ?n" using val E by simp
  have sub: "sleepers t \<subseteq> {..<length (ss_procs t)} - {p}"
    using inv p by (auto simp: sem_inv_def sleepers_def)
  have "card (sleepers t) \<le> length (ss_procs t) - 1" using card_mono [OF _ sub] p(1) by simp
  moreover have len: "length (sem_queue ?sm) = NPROC" "length (ss_procs t) \<le> NPROC" using inv by (simp_all add: sem_inv_def)
  ultimately have lt: "?n < length (sem_queue ?sm)" using sleepers_card [OF inv] p(1) by linarith
  have tl: "sem_tail ?sm = (sem_head ?sm + ?n) mod NPROC" using inv by (simp add: sem_inv_def)
  have wt: "sem_waiting sm = sem_waiting ?sm @ [Some p]"
    using ring_put [OF lt, of "sem_head ?sm" "Some p"] n by (simp add: sem_waiting_def E(2) tl len)
  have sl: "sleepers (t\<lparr>ss_procs := ps, ss_sem := sm, inside := insert p (inside t)\<rparr>) = insert p (sleepers t)"
    using asleep_sleep [OF p(1)] by (auto simp: sleepers_def E(1))
  have "Some p \<notin> set (sem_waiting ?sm)" using inv p(2) by (auto simp: sem_inv_def sleepers_def)
  moreover have "card (insert p (inside t)) = Suc (card (inside t))" using finite_inside [OF inv] p(2) by simp
  moreover have "sem_tail sm = (sem_head sm + nat (- sem_value sm)) mod NPROC"
    unfolding n using tl by (simp add: E(2) mod_Suc_eq)
  ultimately show ?thesis
    using inv wt sl p(1) by (simp add: sem_inv_def E)
qed

lemma sem_inv_post:
  assumes inv: "sem_inv v t" and p: "p < length (ss_procs t)" "p_state (ss_procs t ! p) = RUNNING"
    and w: "sem_post p (ss_procs t) (ss_sem t) = (r, ps, sm)"
  shows "sem_inv v (t\<lparr>ss_procs := ps, ss_sem := sm, posted := posted t + 1\<rparr>)"
proof (cases "sem_value (ss_sem t) < 0")
  case False
  then have "ps = ss_procs t" "sm = (ss_sem t)\<lparr>sem_value := sem_value (ss_sem t) + 1\<rparr>"
    using w by (auto simp: sem_post_def Let_def)
  with inv False show ?thesis by (simp add: sem_inv_def sem_waiting_def sleepers_def)
next
  case True
  let ?sm = "ss_sem t" and ?n = "nat (- 1 - sem_value (ss_sem t))"
  have E: "ps = wakeup (Some p) (map_option ChProc (sem_queue ?sm ! sem_head ?sm)) (ss_procs t)"
    "sm = ?sm\<lparr>sem_value := sem_value ?sm + 1, sem_head := (sem_head ?sm + 1) mod NPROC\<rparr>"
    using w True by (auto simp: sem_post_def Let_def)
  have n: "nat (- sem_value ?sm) = Suc ?n" using True by simp
  have I: "length (sem_queue ?sm) = NPROC" "sem_head ?sm < NPROC" "inside t \<subseteq> {..<length (ss_procs t)}"
    "distinct (sem_waiting ?sm)" "set (sem_waiting ?sm) = Some ` sleepers t"
    using inv by (simp_all add: sem_inv_def)
  have sm: "sem_waiting sm = ring (sem_queue ?sm) (Suc (sem_head ?sm)) ?n"
    using ring_mod [of "sem_queue ?sm" "Suc (sem_head ?sm)" ?n] I(1) by (simp add: sem_waiting_def E(2) algebra_simps)
  have wt: "sem_waiting ?sm = sem_queue ?sm ! sem_head ?sm # sem_waiting sm"
    using ring_get [of "sem_queue ?sm" "sem_head ?sm" ?n] n I(1,2) by (simp add: sm) (simp add: sem_waiting_def)
  then have "sem_queue ?sm ! sem_head ?sm \<in> Some ` sleepers t" using I(5) by (metis list.set_intros(1))
  then obtain k where k: "sem_queue ?sm ! sem_head ?sm = Some k" "k \<in> sleepers t" by blast
  have sl: "sleepers (t\<lparr>ss_procs := ps, ss_sem := sm, posted := posted t + 1\<rparr>) = sleepers t - {k}"
    using asleep_wakeup [OF p(2)] I(3) by (auto simp: sleepers_def E(1) k(1))
  have "set (sem_waiting sm) = Some ` (sleepers t - {k})"
    using I(4,5) wt k(1) by (auto simp: set_eq_iff)
  moreover have "sem_tail sm = (sem_head sm + nat (- sem_value sm)) mod NPROC"
  proof -
    have "sem_tail sm = (sem_head ?sm + Suc ?n) mod NPROC" using inv n by (simp add: sem_inv_def E(2))
    also have "\<dots> = ((sem_head ?sm + 1) mod NPROC + ?n) mod NPROC" by (simp add: mod_add_left_eq)
    also have "?n = nat (- sem_value sm)" by (simp add: E(2))
    finally show ?thesis by (simp add: E(2))
  qed
  moreover have "distinct (sem_waiting sm)" using I(4) wt by simp
  moreover have "length ps = length (ss_procs t)" "length (sem_queue sm) = NPROC" "sem_head sm < NPROC"
    "sem_value sm = v + int (posted t + 1) - int (granted t) - int (card (inside t))"
    using I(1,2) inv by (simp_all add: E sem_inv_def)
  ultimately show ?thesis
    using inv I(3) sl by (simp add: sem_inv_def)
qed

lemma sem_inv_step: "sem_step t t' \<Longrightarrow> sem_inv v t \<Longrightarrow> sem_inv v t'"
proof (induction rule: sem_step.induct)
  case (se_pass p t r ps sm)
  then have "0 < sem_value (ss_sem t)" "ps = ss_procs t" "sm = (ss_sem t)\<lparr>sem_value := sem_value (ss_sem t) - 1\<rparr>"
    by (auto simp: sem_wait_def Let_def split: if_splits)
  with se_pass.prems show ?case by (simp add: sem_inv_def sem_waiting_def sleepers_def)
next
  case (se_resume p t r ps)
  then have ps: "ps = (ss_procs t)[p := (ss_procs t ! p)\<lparr>p_chan := None\<rparr>]" by (simp add: sem_wait_woken_def back_from_sleep_def)
  have "sleepers (t\<lparr>ss_procs := ps, inside := inside t - {p}, granted := granted t + 1\<rparr>) = sleepers t"
    using se_resume(2) asleep_back [OF se_resume(2)] unfolding sleepers_def ps by (auto simp: asleep_def)
  moreover have "card (inside t - {p}) = card (inside t) - 1" "0 < card (inside t)"
    using finite_inside [OF se_resume(4)] se_resume(1) by (auto simp: card_gt_0_iff)
  ultimately show ?case using se_resume(4) by (auto simp: sem_inv_def ps)
next
  case (se_other ps t)
  then have "sleepers (t\<lparr>ss_procs := ps\<rparr>) = sleepers t" by (auto simp: sleepers_def)
  with se_other show ?case by (simp add: sem_inv_def)
qed (blast intro: sem_inv_block sem_inv_post)+

lemma sem_inv_reach: "sem_step\<^sup>*\<^sup>* t t' \<Longrightarrow> sem_inv v t \<Longrightarrow> sem_inv v t'"
  by (induction rule: rtranclp_induct) (auto intro: sem_inv_step)

lemma sem_inv_counts:
  assumes "sem_inv v t"
  shows "int (granted t + card (inside t - sleepers t)) = v + int (posted t) - max 0 (sem_value (ss_sem t))"
proof -
  have sub: "sleepers t \<subseteq> inside t" by (auto simp: sleepers_def)
  then have "card (inside t - sleepers t) = card (inside t) - card (sleepers t)" "card (sleepers t) \<le> card (inside t)"
    using finite_inside [OF assms] by (auto simp: card_Diff_subset finite_subset card_mono)
  moreover have "sem_value (ss_sem t) = v + int (posted t) - int (granted t) - int (card (inside t))"
    using assms by (simp add: sem_inv_def)
  ultimately show ?thesis using sleepers_card [OF assms] by arith
qed

text \<open>A semaphore that has just been initialised, with nobody waiting.\<close>

definition sem_start :: "int \<Rightarrow> sem_state \<Rightarrow> bool" where
  "sem_start v t \<longleftrightarrow> length (ss_procs t) \<le> NPROC \<and> inside t = {} \<and> granted t = 0 \<and> posted t = 0 \<and>
     (\<exists>sm. length (sem_queue sm) = NPROC \<and> ss_sem t = snd (sem_init sm v))"

lemma sem_start_inv: "sem_start v t \<Longrightarrow> 0 \<le> v \<Longrightarrow> sem_inv v t"
  by (auto simp: sem_start_def sem_inv_def sem_init_def sem_waiting_def sleepers_def)

section \<open>Properties\<close>


definition sem_demo :: sem_state where
  "sem_demo = \<lparr>ss_procs = procs family, ss_sem = \<lparr>sem_value = 0, sem_queue = replicate NPROC None, sem_head = 0, sem_tail = 0\<rparr>,
     inside = {}, granted = 0, posted = 0\<rparr>"

definition sem_demo_blocked :: sem_state where
  "sem_demo_blocked = (let (_, ps, sm) = sem_wait 0 (ss_procs sem_demo) (ss_sem sem_demo) in
     sem_demo\<lparr>ss_procs := ps, ss_sem := sm, inside := {0}\<rparr>)"

lemma sem_demo_start: "sem_start 0 sem_demo"
  unfolding sem_start_def
  by (auto simp: sem_demo_def sem_init_def demo_simps NPROC_def intro!: exI [of _ "ss_sem sem_demo"])

lemma sem_demo_step: "sem_step sem_demo sem_demo_blocked"
proof -
  have "sem_step sem_demo (sem_demo\<lparr>ss_procs := fst (snd (sem_wait 0 (ss_procs sem_demo) (ss_sem sem_demo))),
      ss_sem := snd (snd (sem_wait 0 (ss_procs sem_demo) (ss_sem sem_demo))), inside := insert 0 (inside sem_demo)\<rparr>)"
    by (rule se_block) (simp_all add: sem_demo_def demo_simps sem_wait_def Let_def)
  then show ?thesis by (simp add: sem_demo_blocked_def Let_def split_beta sem_demo_def)
qed

lemma sem_demo_sleepers: "sleepers sem_demo_blocked = {0}" "inside sem_demo_blocked = {0}"
  by (auto simp: sleepers_def asleep_def sem_demo_blocked_def sem_demo_def sem_wait_def go_to_sleep_def demo_simps)


text \<open>
  \<^verbatim>\<open>sem_wait\<close> does not look at the semaphore again after its sleep: process 0, killed while it
  waits, is made runnable and returns 0 from \<^verbatim>\<open>sem_wait\<close> without any post, and its entry stays
  in the queue.
\<close>

lemma sem_wait_admits_killed:
  "fst (kill (ss_procs sem_demo_blocked) 1) = 0"
  "p_state (snd (kill (ss_procs sem_demo_blocked) 1) ! 0) = RUNNABLE"
  "fst (sem_wait_woken 0 (snd (kill (ss_procs sem_demo_blocked) 1))) = 0"
  "sem_value (ss_sem sem_demo_blocked) = -1" "sem_waiting (ss_sem sem_demo_blocked) = [Some 0]"
  by (simp_all add: sem_demo_blocked_def sem_demo_def sem_wait_def go_to_sleep_def demo_simps kill_def upt_rec
      sem_wait_woken_def sem_waiting_def ring_def NPROC_def)

text \<open>There is one semaphore: initialising any semaphore resets everybody's.\<close>

lemma sem_init_ignores_argument:
  "sem_value (snd (sem_init (ss_sem sem_demo_blocked) 5)) = 5" "sem_waiting (snd (sem_init (ss_sem sem_demo_blocked) 5)) = []"
  by (simp_all add: sem_init_def sem_waiting_def)

end
