(* ===== verification/Shm.thy ===== *)
theory Shm
  imports Proc
begin

text \<open>
  Shared memory segments: \<^verbatim>\<open>kernel/shm.h\<close>, \<^verbatim>\<open>shm_init\<close> in \<^verbatim>\<open>kernel/proc.c\<close> and the bodies of
  \<^verbatim>\<open>sys_shmget\<close>, \<^verbatim>\<open>sys_shmat\<close>, \<^verbatim>\<open>sys_shmdt\<close> and \<^verbatim>\<open>sys_shmctl\<close> in \<^verbatim>\<open>kernel/sysproc.c\<close> after their
  arguments have been fetched. A call by the process with a given pid takes the table and
  returns the result and the new table. What they print is left out.
\<close>

definition MAX_SHM_SEGMENTS :: nat where "MAX_SHM_SEGMENTS = 10"
definition MAX_PROCESSES_PER_SEGMENT :: nat where "MAX_PROCESSES_PER_SEGMENT = 10"

record shmseg =
  sg_key :: int
  sg_size :: int
  sg_addr :: u64
  sg_shmflag :: int
  sg_refcount :: int
  sg_id :: int
  sg_pids :: "int list"

definition shm_init :: "shmseg list \<Rightarrow> shmseg list" where
  "shm_init segs = upd_all (\<lambda>i g. g\<lparr>sg_key := 0, sg_addr := 0\<rparr>) segs"

text \<open>The first index that satisfies a condition, as the \<^verbatim>\<open>for\<close> loops with \<^verbatim>\<open>break\<close> find it.\<close>

definition first_index :: "('a \<Rightarrow> bool) \<Rightarrow> 'a list \<Rightarrow> nat option" where
  "first_index P xs = find (\<lambda>i. P (xs ! i)) [0..<length xs]"

definition shm_add_pid :: "int \<Rightarrow> int list \<Rightarrow> int list" where
  "shm_add_pid pid pids = (case first_index (\<lambda>q. q = 0) pids of None \<Rightarrow> pids | Some j \<Rightarrow> pids[j := pid])"

definition shmget :: "int \<Rightarrow> int \<Rightarrow> int \<Rightarrow> int \<Rightarrow> shmseg list \<Rightarrow> int \<times> shmseg list" where
  "shmget key sz shmflag pid segs =
     (case first_index (\<lambda>g. sg_key g = key) segs of
        Some i \<Rightarrow>
          (let g = segs ! i in
           (sg_id g, segs[i := g\<lparr>sg_refcount := sg_refcount g + 1, sg_pids := shm_add_pid pid (sg_pids g)\<rparr>]))
      | None \<Rightarrow>
          (case first_index (\<lambda>g. sg_key g = 0) segs of
             Some i \<Rightarrow>
               (let g = segs ! i in
                (int i + 1, segs[i := g\<lparr>sg_key := key, sg_size := sz, sg_shmflag := shmflag, sg_addr := 0,
                   sg_refcount := 1, sg_id := int i + 1, sg_pids := (sg_pids g)[0 := pid]\<rparr>]))
           | None \<Rightarrow> (-1, segs)))"

text \<open>
  \<^verbatim>\<open>sys_shmat\<close>. The mapping of the segment into the user's page table and the increment of
  \<^verbatim>\<open>refcount\<close> at its end are never reached: when they would be, \<^verbatim>\<open>addr\<close> is null and the
  branch before them has returned.
\<close>

definition shm_valid :: "int \<Rightarrow> shmseg list \<Rightarrow> bool" where
  "shm_valid shmid segs \<longleftrightarrow> \<not> (shmid < 1 \<or> int MAX_SHM_SEGMENTS < shmid \<or> sg_key (segs ! nat (shmid - 1)) = 0)"

definition shmat :: "int \<Rightarrow> u64 \<Rightarrow> int \<Rightarrow> machine \<Rightarrow> shmseg list \<Rightarrow> u64 \<times> machine \<times> shmseg list" where
  "shmat shmid user_addr pid m segs =
     (if \<not> shm_valid shmid segs then (-1, m, segs)
      else (let i = nat (shmid - 1); g = segs ! i in
        if pid \<notin> set (sg_pids g) then (-1, m, segs)
        else if sg_addr g \<noteq> 0 then (sg_addr g, m, segs)
        else if user_addr \<noteq> 0 then (user_addr, m, segs[i := g\<lparr>sg_addr := user_addr\<rparr>])
        else (let (a, m1) = kalloc m in
          if a = 0 then (-1, m1, segs)
          else (a, m1, segs[i := g\<lparr>sg_addr := a\<rparr>]))))"

text \<open>\<^verbatim>\<open>sys_shmdt\<close>: removes the caller's pid and closes the gap it leaves.\<close>

fun shm_compact :: "nat list \<Rightarrow> int list \<Rightarrow> int list" where
  "shm_compact [] pids = pids"
| "shm_compact (j # js) pids =
     (if pids ! j = 0 \<and> pids ! (j + 1) \<noteq> 0
      then shm_compact js (pids[j := pids ! (j + 1), j + 1 := 0])
      else shm_compact js pids)"

definition shmdt :: "int \<Rightarrow> int \<Rightarrow> shmseg list \<Rightarrow> int \<times> shmseg list" where
  "shmdt shmid pid segs =
     (case first_index (\<lambda>g. sg_id g = shmid) segs of
        None \<Rightarrow> (-1, segs)
      | Some i \<Rightarrow>
          (let g = segs ! i in
           case first_index (\<lambda>q. q = pid) (sg_pids g) of
             None \<Rightarrow> (-1, segs)
           | Some j \<Rightarrow>
               (0, segs[i := g\<lparr>sg_refcount := sg_refcount g - 1,
                  sg_pids := shm_compact [0..<MAX_PROCESSES_PER_SEGMENT - 1] ((sg_pids g)[j := 0])\<rparr>])))"

definition IPC_RMID :: int where "IPC_RMID = 1"
definition IPC_SET :: int where "IPC_SET = 2"

definition shmctl :: "int \<Rightarrow> int \<Rightarrow> int \<Rightarrow> shmseg list \<Rightarrow> int \<times> shmseg list" where
  "shmctl shmid cmd buf segs =
     (if \<not> shm_valid shmid segs then (-1, segs)
      else (let i = nat (shmid - 1); g = segs ! i in
        if cmd = IPC_RMID then (0, segs[i := g\<lparr>sg_key := 0\<rparr>])
        else if cmd = IPC_SET then (0, segs[i := g\<lparr>sg_shmflag := buf\<rparr>])
        else (-1, segs)))"

section \<open>Lemmas\<close>

lemma first_index_Some:
  assumes "first_index P xs = Some i"
  shows "i < length xs" "P (xs ! i)" "\<And>j. j < i \<Longrightarrow> \<not> P (xs ! j)"
  using assms unfolding first_index_def find_Some_iff by auto

lemma first_index_None: "first_index P xs = None \<longleftrightarrow> (\<forall>x \<in> set xs. \<not> P x)"
  by (auto simp: first_index_def find_None_iff all_set_conv_all_nth)

lemma first_index_unique:
  assumes "i < length xs" "P (xs ! i)" "\<And>j. j < length xs \<Longrightarrow> P (xs ! j) \<Longrightarrow> j = i"
  shows "first_index P xs = Some i"
proof (cases "first_index P xs")
  case None
  then show ?thesis using assms(1,2) by (auto simp: first_index_None)
next
  case (Some j)
  then show ?thesis using assms(3) [of j] first_index_Some [OF Some] by auto
qed

lemma length_shm_add_pid [simp]: "length (shm_add_pid pid pids) = length pids"
  by (simp add: shm_add_pid_def split: option.split)

lemma length_shm_compact [simp]: "length (shm_compact js pids) = length pids"
  by (induction js pids rule: shm_compact.induct) auto

text \<open>
  The invariant of the table: slot \<open>i\<close> has the id \<open>i + 1\<close> once it has been used, and no
  two segments have the same key.
\<close>

definition shm_inv :: "shmseg list \<Rightarrow> bool" where
  "shm_inv segs \<longleftrightarrow> length segs = MAX_SHM_SEGMENTS \<and>
     (\<forall>i < length segs. length (sg_pids (segs ! i)) = MAX_PROCESSES_PER_SEGMENT \<and>
       (sg_key (segs ! i) \<noteq> 0 \<longrightarrow> sg_id (segs ! i) = int i + 1) \<and>
       (\<forall>j < length segs. sg_key (segs ! i) \<noteq> 0 \<and> sg_key (segs ! i) = sg_key (segs ! j) \<longrightarrow> i = j))"

text \<open>Replacing a segment by one with the same key, id and number of pids keeps the invariant.\<close>

lemma shm_inv_update:
  assumes "shm_inv segs" "i < length segs" "length (sg_pids g) = MAX_PROCESSES_PER_SEGMENT"
    "sg_key g \<noteq> 0 \<Longrightarrow> sg_id g = int i + 1" "\<And>j. j < length segs \<Longrightarrow> sg_key g \<noteq> 0 \<Longrightarrow> sg_key (segs ! j) = sg_key g \<Longrightarrow> i = j"
  shows "shm_inv (segs[i := g])"
  using assms by (auto simp: shm_inv_def nth_list_update)

lemma shm_invD:
  assumes "shm_inv segs" "i < length segs"
  shows "length (sg_pids (segs ! i)) = MAX_PROCESSES_PER_SEGMENT" "sg_key (segs ! i) \<noteq> 0 \<Longrightarrow> sg_id (segs ! i) = int i + 1"
    "j < length segs \<Longrightarrow> sg_key (segs ! i) \<noteq> 0 \<Longrightarrow> sg_key (segs ! j) = sg_key (segs ! i) \<Longrightarrow> i = j"
  using assms by (auto simp: shm_inv_def)

lemma shm_inv_same:
  assumes "shm_inv segs" "i < length segs" "length (sg_pids g) = length (sg_pids (segs ! i))" "sg_id g = sg_id (segs ! i)"
    "sg_key g = sg_key (segs ! i) \<or> sg_key g = 0"
  shows "shm_inv (segs[i := g])"
  using assms(3-5) shm_invD [OF assms(1,2)] by (intro shm_inv_update [OF assms(1,2)]) auto

text \<open>The segment \<open>g\<close> of slot \<open>i\<close> after a call that does not remove it.\<close>

definition shm_keeps :: "nat \<Rightarrow> shmseg list \<Rightarrow> shmseg list \<Rightarrow> bool" where
  "shm_keeps i segs segs' \<longleftrightarrow> length segs' = length segs \<and> sg_key (segs' ! i) = sg_key (segs ! i) \<and>
     (sg_addr (segs ! i) \<noteq> 0 \<longrightarrow> sg_addr (segs' ! i) = sg_addr (segs ! i))"

lemma shm_keeps_update:
  assumes "j < length segs" "i = j \<Longrightarrow> sg_key g = sg_key (segs ! j) \<and> (sg_addr (segs ! j) \<noteq> 0 \<longrightarrow> sg_addr g = sg_addr (segs ! j))"
  shows "shm_keeps i segs (segs[j := g])"
  using assms by (cases "i = j") (auto simp: shm_keeps_def)

lemma shm_keeps_refl [simp]: "shm_keeps i segs segs"
  by (simp add: shm_keeps_def)

lemma shmget_inv:
  assumes "shm_inv segs"
  shows "shm_inv (snd (shmget key sz fl pid segs))"
    "i < length segs \<Longrightarrow> sg_key (segs ! i) \<noteq> 0 \<Longrightarrow> shm_keeps i segs (snd (shmget key sz fl pid segs))"
proof -
  consider j where "first_index (\<lambda>g. sg_key g = key) segs = Some j"
    | j where "first_index (\<lambda>g. sg_key g = key) segs = None" "first_index (\<lambda>g. sg_key g = 0) segs = Some j"
    | "first_index (\<lambda>g. sg_key g = key) segs = None" "first_index (\<lambda>g. sg_key g = 0) segs = None"
    by (meson option.exhaust)
  then have "shm_inv (snd (shmget key sz fl pid segs)) \<and>
    (i < length segs \<longrightarrow> sg_key (segs ! i) \<noteq> 0 \<longrightarrow> shm_keeps i segs (snd (shmget key sz fl pid segs)))"
  proof cases
    case 1
    note F = first_index_Some [OF 1]
    have "snd (shmget key sz fl pid segs) = segs[j := (segs ! j)\<lparr>sg_refcount := sg_refcount (segs ! j) + 1,
        sg_pids := shm_add_pid pid (sg_pids (segs ! j))\<rparr>]" using 1 by (simp add: shmget_def Let_def)
    then show ?thesis
      using shm_inv_same [OF assms F(1)] shm_keeps_update [OF F(1)] by simp
  next
    case 2
    note F = first_index_Some [OF 2(2)]
    have "sg_key (segs ! j') \<noteq> key" if "j' < length segs" for j' using 2(1) that by (auto simp: first_index_None)
    moreover have "snd (shmget key sz fl pid segs) = segs[j := (segs ! j)\<lparr>sg_key := key, sg_size := sz, sg_shmflag := fl,
        sg_addr := 0, sg_refcount := 1, sg_id := int j + 1, sg_pids := (sg_pids (segs ! j))[0 := pid]\<rparr>]"
      using 2 by (simp add: shmget_def Let_def)
    moreover have "shm_inv (segs[j := (segs ! j)\<lparr>sg_key := key, sg_size := sz, sg_shmflag := fl,
        sg_addr := 0, sg_refcount := 1, sg_id := int j + 1, sg_pids := (sg_pids (segs ! j))[0 := pid]\<rparr>])"
      by (rule shm_inv_update [OF assms F(1)]) (use shm_invD [OF assms F(1)] calculation(1) in auto)
    moreover have "i = j \<Longrightarrow> sg_key (segs ! i) = 0" using F(2) by simp
    ultimately show ?thesis by (auto intro!: shm_keeps_update [OF F(1)])
  next
    case 3
    with assms show ?thesis by (auto simp: shmget_def shm_keeps_def)
  qed
  then show "shm_inv (snd (shmget key sz fl pid segs))"
    "i < length segs \<Longrightarrow> sg_key (segs ! i) \<noteq> 0 \<Longrightarrow> shm_keeps i segs (snd (shmget key sz fl pid segs))"
    by blast+
qed

lemma shm_valid_index:
  assumes "shm_inv segs" "shm_valid shmid segs"
  shows "nat (shmid - 1) < length segs" "sg_key (segs ! nat (shmid - 1)) \<noteq> 0"
  using assms by (auto simp: shm_valid_def shm_inv_def)

lemma shmat_inv:
  assumes "shm_inv segs" "shmat shmid ua pid m segs = (a, m', segs')"
  shows "shm_inv segs'" "i < length segs \<Longrightarrow> shm_keeps i segs segs'"
proof -
  have "shm_inv segs' \<and> (i < length segs \<longrightarrow> shm_keeps i segs segs')"
  proof (cases "shm_valid shmid segs")
    case False
    then show ?thesis using assms by (auto simp: shmat_def shm_keeps_def)
  next
    case True
    note V = shm_valid_index [OF assms(1) True]
    have "segs' = segs \<or> (\<exists>b. segs' = segs[nat (shmid - 1) := (segs ! nat (shmid - 1))\<lparr>sg_addr := b\<rparr>]) \<and> sg_addr (segs ! nat (shmid - 1)) = 0"
      using assms(2) True by (auto simp: shmat_def Let_def split: if_splits prod.splits)
    moreover have "shm_inv (segs[nat (shmid - 1) := (segs ! nat (shmid - 1))\<lparr>sg_addr := b\<rparr>])" for b
      by (rule shm_inv_same [OF assms(1) V(1)]) simp_all
    ultimately show ?thesis using assms(1) shm_keeps_update [OF V(1)] by auto
  qed
  then show "shm_inv segs'" "i < length segs \<Longrightarrow> shm_keeps i segs segs'" by blast+
qed

lemma shmdt_inv:
  assumes "shm_inv segs"
  shows "shm_inv (snd (shmdt shmid pid segs))" "i < length segs \<Longrightarrow> shm_keeps i segs (snd (shmdt shmid pid segs))"
proof -
  have "shm_inv (snd (shmdt shmid pid segs)) \<and> (i < length segs \<longrightarrow> shm_keeps i segs (snd (shmdt shmid pid segs)))"
  proof (cases "first_index (\<lambda>g. sg_id g = shmid) segs")
    case None
    then show ?thesis using assms by (auto simp: shmdt_def shm_keeps_def)
  next
    case (Some j)
    note F = first_index_Some [OF Some]
    show ?thesis
    proof (cases "first_index (\<lambda>q. q = pid) (sg_pids (segs ! j))")
      case None
      then show ?thesis using assms Some by (simp add: shmdt_def Let_def)
    next
      case (Some k)
      then show ?thesis
        using shm_inv_same [OF assms F(1)] shm_keeps_update [OF F(1)] \<open>first_index _ segs = _\<close>
        by (simp add: shmdt_def Let_def)
    qed
  qed
  then show "shm_inv (snd (shmdt shmid pid segs))" "i < length segs \<Longrightarrow> shm_keeps i segs (snd (shmdt shmid pid segs))"
    by blast+
qed

lemma shmctl_inv:
  assumes "shm_inv segs"
  shows "shm_inv (snd (shmctl shmid cmd buf segs))"
    "i < length segs \<Longrightarrow> shmid \<noteq> int i + 1 \<or> cmd \<noteq> IPC_RMID \<Longrightarrow> shm_keeps i segs (snd (shmctl shmid cmd buf segs))"
proof -
  have "shm_inv (snd (shmctl shmid cmd buf segs)) \<and>
    (i < length segs \<longrightarrow> shmid \<noteq> int i + 1 \<or> cmd \<noteq> IPC_RMID \<longrightarrow> shm_keeps i segs (snd (shmctl shmid cmd buf segs)))"
  proof (cases "shm_valid shmid segs")
    case False
    then show ?thesis using assms by (auto simp: shmctl_def shm_keeps_def)
  next
    case True
    note V = shm_valid_index [OF assms True]
    have "0 < shmid" using True by (auto simp: shm_valid_def)
    then show ?thesis
      using shm_inv_same [OF assms V(1)] shm_keeps_update [OF V(1)] True assms
      by (auto simp: shmctl_def Let_def)
  qed
  then show "shm_inv (snd (shmctl shmid cmd buf segs))"
    "i < length segs \<Longrightarrow> shmid \<noteq> int i + 1 \<or> cmd \<noteq> IPC_RMID \<Longrightarrow> shm_keeps i segs (snd (shmctl shmid cmd buf segs))"
    by blast+
qed

section \<open>Properties\<close>

text \<open>Calls by any processes on the segment table, none of which removes the segment in slot \<open>i\<close>.\<close>

inductive shm_step :: "nat \<Rightarrow> shmseg list \<Rightarrow> shmseg list \<Rightarrow> bool" for i where
  sh_get: "shm_step i segs (snd (shmget key sz fl pid segs))"
| sh_at: "shmat shmid ua pid m segs = (a, m', segs') \<Longrightarrow> shm_step i segs segs'"
| sh_dt: "shm_step i segs (snd (shmdt shmid pid segs))"
| sh_ctl: "shmid \<noteq> int i + 1 \<or> cmd \<noteq> IPC_RMID \<Longrightarrow> shm_step i segs (snd (shmctl shmid cmd buf segs))"

lemma shm_keeps_trans: "shm_keeps i a b \<Longrightarrow> shm_keeps i b c \<Longrightarrow> shm_keeps i a c"
  by (auto simp: shm_keeps_def)

lemma shm_step_keeps:
  assumes "(shm_step i)\<^sup>*\<^sup>* segs segs'" "shm_inv segs" "i < length segs" "sg_key (segs ! i) \<noteq> 0"
  shows "shm_inv segs' \<and> shm_keeps i segs segs'"
  using assms(1)
proof (induction rule: rtranclp_induct)
  case base
  with assms(2) show ?case by simp
next
  case (step b c)
  then have b: "shm_inv b" "i < length b" "sg_key (b ! i) \<noteq> 0" using assms(3,4) by (auto simp: shm_keeps_def)
  have "shm_inv c \<and> shm_keeps i b c"
    using step(2) b
  proof cases
    case sh_get
    with b shmget_inv show ?thesis by simp
  next
    case sh_at
    with b shmat_inv show ?thesis by metis
  next
    case sh_dt
    with b shmdt_inv show ?thesis by simp
  next
    case sh_ctl
    with b shmctl_inv show ?thesis by simp
  qed
  with step show ?case using shm_keeps_trans by blast
qed

lemma shmget_existing:
  assumes "shm_inv segs" "i < length segs" "sg_key (segs ! i) = key" "key \<noteq> 0"
  shows "fst (shmget key sz fl pid segs) = int i + 1"
proof -
  have "first_index (\<lambda>g. sg_key g = key) segs = Some i"
  proof (rule first_index_unique)
    fix j assume "j < length segs" "sg_key (segs ! j) = key"
    then show "j = i" using shm_invD(3) [OF assms(1,2), of j] assms(3,4) by simp
  qed (use assms in simp_all)
  then show ?thesis using shm_invD(2) [OF assms(1,2)] assms(3,4) by (simp add: shmget_def Let_def)
qed

lemma shmget_created:
  assumes "shm_inv segs" "key \<noteq> 0" "shmget key sz fl pid segs = (r, segs')" "0 < r"
  shows "\<exists>i < length segs'. r = int i + 1 \<and> sg_key (segs' ! i) = key \<and> shm_inv segs'"
proof -
  have inv: "shm_inv segs'" using shmget_inv(1) [OF assms(1), of key sz fl pid] assms(3) by simp
  show ?thesis
  proof (cases "first_index (\<lambda>g. sg_key g = key) segs")
    case (Some i)
    note F = first_index_Some [OF Some]
    then have "r = int i + 1" "sg_key (segs' ! i) = key" "i < length segs'"
      using Some assms(2,3) shm_invD(2) [OF assms(1) F(1)] by (auto simp: shmget_def Let_def)
    with inv show ?thesis by blast
  next
    case None
    then obtain i where i: "first_index (\<lambda>g. sg_key g = 0) segs = Some i"
      using assms(3,4) by (auto simp: shmget_def split: option.splits)
    then have "r = int i + 1" "sg_key (segs' ! i) = key" "i < length segs'"
      using None i assms(3) first_index_Some(1) [OF i] by (auto simp: shmget_def Let_def)
    with inv show ?thesis by blast
  qed
qed


definition no_segment :: shmseg where
  "no_segment = \<lparr>sg_key = 0, sg_size = 0, sg_addr = 0, sg_shmflag = 0, sg_refcount = 0, sg_id = 0, sg_pids = [0, 0, 0, 0, 0, 0, 0, 0, 0, 0]\<rparr>"

definition no_segments :: "shmseg list" where
  "no_segments = [no_segment, no_segment, no_segment, no_segment, no_segment,
     no_segment, no_segment, no_segment, no_segment, no_segment]"

lemma no_segments_inv: "shm_inv no_segments"
proof -
  have "\<forall>g \<in> set no_segments. sg_key g = 0 \<and> length (sg_pids g) = 10"
    by (simp add: no_segments_def no_segment_def)
  moreover have "length no_segments = 10" by (simp add: no_segments_def)
  ultimately show ?thesis
    by (simp add: shm_inv_def MAX_SHM_SEGMENTS_def MAX_PROCESSES_PER_SEGMENT_def)
qed

definition shm_demo :: "shmseg list" where
  "shm_demo = snd (shmget 42 4096 0 1 no_segments)"

lemma shm_demo_get: "shmget 42 4096 0 1 no_segments = (1, shm_demo)"
  by (simp add: shm_demo_def shmget_def first_index_def no_segments_def no_segment_def upt_rec Let_def)



definition shm_demo_at :: "shmseg list" where
  "shm_demo_at = snd (snd (shmat 1 8192 1 one_page shm_demo))"

lemma shm_demo_simps:
  "shmat 1 8192 1 one_page shm_demo = (8192, one_page, shm_demo_at)" "shm_valid 1 shm_demo" "1 \<in> set (sg_pids (shm_demo ! 0))"
  "sg_addr (shm_demo_at ! 0) \<noteq> 0" "2 \<in> set (sg_pids (snd (shmget 42 0 0 2 shm_demo_at) ! 0))"
  by (simp_all add: shm_demo_at_def shm_demo_def shmget_def shmat_def first_index_def no_segments_def no_segment_def upt_rec Let_def
      shm_valid_def MAX_SHM_SEGMENTS_def shm_add_pid_def)


text \<open>The key 0 of an unused slot is taken for a segment: the caller is given the id 0, which no call accepts.\<close>

lemma shmget_key_0: "fst (shmget 0 4096 0 1 no_segments) = 0"
  by (simp add: shmget_def first_index_def no_segments_def no_segment_def upt_rec Let_def)

text \<open>
  A segment that is removed and created again keeps the pids that the old one had, though its
  reference count starts at 1.
\<close>

lemma shmctl_keeps_pids:
  "let segs = snd (shmget 43 4096 0 5 (snd (shmctl 1 IPC_RMID 0 (snd (shmget 42 0 0 2 shm_demo))))) in
     2 \<in> set (sg_pids (segs ! 0)) \<and> sg_key (segs ! 0) = 43 \<and> sg_refcount (segs ! 0) = 1"
  by (simp add: shm_demo_def shmget_def shmctl_def first_index_def no_segments_def no_segment_def upt_rec Let_def
      shm_valid_def MAX_SHM_SEGMENTS_def shm_add_pid_def IPC_RMID_def)

end
