(* ===== verification/Syscall.thy ===== *)
theory Syscall
  imports Semaphore Shm Bytes
begin

text \<open>
  How system calls get their arguments (\<^verbatim>\<open>kernel/syscall.c\<close>) and the handlers of
  \<^verbatim>\<open>kernel/sysproc.c\<close> that do not involve files; \<^verbatim>\<open>clockintr\<close> of \<^verbatim>\<open>kernel/trap.c\<close>, which ends
  sleeps. The argument \<open>p\<close> is the calling process. A local variable that a handler declares
  without a value is a parameter of its model: \<^verbatim>\<open>argint\<close> may leave it as it is.
\<close>

section \<open>Arguments\<close>

text \<open>Offsets of the saved registers in the trap frame.\<close>

definition a0_off :: u64 where "a0_off = 112"
definition a7_off :: u64 where "a7_off = 168"

definition tf_read :: "sys \<Rightarrow> nat \<Rightarrow> u64 \<Rightarrow> u64" where
  "tf_read s p off = ld64 (pm (mch s)) (p_trapframe (prc s p) + off)"

definition tf_write :: "sys \<Rightarrow> nat \<Rightarrow> u64 \<Rightarrow> u64 \<Rightarrow> sys" where
  "tf_write s p off v = s\<lparr>mch := (mch s)\<lparr>pm := st64 (pm (mch s)) (p_trapframe (prc s p) + off) v\<rparr>\<rparr>"

definition argraw :: "sys \<Rightarrow> nat \<Rightarrow> nat \<Rightarrow> u64 res" where
  "argraw s p n =
     (if n = 0 then Ok (tf_read s p a0_off)
      else if n = 1 then Ok (tf_read s p 120)
      else if n = 2 then Ok (tf_read s p 128)
      else if n = 3 then Ok (tf_read s p 136)
      else if n = 4 then Ok (tf_read s p 144)
      else if n = 5 then Ok (tf_read s p 152)
      else Panic ''argraw'')"

text \<open>The conversion of a register to \<^verbatim>\<open>int\<close>: the low 32 bits, signed.\<close>

definition to_int :: "u64 \<Rightarrow> int" where
  "to_int w = sint (ucast w :: u32)"

text \<open>\<open>argint s p n ip\<close>: the result and the new value of the variable at \<^verbatim>\<open>ip\<close>, which was \<open>ip\<close>.\<close>

definition argint :: "sys \<Rightarrow> nat \<Rightarrow> nat \<Rightarrow> int \<Rightarrow> (int \<times> int) res" where
  "argint s p n ip =
     and_then (argraw s p n) (\<lambda>w. let raw = to_int w in if raw < 0 then Ok (-1, ip) else Ok (0, raw))"

definition argaddr :: "sys \<Rightarrow> nat \<Rightarrow> nat \<Rightarrow> u64 res" where
  "argaddr s p n = argraw s p n"

definition fetchaddr :: "sys \<Rightarrow> nat \<Rightarrow> u64 \<Rightarrow> u64 \<Rightarrow> (int \<times> u64) res" where
  "fetchaddr s p addr ip =
     (if p_sz (prc s p) \<le> addr \<or> p_sz (prc s p) < addr + 8 then Ok (-1, ip)
      else and_then (copyin (mch s) (p_pagetable (prc s p)) addr 8) (\<lambda>(r, bs).
        Ok (if r \<noteq> 0 then -1 else 0, of_nat (of_le_bytes (bs @ drop (length bs) (bytes64 ip))))))"

text \<open>\<^verbatim>\<open>fetchstr\<close> returns the length of the string; the bytes are what it has put into \<^verbatim>\<open>buf\<close>.\<close>

definition fetchstr :: "sys \<Rightarrow> nat \<Rightarrow> u64 \<Rightarrow> nat \<Rightarrow> (int \<times> u8 list) res" where
  "fetchstr s p addr maxlen =
     and_then (copyinstr (mch s) (p_pagetable (prc s p)) addr maxlen) (\<lambda>(r, bs).
       if r < 0 then Ok (-1, bs) else Ok (int (length (takeWhile (\<lambda>c. c \<noteq> 0) bs)), bs))"

definition argstr :: "sys \<Rightarrow> nat \<Rightarrow> nat \<Rightarrow> nat \<Rightarrow> (int \<times> u8 list) res" where
  "argstr s p n maxlen = and_then (argaddr s p n) (\<lambda>addr. fetchstr s p addr maxlen)"

section \<open>Process calls\<close>

definition sys_getpid :: "sys \<Rightarrow> nat \<Rightarrow> u64" where
  "sys_getpid s p = of_int (p_pid (prc s p))"

definition sys_wait :: "sys \<Rightarrow> nat \<Rightarrow> ((int, unit) run \<times> sys) res" where
  "sys_wait s p = and_then (argaddr s p 0) (\<lambda>addr. wait s p addr)"

definition sys_sbrk :: "sys \<Rightarrow> nat \<Rightarrow> int \<Rightarrow> (u64 \<times> sys) res" where
  "sys_sbrk s p n0 =
     and_then (argint s p 0 n0) (\<lambda>(_, n).
       let addr = p_sz (prc s p) in
       and_then (growproc s p n) (\<lambda>(r, s1). if r < 0 then Ok (-1, s1) else Ok (addr, s1)))"

text \<open>
  \<^verbatim>\<open>sys_sleep\<close>: one pass of its loop, until it returns or sleeps. The comparison of the
  unsigned difference with the \<^verbatim>\<open>int\<close> \<open>n\<close> is unsigned.
\<close>

definition sleep_pass :: "sys \<Rightarrow> nat \<Rightarrow> int \<Rightarrow> u32 \<Rightarrow> (int, int \<times> u32) run \<times> sys" where
  "sleep_pass s p n ticks0 =
     (if ticks s - ticks0 < of_int n
      then if killed (procs s) p then (Returns (-1), s)
           else (Sleeps (n, ticks0), s\<lparr>procs := go_to_sleep p ChTicks (procs s)\<rparr>)
      else (Returns 0, s))"

definition sys_sleep :: "sys \<Rightarrow> nat \<Rightarrow> int \<Rightarrow> ((int, int \<times> u32) run \<times> sys) res" where
  "sys_sleep s p n0 =
     and_then (argint s p 0 n0) (\<lambda>(_, n).
       Ok (sleep_pass s p (if n < 0 then 0 else n) (ticks s)))"

definition sys_kill :: "sys \<Rightarrow> nat \<Rightarrow> int \<Rightarrow> (int \<times> sys) res" where
  "sys_kill s p pid0 =
     and_then (argint s p 0 pid0) (\<lambda>(_, pid).
       let (r, ps) = kill (procs s) pid in Ok (r, s\<lparr>procs := ps\<rparr>))"

definition sys_uptime :: "sys \<Rightarrow> u64" where
  "sys_uptime s = ucast (ticks s)"

definition sys_waitpid :: "sys \<Rightarrow> nat \<Rightarrow> int \<Rightarrow> int \<Rightarrow> ((int, unit) run \<times> sys) res" where
  "sys_waitpid s p pid0 options0 =
     and_then (argint s p 0 pid0) (\<lambda>(_, pid).
     and_then (argaddr s p 1) (\<lambda>status.
     and_then (argint s p 2 options0) (\<lambda>(_, options).
       waitpid s p pid status options)))"

definition sys_sysinfo :: "sys \<Rightarrow> nat \<Rightarrow> (nat \<Rightarrow> u64) \<Rightarrow> (int \<times> sys) res option" where
  "sys_sysinfo s p stack =
     (case argaddr s p 0 of Panic e \<Rightarrow> Some (Panic e) | Ok kinfo \<Rightarrow> sysinfo s p stack kinfo)"

definition sys_signal :: "sys \<Rightarrow> nat \<Rightarrow> int \<Rightarrow> (int \<times> sys) res" where
  "sys_signal s p signum0 =
     and_then (argint s p 0 signum0) (\<lambda>(_, signum).
     and_then (argaddr s p 1) (\<lambda>handler.
       if signum \<noteq> int SIGINT then Ok (-1, s)
       else Ok (0, upd_proc p (\<lambda>q. q\<lparr>p_sig_handlers := (p_sig_handlers q)[SIGINT := handler]\<rparr>) s)))"

text \<open>\<^verbatim>\<open>clockintr\<close> on CPU 0, which interrupts the process \<open>me\<close> or the idle CPU.\<close>

definition clockintr :: "sys \<Rightarrow> nat \<Rightarrow> nat option \<Rightarrow> sys" where
  "clockintr s cpu me =
     (if cpu = 0
      then (let s1 = s\<lparr>ticks := ticks s + 1\<rparr> in s1\<lparr>procs := wakeup me (Some ChTicks) (procs s1)\<rparr>)
      else s)"

section \<open>Semaphore calls\<close>

text \<open>
  \<^verbatim>\<open>sizeof(struct semaphore)\<close>: the value and padding, the spinlock, 64 pointers, two indices.
  The handlers copy the user's structure in and out again and work on \<^verbatim>\<open>all_sem\<close>.
\<close>

definition sizeof_semaphore :: nat where "sizeof_semaphore = 8 + 24 + 64 * 8 + 8"

definition copyout_sys :: "sys \<Rightarrow> nat \<Rightarrow> u64 \<Rightarrow> u8 list \<Rightarrow> (int \<times> sys) res" where
  "copyout_sys s p addr bs =
     and_then (copyout (mch s) (p_pagetable (prc s p)) addr bs) (\<lambda>(r, m).
       Ok (if r < 0 then -1 else 0, s\<lparr>mch := m\<rparr>))"

definition sys_sem_init :: "sys \<Rightarrow> semaphore \<Rightarrow> nat \<Rightarrow> int \<Rightarrow> (int \<times> sys \<times> semaphore) res" where
  "sys_sem_init s sm p value0 =
     and_then (argaddr s p 0) (\<lambda>semptr.
     and_then (argint s p 1 value0) (\<lambda>(_, v).
     and_then (copyin (mch s) (p_pagetable (prc s p)) semptr sizeof_semaphore) (\<lambda>(r, ksem).
       if r < 0 then Ok (-1, s, sm)
       else (let (_, sm1) = sem_init sm v in
         and_then (copyout_sys s p semptr ksem) (\<lambda>(r', s1). Ok (r', s1, sm1))))))"

definition sys_sem_wait :: "sys \<Rightarrow> semaphore \<Rightarrow> nat \<Rightarrow> ((int, u64 \<times> u8 list) run \<times> sys \<times> semaphore) res" where
  "sys_sem_wait s sm p =
     and_then (argaddr s p 0) (\<lambda>semptr.
     and_then (copyin (mch s) (p_pagetable (prc s p)) semptr sizeof_semaphore) (\<lambda>(r, ksem).
       if r < 0 then Ok (Returns (-1), s, sm)
       else (let (w, ps, sm1) = sem_wait p (procs s) sm; s1 = s\<lparr>procs := ps\<rparr> in
         case w of
           Sleeps _ \<Rightarrow> Ok (Sleeps (semptr, ksem), s1, sm1)
         | Returns _ \<Rightarrow> and_then (copyout_sys s1 p semptr ksem) (\<lambda>(r', s2). Ok (Returns r', s2, sm1)))))"

definition sys_sem_wait_woken :: "sys \<Rightarrow> nat \<Rightarrow> u64 \<Rightarrow> u8 list \<Rightarrow> (int \<times> sys) res" where
  "sys_sem_wait_woken s p semptr ksem =
     (let (_, ps) = sem_wait_woken p (procs s) in copyout_sys (s\<lparr>procs := ps\<rparr>) p semptr ksem)"

definition sys_sem_post :: "sys \<Rightarrow> semaphore \<Rightarrow> nat \<Rightarrow> (int \<times> sys \<times> semaphore) res" where
  "sys_sem_post s sm p =
     and_then (argaddr s p 0) (\<lambda>semptr.
     and_then (copyin (mch s) (p_pagetable (prc s p)) semptr sizeof_semaphore) (\<lambda>(r, ksem).
       if r < 0 then Ok (-1, s, sm)
       else (let (_, ps, sm1) = sem_post p (procs s) sm in
         and_then (copyout_sys (s\<lparr>procs := ps\<rparr>) p semptr ksem) (\<lambda>(r', s2). Ok (r', s2, sm1)))))"

text \<open>In \<^verbatim>\<open>sys_sem_destroy\<close> the length given to \<^verbatim>\<open>copyout\<close> is the truth value of \<^verbatim>\<open>sizeof(ksem)<0\<close>, zero.\<close>

definition sys_sem_destroy :: "sys \<Rightarrow> semaphore \<Rightarrow> nat \<Rightarrow> (int \<times> sys \<times> semaphore) res" where
  "sys_sem_destroy s sm p =
     and_then (argaddr s p 0) (\<lambda>semptr.
     and_then (copyin (mch s) (p_pagetable (prc s p)) semptr sizeof_semaphore) (\<lambda>(r, ksem).
       if r < 0 then Ok (-1, s, sm)
       else and_then (sem_destroy sm) (\<lambda>(_, sm1).
         and_then (copyout (mch s) (p_pagetable (prc s p)) semptr []) (\<lambda>(r', m).
           Ok (if r' \<noteq> 0 then -1 else 0, s\<lparr>mch := m\<rparr>, sm1)))))"

section \<open>Shared memory calls\<close>

definition alloc_page :: "machine \<Rightarrow> u64 \<times> machine" where
  "alloc_page m = kalloc m"

definition sys_shmget :: "sys \<Rightarrow> shmseg list \<Rightarrow> nat \<Rightarrow> (int \<times> shmseg list) res" where
  "sys_shmget s segs p =
     and_then (argint s p 0 0) (\<lambda>(r, key). if r < 0 then Ok (-1, segs) else
     and_then (argint s p 1 0) (\<lambda>(r, sz). if r < 0 then Ok (-1, segs) else
     and_then (argint s p 2 0) (\<lambda>(r, shmflag). if r < 0 then Ok (-1, segs) else
       Ok (shmget key sz shmflag (p_pid (prc s p)) segs))))"

definition sys_shmat :: "sys \<Rightarrow> shmseg list \<Rightarrow> nat \<Rightarrow> (u64 \<times> sys \<times> shmseg list) res" where
  "sys_shmat s segs p =
     and_then (argaddr s p 1) (\<lambda>user_addr.
     and_then (argint s p 0 0) (\<lambda>(r, shmid). if r < 0 then Ok (-1, s, segs) else
     and_then (argint s p 2 0) (\<lambda>(r, shmflag). if r < 0 then Ok (-1, s, segs) else
       (let (a, m, segs') = shmat shmid user_addr (p_pid (prc s p)) (mch s) segs in
        Ok (a, s\<lparr>mch := m\<rparr>, segs')))))"

definition sys_shmdt :: "sys \<Rightarrow> shmseg list \<Rightarrow> nat \<Rightarrow> (int \<times> shmseg list) res" where
  "sys_shmdt s segs p =
     and_then (argint s p 0 0) (\<lambda>(r, shmid). if r < 0 then Ok (-1, segs) else
     and_then (argint s p 1 0) (\<lambda>(r, addr). if r < 0 then Ok (-1, segs) else
       Ok (shmdt shmid (p_pid (prc s p)) segs)))"

definition sys_shmctl :: "sys \<Rightarrow> shmseg list \<Rightarrow> nat \<Rightarrow> (int \<times> shmseg list) res" where
  "sys_shmctl s segs p =
     and_then (argint s p 0 0) (\<lambda>(r, shmid). if r < 0 then Ok (-1, segs) else
     and_then (argint s p 1 0) (\<lambda>(r, cmd). if r < 0 then Ok (-1, segs) else
     and_then (argint s p 2 0) (\<lambda>(r, buf). if r < 0 then Ok (-1, segs) else
       Ok (shmctl shmid cmd buf segs))))"

section \<open>Fetching from user memory\<close>

text \<open>C23: \<^verbatim>\<open>fetchaddr\<close> stays inside the process. It returns 0 or -1; it returns 0 exactly when the
  eight bytes lie below the process's size, with no wrap-around of the address, and are
  readable; and then the value it has fetched is the one those bytes hold.\<close>

theorem fetchaddr_in_bounds:
  assumes "uspace (mch s) (p_pagetable (prc s p)) F" "p_sz (prc s p) \<le> MAXVA"
  shows "\<exists>r v. fetchaddr s p addr ip = Ok (r, v) \<and> (r = 0 \<or> r = -1) \<and>
    (r = 0 \<longleftrightarrow> unat addr + 8 \<le> unat (p_sz (prc s p)) \<and>
       (\<forall>j < 8. readable (pm (mch s)) (p_pagetable (prc s p)) (addr + of_nat j))) \<and>
    (r = 0 \<longrightarrow> bytes64 v = user_bytes (mch s) (p_pagetable (prc s p)) addr 8)"
proof -
  let ?pt = "p_pagetable (prc s p)" and ?sz = "p_sz (prc s p)"
  obtain k where k: "upto_fault (readable (pm (mch s)) ?pt) addr 8 k"
    "copyin (mch s) ?pt addr 8 = Ok (if k = 8 then 0 else -1, user_bytes (mch s) ?pt addr k)"
    using copyin_spec [OF assms(1)] by blast
  have k8: "k = 8 \<longleftrightarrow> (\<forall>j < 8. readable (pm (mch s)) ?pt (addr + of_nat j))"
    using k(1) unfolding upto_fault_def by (metis nat_less_le)
  have le: "unat ?sz \<le> 2 ^ 38" using assms(2) by (simp add: word_le_nat_alt unat_MAXVA)
  have in_range: "\<not> (?sz \<le> addr \<or> ?sz < addr + 8) \<longleftrightarrow> unat addr + 8 \<le> unat ?sz"
  proof (cases "?sz \<le> addr")
    case True
    then show ?thesis by (simp add: word_le_nat_alt)
  next
    case False
    then have "unat (addr + 8) = unat addr + 8"
      using le unat_of_nat_u64 [of "unat addr + 8"] by (simp add: word_le_nat_alt)
    with False show ?thesis by (auto simp: word_less_nat_alt word_le_nat_alt)
  qed
  show ?thesis
  proof (cases "unat addr + 8 \<le> unat ?sz \<and> k = 8")
    case True
    then have "fetchaddr s p addr ip = Ok (0, of_nat (of_le_bytes (user_bytes (mch s) ?pt addr 8)))"
      using in_range k(2) by (auto simp: fetchaddr_def bytes64_def)
    with True k8 bytes64_of_le_bytes [of "user_bytes (mch s) ?pt addr 8"] show ?thesis by auto
  next
    case False
    then have "\<exists>v. fetchaddr s p addr ip = Ok (-1, v)"
      using in_range k(2) by (auto simp: fetchaddr_def)
    with False k8 show ?thesis by fastforce
  qed
qed

theorem fetchaddr_in_bounds_witness:
  "\<exists>r v. fetchaddr (family\<lparr>procs := [(prc family 0)\<lparr>p_sz := 4096\<rparr>]\<rparr>) 0 4092 0 = Ok (r, v) \<and> r = -1"
proof -
  let ?s = "family\<lparr>procs := [(prc family 0)\<lparr>p_sz := 4096\<rparr>]\<rparr>"
  have "uspace (mch ?s) (p_pagetable (prc ?s 0)) {}" "p_sz (prc ?s 0) \<le> MAXVA"
    using one_page_uspace by (simp_all add: demo_simps word_le_nat_alt unat_MAXVA)
  from fetchaddr_in_bounds [OF this, of 4092 0] show ?thesis by fastforce
qed

section \<open>Negative arguments\<close>


definition neg_sys :: sys where
  "neg_sys = family\<lparr>mch := (mch family)\<lparr>pm := st64 (\<lambda>_. 0) 112 0xFFFFFFFF\<rparr>\<rparr>"


section \<open>Sleeping for some ticks\<close>

text \<open>
  A process \<open>p\<close> inside \<^verbatim>\<open>sys_sleep(n)\<close> that started at \<open>t0\<close>; the number counts the ticks since
  then. Other activity does not change the clock and does not put the process to sleep.
\<close>

inductive sleep_step :: "nat \<Rightarrow> int \<Rightarrow> u32 \<Rightarrow> sys \<times> nat \<Rightarrow> sys \<times> nat \<Rightarrow> bool" for p n t0 where
  sl_tick: "(\<And>j. me = Some j \<Longrightarrow> p_state (prc s j) = RUNNING) \<Longrightarrow> sleep_step p n t0 (s, k) (clockintr s 0 me, k + 1)"
| sl_pass: "p < length (procs s) \<Longrightarrow> p_state (prc s p) = RUNNING \<Longrightarrow>
    sleep_pass (s\<lparr>procs := back_from_sleep p (procs s)\<rparr>) p n t0 = (r, s') \<Longrightarrow> sleep_step p n t0 (s, k) (s', k)"
| sl_other: "ticks s' = ticks s \<Longrightarrow> (sleeps_on s' ChTicks p \<Longrightarrow> sleeps_on s ChTicks p) \<Longrightarrow> sleep_step p n t0 (s, k) (s', k)"

definition sleep_inv :: "nat \<Rightarrow> int \<Rightarrow> u32 \<Rightarrow> sys \<times> nat \<Rightarrow> bool" where
  "sleep_inv p n t0 a \<longleftrightarrow> ticks (fst a) = t0 + of_nat (snd a) \<and>
     (sleeps_on (fst a) ChTicks p \<longrightarrow> ticks (fst a) - t0 < of_int n)"

lemma sleep_inv_step: "sleep_step p n t0 a b \<Longrightarrow> sleep_inv p n t0 a \<Longrightarrow> sleep_inv p n t0 b"
proof (induction rule: sleep_step.induct)
  case (sl_tick me s k)
  have "\<not> sleeps_on (clockintr s 0 me) ChTicks p"
    using sl_tick(1) by (auto simp: sleeps_on_def clockintr_def nth_wakeup split: if_splits)
  with sl_tick(2) show ?case by (simp add: sleep_inv_def clockintr_def)
next
  case (sl_pass s r s' k)
  then show ?case
    by (auto simp: sleep_inv_def sleep_pass_def sleeps_on_def back_from_sleep_def split: if_splits)
next
  case (sl_other s' s k)
  then show ?case by (auto simp: sleep_inv_def)
qed

lemma ticks_compare:
  assumes "k < 2 ^ 32" "0 \<le> n" "n < 2 ^ 31"
  shows "(of_nat k :: u32) < of_int n \<longleftrightarrow> int k < n"
proof -
  have "unat (of_nat k :: u32) = k" using assms(1) by (simp add: unat_of_nat)
  moreover have "unat (of_int n :: u32) = nat n"
    using assms(2,3) unat_of_nat [where 'a = 32, of "nat n"] by simp
  ultimately show ?thesis using assms(2) by (simp add: word_less_nat_alt) linarith
qed

text \<open>C24: \<^verbatim>\<open>sys_sleep(n)\<close> ends in time. Whatever else happens, once \<open>n\<close> ticks have passed (and fewer
  than \<open>2 ^ 32\<close>, when the counter has gone round), the process is not asleep on \<^verbatim>\<open>ticks\<close> any more
  and its next pass returns 0; and no pass returns 0 before that.\<close>

theorem sleep_ends_in_time:
  assumes "(sleep_step p n t0)\<^sup>*\<^sup>* (s0, 0) (s, k)" "ticks s0 = t0" "\<not> sleeps_on s0 ChTicks p"
    and "0 \<le> n" "n < 2 ^ 31" "k < 2 ^ 32"
  shows "(n \<le> int k \<longrightarrow> \<not> sleeps_on s ChTicks p) \<and> (fst (sleep_pass s p n t0) = Returns 0 \<longleftrightarrow> n \<le> int k)"
proof -
  have "sleep_inv p n t0 (s0, 0)" using assms(2,3) by (simp add: sleep_inv_def)
  with assms(1) have "sleep_inv p n t0 (s, k)" by (induction rule: rtranclp_induct) (auto intro: sleep_inv_step)
  then show ?thesis
    using ticks_compare [OF assms(6,4,5)] by (auto simp: sleep_inv_def sleep_pass_def)
qed

theorem sleep_ends_in_time_witness:
  "fst (sleep_pass (clockintr family 0 None) 0 1 0) = Returns 0"
proof -
  have "(sleep_step 0 1 0)\<^sup>*\<^sup>* (family, 0) (clockintr family 0 None, 0 + 1)"
    by (rule r_into_rtranclp) (rule sl_tick, simp)
  moreover have "\<not> sleeps_on family ChTicks 0" "ticks family = 0" by (simp_all add: sleeps_on_def demo_simps)
  ultimately show ?thesis using sleep_ends_in_time [of 0 1 0 family "clockintr family 0 None" 1] by simp
qed

end
