(* ===== verification/Sysfile.thy ===== *)
theory Sysfile
  imports File Syscall
begin

text \<open>
  The system calls on files, \<^verbatim>\<open>kernel/sysfile.c\<close>. As in theory \<open>Syscall\<close> a local variable that has no
  value when \<^verbatim>\<open>argint\<close> fails is an argument, here \<open>fd0\<close>, \<open>n0\<close> and so on; so are the initial contents
  \<open>junk\<close> of the buffers for path elements.
\<close>

definition MAXPATH :: nat where "MAXPATH = 128"
definition O_RDONLY :: int where "O_RDONLY = 0"
definition O_WRONLY :: int where "O_WRONLY = 1"
definition O_RDWR :: int where "O_RDWR = 2"
definition O_CREATE :: int where "O_CREATE = 0x200"
definition O_TRUNC :: int where "O_TRUNC = 0x400"

definition set_procs :: "(sys \<Rightarrow> sys) \<Rightarrow> kern \<Rightarrow> kern" where
  "set_procs f k = k\<lparr>k_sys := f (k_sys k)\<rparr>"

text \<open>\<^verbatim>\<open>myproc()->cwd\<close>, which every process has that makes a system call.\<close>

definition my_cwd :: "nat \<Rightarrow> kern \<Rightarrow> nat fs" where
  "my_cwd me k = (case p_cwd (prc (k_sys k) me) of Some i \<Rightarrow> Done i | None \<Rightarrow> Died ''no current directory'')"

section \<open>Descriptors\<close>

definition argfd :: "nat \<Rightarrow> int \<Rightarrow> nat \<Rightarrow> kern \<Rightarrow> (nat \<times> nat) option res" where
  "argfd me fd0 n k =
     and_then (argint (k_sys k) me n fd0) (\<lambda>(_, fd).
       if fd < 0 \<or> int NOFILE \<le> fd then Ok None
       else (case p_ofile (prc (k_sys k) me) ! nat fd of None \<Rightarrow> Ok None | Some f \<Rightarrow> Ok (Some (nat fd, f))))"

definition set_fd :: "nat \<Rightarrow> nat \<Rightarrow> nat option \<Rightarrow> kern \<Rightarrow> kern" where
  "set_fd me fd f k = set_procs (upd_proc me (\<lambda>p. p\<lparr>p_ofile := (p_ofile p)[fd := f]\<rparr>)) k"

definition fdalloc :: "nat \<Rightarrow> nat \<Rightarrow> kern \<Rightarrow> nat option \<times> kern" where
  "fdalloc me f k =
     (case find (\<lambda>fd. p_ofile (prc (k_sys k) me) ! fd = None) [0..<NOFILE] of
        None \<Rightarrow> (None, k)
      | Some fd \<Rightarrow> (Some fd, set_fd me fd (Some f) k))"

definition sys_dup :: "nat \<Rightarrow> int \<Rightarrow> kern \<Rightarrow> (int \<times> kern) fs" where
  "sys_dup me fd0 k =
     fbind (of_res (argfd me fd0 0 k)) (\<lambda>r.
       case r of
         None \<Rightarrow> Done (-1, k)
       | Some (_, f) \<Rightarrow>
           (case fdalloc me f k of
              (None, k1) \<Rightarrow> Done (-1, k1)
            | (Some fd, k1) \<Rightarrow> fbind (filedup f k1) (\<lambda>k2. Done (int fd, k2))))"

definition sys_read :: "(u16 \<Rightarrow> devfun option) \<Rightarrow> nat \<Rightarrow> int \<Rightarrow> int \<Rightarrow> kern \<Rightarrow> (int \<times> kern) fs" where
  "sys_read dread me fd0 n0 k =
     fbind (of_res (argaddr (k_sys k) me 1)) (\<lambda>p.
     fbind (of_res (argint (k_sys k) me 2 n0)) (\<lambda>(_, n).
     fbind (of_res (argfd me fd0 0 k)) (\<lambda>r.
       case r of None \<Rightarrow> Done (-1, k) | Some (_, f) \<Rightarrow> fileread dread me f p n k)))"

definition sys_write :: "(u16 \<Rightarrow> devfun option) \<Rightarrow> nat \<Rightarrow> int \<Rightarrow> int \<Rightarrow> kern \<Rightarrow> (int \<times> kern) fs" where
  "sys_write dwrite me fd0 n0 k =
     fbind (of_res (argaddr (k_sys k) me 1)) (\<lambda>p.
     fbind (of_res (argint (k_sys k) me 2 n0)) (\<lambda>(_, n).
     fbind (of_res (argfd me fd0 0 k)) (\<lambda>r.
       case r of None \<Rightarrow> Done (-1, k) | Some (_, f) \<Rightarrow> filewrite dwrite me f p n k)))"

definition sys_close :: "nat \<Rightarrow> int \<Rightarrow> kern \<Rightarrow> (int \<times> kern) fs" where
  "sys_close me fd0 k =
     fbind (of_res (argfd me fd0 0 k)) (\<lambda>r.
       case r of
         None \<Rightarrow> Done (-1, k)
       | Some (fd, f) \<Rightarrow> fbind (fileclose me f (set_fd me fd None k)) (\<lambda>k1. Done (0, k1)))"

definition sys_fstat :: "nat \<Rightarrow> u8 list \<Rightarrow> int \<Rightarrow> kern \<Rightarrow> (int \<times> kern) fs" where
  "sys_fstat me pad fd0 k =
     fbind (of_res (argaddr (k_sys k) me 1)) (\<lambda>addr.
     fbind (of_res (argfd me fd0 0 k)) (\<lambda>r.
       case r of None \<Rightarrow> Done (-1, k) | Some (_, f) \<Rightarrow> filestat me pad f addr k))"

section \<open>Links\<close>

text \<open>The parts of the calls between \<^verbatim>\<open>begin_op\<close> and \<^verbatim>\<open>end_op\<close>, on the file system; \<open>pid\<close> is the caller's.\<close>

definition link_bad :: "int \<Rightarrow> nat \<Rightarrow> fsys \<Rightarrow> (int \<times> fsys) fs" where
  "link_bad pid ip s =
     fbind (ilock pid ip s) (\<lambda>s1.
     fbind (iupdate ip (upd_ino ip (\<lambda>i. i\<lparr>i_nlink := i_nlink i - 1\<rparr>) s1)) (\<lambda>s2.
     fbind (iunlockput pid ip s2) (\<lambda>s3. Done (-1, s3))))"

definition link_body :: "int \<Rightarrow> nat \<Rightarrow> u8 list \<Rightarrow> u8 list \<Rightarrow> u8 list \<Rightarrow> fsys \<Rightarrow> (int \<times> fsys) fs" where
  "link_body pid cwd junk old new s =
     fbind (namei pid cwd junk old s) (\<lambda>(r, s1).
       case r of
         None \<Rightarrow> Done (-1, s1)
       | Some ip \<Rightarrow>
           fbind (ilock pid ip s1) (\<lambda>s2.
             if i_type (ino s2 ip) = T_DIR then fbind (iunlockput pid ip s2) (\<lambda>s3. Done (-1, s3))
             else
               fbind (iupdate ip (upd_ino ip (\<lambda>i. i\<lparr>i_nlink := i_nlink i + 1\<rparr>) s2)) (\<lambda>s3.
               fbind (iunlock pid ip s3) (\<lambda>s4.
               fbind (nameiparent pid cwd new junk s4) (\<lambda>(rp, name, s5).
                 case rp of
                   None \<Rightarrow> link_bad pid ip s5
                 | Some dp \<Rightarrow>
                     fbind (ilock pid dp s5) (\<lambda>s6.
                     fbind (if i_dev (ino s6 dp) \<noteq> i_dev (ino s6 ip) then Done (-1, s6)
                            else dirlink dp name (i_inum (ino s6 ip)) s6) (\<lambda>(rl, s7).
                     fbind (iunlockput pid dp s7) (\<lambda>s8.
                       if rl < 0 then link_bad pid ip s8
                       else fbind (iput ip s8) (\<lambda>s9. Done (0, s9))))))))))"

definition sys_link :: "nat \<Rightarrow> u8 list \<Rightarrow> kern \<Rightarrow> (int \<times> kern) fs" where
  "sys_link me junk k =
     fbind (of_res (argstr (k_sys k) me 0 MAXPATH)) (\<lambda>(r0, old).
       if r0 < 0 then Done (-1, k)
       else fbind (of_res (argstr (k_sys k) me 1 MAXPATH)) (\<lambda>(r1, new).
         if r1 < 0 then Done (-1, k)
         else
           fbind (my_cwd me k) (\<lambda>cwd.
           fbind (k_begin_op me k) (\<lambda>k1.
           fbind (on_fs2 (link_body (my_pid me k) cwd junk old new) k1) (\<lambda>(r, k2).
           fbind (k_end_op me k2) (\<lambda>k3. Done (r, k3)))))))"

fun isdirempty_from :: "nat \<Rightarrow> nat \<Rightarrow> nat \<Rightarrow> fsys \<Rightarrow> (bool \<times> fsys) fs" where
  "isdirempty_from dp off 0 s = Done (True, s)"
| "isdirempty_from dp off (Suc n) s =
     fbind (readi kbuf_out dp off 16 (replicate 16 0) s) (\<lambda>(r, de, s1).
       if r \<noteq> 16 then Died ''isdirempty: readi''
       else if rd 2 0 de \<noteq> 0 then Done (False, s1)
       else isdirempty_from dp (off + 16) n s1)"

definition isdirempty :: "nat \<Rightarrow> fsys \<Rightarrow> (bool \<times> fsys) fs" where
  "isdirempty dp s = isdirempty_from dp 32 (dir_len dp s - 2) s"

text \<open>The names \<^verbatim>\<open>.\<close> and \<^verbatim>\<open>..\<close>.\<close>

definition dot :: "u8 list" where "dot = [46, 0]"
definition dotdot :: "u8 list" where "dotdot = [46, 46, 0]"

definition unlink_entry :: "int \<Rightarrow> nat \<Rightarrow> nat \<Rightarrow> nat \<Rightarrow> fsys \<Rightarrow> (int \<times> fsys) fs" where
  "unlink_entry pid dp ip off s =
     fbind (writei (kbuf_in (replicate 16 0)) dp off 16 s) (\<lambda>(r, s1).
       if r \<noteq> 16 then Died ''unlink: writei''
       else
         fbind (if i_type (ino s1 ip) = T_DIR
                then iupdate dp (upd_ino dp (\<lambda>i. i\<lparr>i_nlink := i_nlink i - 1\<rparr>) s1) else Done s1) (\<lambda>s2.
         fbind (iunlockput pid dp s2) (\<lambda>s3.
         fbind (iupdate ip (upd_ino ip (\<lambda>i. i\<lparr>i_nlink := i_nlink i - 1\<rparr>) s3)) (\<lambda>s4.
         fbind (iunlockput pid ip s4) (\<lambda>s5. Done (0, s5))))))"

definition unlink_body :: "int \<Rightarrow> nat \<Rightarrow> u8 list \<Rightarrow> u8 list \<Rightarrow> fsys \<Rightarrow> (int \<times> fsys) fs" where
  "unlink_body pid cwd junk pth s =
     fbind (nameiparent pid cwd pth junk s) (\<lambda>(rp, name, s1).
       case rp of
         None \<Rightarrow> Done (-1, s1)
       | Some dp \<Rightarrow>
           fbind (ilock pid dp s1) (\<lambda>s2.
             if namecmp name dot = 0 \<or> namecmp name dotdot = 0 then fbind (iunlockput pid dp s2) (\<lambda>s3. Done (-1, s3))
             else
               fbind (dirlookup dp name s2) (\<lambda>(found, s3).
                 case found of
                   None \<Rightarrow> fbind (iunlockput pid dp s3) (\<lambda>s4. Done (-1, s4))
                 | Some (ip, off) \<Rightarrow>
                     fbind (ilock pid ip s3) (\<lambda>s4.
                       if sint (i_nlink (ino s4 ip)) < 1 then Died ''unlink: nlink < 1''
                       else
                         fbind (if i_type (ino s4 ip) = T_DIR then isdirempty ip s4 else Done (True, s4)) (\<lambda>(emp, s5).
                           if \<not> emp then
                             fbind (iunlockput pid ip s5) (\<lambda>s6. fbind (iunlockput pid dp s6) (\<lambda>s7. Done (-1, s7)))
                           else unlink_entry pid dp ip off s5)))))"

definition sys_unlink :: "nat \<Rightarrow> u8 list \<Rightarrow> kern \<Rightarrow> (int \<times> kern) fs" where
  "sys_unlink me junk k =
     fbind (of_res (argstr (k_sys k) me 0 MAXPATH)) (\<lambda>(r0, pth).
       if r0 < 0 then Done (-1, k)
       else
         fbind (my_cwd me k) (\<lambda>cwd.
         fbind (k_begin_op me k) (\<lambda>k1.
         fbind (on_fs2 (unlink_body (my_pid me k) cwd junk pth) k1) (\<lambda>(r, k2).
         fbind (k_end_op me k2) (\<lambda>k3. Done (r, k3))))))"

section \<open>Creating and opening\<close>

definition create_fail :: "int \<Rightarrow> nat \<Rightarrow> nat \<Rightarrow> fsys \<Rightarrow> (nat option \<times> fsys) fs" where
  "create_fail pid dp ip s =
     fbind (iupdate ip (upd_ino ip (\<lambda>i. i\<lparr>i_nlink := 0\<rparr>) s)) (\<lambda>s1.
     fbind (iunlockput pid ip s1) (\<lambda>s2.
     fbind (iunlockput pid dp s2) (\<lambda>s3. Done (None, s3))))"

definition create_links :: "nat \<Rightarrow> nat \<Rightarrow> u8 list \<Rightarrow> u16 \<Rightarrow> fsys \<Rightarrow> (bool \<times> fsys) fs" where
  "create_links dp ip name ty s =
     fbind (if ty = T_DIR
            then fbind (dirlink ip dot (i_inum (ino s ip)) s) (\<lambda>(r, s1).
                   if r < 0 then Done (False, s1)
                   else fbind (dirlink ip dotdot (i_inum (ino s1 dp)) s1) (\<lambda>(r', s2). Done (\<not> r' < 0, s2)))
            else Done (True, s)) (\<lambda>(ok, s1).
       if \<not> ok then Done (False, s1)
       else fbind (dirlink dp name (i_inum (ino s1 ip)) s1) (\<lambda>(r, s2). Done (\<not> r < 0, s2)))"

definition create :: "int \<Rightarrow> nat \<Rightarrow> u8 list \<Rightarrow> u8 list \<Rightarrow> u16 \<Rightarrow> u16 \<Rightarrow> u16 \<Rightarrow> fsys \<Rightarrow> (nat option \<times> fsys) fs" where
  "create pid cwd junk pth ty major minor s =
     fbind (nameiparent pid cwd pth junk s) (\<lambda>(rp, name, s1).
       case rp of
         None \<Rightarrow> Done (None, s1)
       | Some dp \<Rightarrow>
           fbind (ilock pid dp s1) (\<lambda>s2.
           fbind (dirlookup dp name s2) (\<lambda>(found, s3).
             case found of
               Some (ip, _) \<Rightarrow>
                 fbind (iunlockput pid dp s3) (\<lambda>s4.
                 fbind (ilock pid ip s4) (\<lambda>s5.
                   if ty = T_FILE \<and> (i_type (ino s5 ip) = T_FILE \<or> i_type (ino s5 ip) = T_DEVICE) then Done (Some ip, s5)
                   else fbind (iunlockput pid ip s5) (\<lambda>s6. Done (None, s6))))
             | None \<Rightarrow>
                 fbind (ialloc (i_dev (ino s3 dp)) ty s3) (\<lambda>(r, s4).
                   case r of
                     None \<Rightarrow> fbind (iunlockput pid dp s4) (\<lambda>s5. Done (None, s5))
                   | Some ip \<Rightarrow>
                       fbind (ilock pid ip s4) (\<lambda>s5.
                       fbind (iupdate ip (upd_ino ip (\<lambda>i. i\<lparr>i_major := major, i_minor := minor, i_nlink := 1\<rparr>) s5)) (\<lambda>s6.
                       fbind (create_links dp ip name ty s6) (\<lambda>(ok, s7).
                         if \<not> ok then create_fail pid dp ip s7
                         else
                           fbind (if ty = T_DIR
                                  then iupdate dp (upd_ino dp (\<lambda>i. i\<lparr>i_nlink := i_nlink i + 1\<rparr>) s7) else Done s7) (\<lambda>s8.
                           fbind (iunlockput pid dp s8) (\<lambda>s9. Done (Some ip, s9))))))))))"

text \<open>\<^verbatim>\<open>sys_open\<close> up to the locked inode, and from there on.\<close>

definition open_inode :: "int \<Rightarrow> nat \<Rightarrow> u8 list \<Rightarrow> u8 list \<Rightarrow> int \<Rightarrow> fsys \<Rightarrow> (nat option \<times> fsys) fs" where
  "open_inode pid cwd junk pth omode s =
     (if (omode AND O_CREATE) \<noteq> 0 then create pid cwd junk pth T_FILE 0 0 s
      else
        fbind (namei pid cwd junk pth s) (\<lambda>(r, s1).
          case r of
            None \<Rightarrow> Done (None, s1)
          | Some ip \<Rightarrow>
              fbind (ilock pid ip s1) (\<lambda>s2.
                if i_type (ino s2 ip) = T_DIR \<and> omode \<noteq> O_RDONLY
                then fbind (iunlockput pid ip s2) (\<lambda>s3. Done (None, s3))
                else Done (Some ip, s2))))"

definition open_file :: "nat \<Rightarrow> int \<Rightarrow> nat \<Rightarrow> kern \<Rightarrow> (int \<times> kern) fs" where
  "open_file me omode ip k =
     (let pid = my_pid me k; i = ino (k_fs k) ip in
      if i_type i = T_DEVICE \<and> (sint (i_major i) < 0 \<or> NDEV \<le> sint (i_major i))
      then fbind (on_fs (iunlockput pid ip) k) (\<lambda>k1. Done (-1, k1))
      else (case filealloc k of
          (None, k1) \<Rightarrow> fbind (on_fs (iunlockput pid ip) k1) (\<lambda>k2. Done (-1, k2))
        | (Some f, k1) \<Rightarrow>
            (case fdalloc me f k1 of
               (None, k2) \<Rightarrow>
                 fbind (fileclose me f k2) (\<lambda>k3.
                 fbind (on_fs (iunlockput pid ip) k3) (\<lambda>k4. Done (-1, k4)))
             | (Some fd, k2) \<Rightarrow>
                 (let k3 = upd_file f (\<lambda>x. if i_type i = T_DEVICE then x\<lparr>f_type := FD_DEVICE, f_major := i_major i\<rparr>
                                           else x\<lparr>f_type := FD_INODE, f_off := 0\<rparr>) k2;
                      k4 = upd_file f (\<lambda>x. x\<lparr>f_ip := ip, f_readable := (omode AND O_WRONLY) = 0,
                             f_writable := (omode AND O_WRONLY) \<noteq> 0 \<or> (omode AND O_RDWR) \<noteq> 0\<rparr>) k3 in
                  fbind (if (omode AND O_TRUNC) \<noteq> 0 \<and> i_type i = T_FILE then on_fs (itrunc ip) k4 else Done k4) (\<lambda>k5.
                  fbind (on_fs (iunlock pid ip) k5) (\<lambda>k6. Done (int fd, k6)))))))"

definition sys_open :: "nat \<Rightarrow> u8 list \<Rightarrow> int \<Rightarrow> kern \<Rightarrow> (int \<times> kern) fs" where
  "sys_open me junk omode0 k =
     fbind (of_res (argint (k_sys k) me 1 omode0)) (\<lambda>(_, omode).
     fbind (of_res (argstr (k_sys k) me 0 MAXPATH)) (\<lambda>(n, pth).
       if n < 0 then Done (-1, k)
       else
         fbind (my_cwd me k) (\<lambda>cwd.
         fbind (k_begin_op me k) (\<lambda>k1.
         fbind (on_fs2 (open_inode (my_pid me k) cwd junk pth omode) k1) (\<lambda>(r, k2).
         fbind (case r of None \<Rightarrow> Done (-1, k2) | Some ip \<Rightarrow> open_file me omode ip k2) (\<lambda>(v, k3).
         fbind (k_end_op me k3) (\<lambda>k4. Done (v, k4))))))))"

definition sys_mkdir :: "nat \<Rightarrow> u8 list \<Rightarrow> kern \<Rightarrow> (int \<times> kern) fs" where
  "sys_mkdir me junk k =
     fbind (my_cwd me k) (\<lambda>cwd.
     fbind (k_begin_op me k) (\<lambda>k1.
     fbind (of_res (argstr (k_sys k1) me 0 MAXPATH)) (\<lambda>(n, pth).
     fbind (if n < 0 then Done (None, k1) else on_fs2 (create (my_pid me k) cwd junk pth T_DIR 0 0) k1) (\<lambda>(r, k2).
       case r of
         None \<Rightarrow> fbind (k_end_op me k2) (\<lambda>k3. Done (-1, k3))
       | Some ip \<Rightarrow>
           fbind (on_fs (iunlockput (my_pid me k) ip) k2) (\<lambda>k3.
           fbind (k_end_op me k3) (\<lambda>k4. Done (0, k4)))))))"

definition sys_mknod :: "nat \<Rightarrow> u8 list \<Rightarrow> int \<Rightarrow> int \<Rightarrow> kern \<Rightarrow> (int \<times> kern) fs" where
  "sys_mknod me junk major0 minor0 k =
     fbind (my_cwd me k) (\<lambda>cwd.
     fbind (k_begin_op me k) (\<lambda>k1.
     fbind (of_res (argint (k_sys k1) me 1 major0)) (\<lambda>(_, major).
     fbind (of_res (argint (k_sys k1) me 2 minor0)) (\<lambda>(_, minor).
     fbind (of_res (argstr (k_sys k1) me 0 MAXPATH)) (\<lambda>(n, pth).
     fbind (if n < 0 then Done (None, k1)
            else on_fs2 (create (my_pid me k) cwd junk pth T_DEVICE (of_int major) (of_int minor)) k1) (\<lambda>(r, k2).
       case r of
         None \<Rightarrow> fbind (k_end_op me k2) (\<lambda>k3. Done (-1, k3))
       | Some ip \<Rightarrow>
           fbind (on_fs (iunlockput (my_pid me k) ip) k2) (\<lambda>k3.
           fbind (k_end_op me k3) (\<lambda>k4. Done (0, k4)))))))))"

definition sys_chdir :: "nat \<Rightarrow> u8 list \<Rightarrow> kern \<Rightarrow> (int \<times> kern) fs" where
  "sys_chdir me junk k =
     fbind (my_cwd me k) (\<lambda>cwd.
     fbind (k_begin_op me k) (\<lambda>k1.
     fbind (of_res (argstr (k_sys k1) me 0 MAXPATH)) (\<lambda>(n, pth).
     fbind (if n < 0 then Done (None, k1) else on_fs2 (namei (my_pid me k) cwd junk pth) k1) (\<lambda>(r, k2).
       case r of
         None \<Rightarrow> fbind (k_end_op me k2) (\<lambda>k3. Done (-1, k3))
       | Some ip \<Rightarrow>
           fbind (on_fs (ilock (my_pid me k) ip) k2) (\<lambda>k3.
             if i_type (ino (k_fs k3) ip) \<noteq> T_DIR
             then fbind (on_fs (iunlockput (my_pid me k) ip) k3) (\<lambda>k4. fbind (k_end_op me k4) (\<lambda>k5. Done (-1, k5)))
             else
               fbind (on_fs (iunlock (my_pid me k) ip) k3) (\<lambda>k4.
               fbind (on_fs (iput cwd) k4) (\<lambda>k5.
               fbind (k_end_op me k5) (\<lambda>k6.
                 Done (0, set_procs (upd_proc me (\<lambda>p. p\<lparr>p_cwd := Some ip\<rparr>)) k6)))))))))"

definition close_both :: "nat \<Rightarrow> nat \<Rightarrow> nat \<Rightarrow> kern \<Rightarrow> (int \<times> kern) fs" where
  "close_both me rfile wfile k =
     fbind (fileclose me rfile k) (\<lambda>k1. fbind (fileclose me wfile k1) (\<lambda>k2. Done (-1, k2)))"

definition sys_pipe :: "nat \<Rightarrow> kern \<Rightarrow> (int \<times> kern) fs" where
  "sys_pipe me k =
     fbind (of_res (argaddr (k_sys k) me 0)) (\<lambda>fdarray.
     fbind (pipealloc me k) (\<lambda>(r, k1).
       case r of
         None \<Rightarrow> Done (-1, k1)
       | Some (rfile, wfile) \<Rightarrow>
           (case fdalloc me rfile k1 of
              (None, k2) \<Rightarrow> close_both me rfile wfile k2
            | (Some fd0, k2) \<Rightarrow>
                (case fdalloc me wfile k2 of
                   (None, k3) \<Rightarrow> close_both me rfile wfile (set_fd me fd0 None k3)
                 | (Some fd1, k3) \<Rightarrow>
                     (let pt = p_pagetable (prc (k_sys k3) me) in
                      fbind (of_res (copyout (mch (k_sys k3)) pt fdarray (bytes32 (int fd0)))) (\<lambda>(r0, m).
                      let k4 = set_procs (\<lambda>s. s\<lparr>mch := m\<rparr>) k3 in
                      fbind (if r0 < 0 then Done (-1, k4)
                             else fbind (of_res (copyout m pt (fdarray + 4) (bytes32 (int fd1)))) (\<lambda>(r1, m1).
                               Done (r1, set_procs (\<lambda>s. s\<lparr>mch := m1\<rparr>) k4))) (\<lambda>(r1, k5).
                        if r1 < 0 then close_both me rfile wfile (set_fd me fd1 None (set_fd me fd0 None k5))
                        else Done (0, k5))))))))"

end
