(* ===== verification/Proc_Life.thy ===== *)
theory Proc_Life
  imports Sysfile
begin

text \<open>
  The life of a process in \<^verbatim>\<open>kernel/proc.c\<close>: the first process, \<^verbatim>\<open>fork\<close> and \<^verbatim>\<open>exit\<close>, which involve the
  process table, the open files and the inodes at once, and their system calls; and the construction
  of the kernel's page table in \<^verbatim>\<open>kernel/vm.c\<close>.
\<close>

section \<open>The kernel page table\<close>

definition UART0 :: u64 where "UART0 = 0x10000000"
definition VIRTIO0 :: u64 where "VIRTIO0 = 0x10001000"
definition PLIC :: u64 where "PLIC = 0x0c000000"

fun proc_mapstacks_from :: "u64 \<Rightarrow> nat list \<Rightarrow> machine \<Rightarrow> machine res" where
  "proc_mapstacks_from kpgtbl [] m = Ok m"
| "proc_mapstacks_from kpgtbl (p # ps) m =
     (let (pa, m1) = kalloc m in
      if pa = 0 then Panic ''kalloc''
      else and_then (kvmmap m1 kpgtbl (KSTACK p) pa PGSIZE (PTE_R OR PTE_W)) (proc_mapstacks_from kpgtbl ps))"

definition proc_mapstacks :: "u64 \<Rightarrow> machine \<Rightarrow> machine res" where
  "proc_mapstacks kpgtbl m = proc_mapstacks_from kpgtbl [0..<NPROC] m"

text \<open>\<open>etext\<close> and \<open>tramp\<close> are the addresses that the linker gives \<^verbatim>\<open>etext\<close> and \<^verbatim>\<open>trampoline\<close>.\<close>

definition kvmmake :: "u64 \<Rightarrow> u64 \<Rightarrow> machine \<Rightarrow> (u64 \<times> machine) res" where
  "kvmmake etext tramp m =
     (let (kpgtbl, m1) = kalloc m; m2 = m1\<lparr>pm := memset (pm m1) kpgtbl 0 (unat PGSIZE)\<rparr> in
      and_then (kvmmap m2 kpgtbl UART0 UART0 PGSIZE (PTE_R OR PTE_W)) (\<lambda>m3.
      and_then (kvmmap m3 kpgtbl VIRTIO0 VIRTIO0 PGSIZE (PTE_R OR PTE_W)) (\<lambda>m4.
      and_then (kvmmap m4 kpgtbl PLIC PLIC 0x4000000 (PTE_R OR PTE_W)) (\<lambda>m5.
      and_then (kvmmap m5 kpgtbl KERNBASE KERNBASE (etext - KERNBASE) (PTE_R OR PTE_X)) (\<lambda>m6.
      and_then (kvmmap m6 kpgtbl etext etext (PHYSTOP - etext) (PTE_R OR PTE_W)) (\<lambda>m7.
      and_then (kvmmap m7 kpgtbl TRAMPOLINE tramp PGSIZE (PTE_R OR PTE_X)) (\<lambda>m8.
      and_then (proc_mapstacks kpgtbl m8) (\<lambda>m9. Ok (kpgtbl, m9)))))))))"

section \<open>The first process\<close>

definition initcode :: "u8 list" where
  "initcode =
    [0x17, 0x05, 0x00, 0x00, 0x13, 0x05, 0x45, 0x02,
     0x97, 0x05, 0x00, 0x00, 0x93, 0x85, 0x35, 0x02,
     0x93, 0x08, 0x70, 0x00, 0x73, 0x00, 0x00, 0x00,
     0x93, 0x08, 0x20, 0x00, 0x73, 0x00, 0x00, 0x00,
     0xef, 0xf0, 0x9f, 0xff, 0x2f, 0x69, 0x6e, 0x69,
     0x74, 0x00, 0x00, 0x24, 0x00, 0x00, 0x00, 0x00,
     0x00, 0x00, 0x00, 0x00]"

definition sp_off :: u64 where "sp_off = 48"

definition userinit :: "u8 list \<Rightarrow> kern \<Rightarrow> kern fs" where
  "userinit junk k =
     fbind (of_res (allocproc (k_sys k))) (\<lambda>(r, s1).
       case r of
         None \<Rightarrow> Died ''no process''
       | Some p \<Rightarrow>
           fbind (of_res (uvmfirst (mch s1) (p_pagetable (prc s1 p)) initcode)) (\<lambda>m.
           let s2 = upd_proc p (\<lambda>q. q\<lparr>p_sz := PGSIZE\<rparr>) (s1\<lparr>mch := m, initproc := Some p\<rparr>);
               s3 = tf_write (tf_write s2 p epc_off 0) p sp_off PGSIZE;
               s4 = upd_proc p (\<lambda>q. q\<lparr>p_name := safestrcpy (p_name q) (char_at [105, 110, 105, 116, 99, 111, 100, 101, 0]) 16\<rparr>) s3 in
           fbind (namei 0 0 junk [47, 0] (k_fs k)) (\<lambda>(ip, fs).
             Done (k\<lparr>k_sys := upd_proc p (\<lambda>q. q\<lparr>p_cwd := ip, p_state := RUNNABLE\<rparr>) s4, k_fs := fs\<rparr>))))"

text \<open>\<^verbatim>\<open>forkret\<close> up to \<^verbatim>\<open>usertrapret\<close>; \<open>first\<close> is its static variable.\<close>

definition forkret :: "bool \<Rightarrow> kern \<Rightarrow> (bool \<times> kern) fs" where
  "forkret first k = (if first then fbind (on_fs fsinit k) (\<lambda>k1. Done (False, k1)) else Done (first, k))"

section \<open>Fork\<close>

definition sizeof_trapframe :: nat where "sizeof_trapframe = 288"

definition copy_trapframe :: "nat \<Rightarrow> nat \<Rightarrow> sys \<Rightarrow> sys" where
  "copy_trapframe p np s =
     s\<lparr>mch := (mch s)\<lparr>pm := write_bytes (pm (mch s)) (p_trapframe (prc s np))
       (read_bytes (pm (mch s)) (p_trapframe (prc s p)) sizeof_trapframe)\<rparr>\<rparr>"

fun fork_files :: "nat \<Rightarrow> nat \<Rightarrow> nat list \<Rightarrow> kern \<Rightarrow> kern fs" where
  "fork_files p np [] k = Done k"
| "fork_files p np (i # is) k =
     (case p_ofile (prc (k_sys k) p) ! i of
        None \<Rightarrow> fork_files p np is k
      | Some f \<Rightarrow> fbind (filedup f k) (\<lambda>k1. fork_files p np is (set_fd np i (Some f) k1)))"

definition fork :: "nat \<Rightarrow> kern \<Rightarrow> (int \<times> kern) fs" where
  "fork p k =
     fbind (of_res (allocproc (k_sys k))) (\<lambda>(r, s1).
       case r of
         None \<Rightarrow> Done (-1, k\<lparr>k_sys := s1\<rparr>)
       | Some np \<Rightarrow>
           fbind (of_res (uvmcopy (mch s1) (p_pagetable (prc s1 p)) (p_pagetable (prc s1 np)) (p_sz (prc s1 p)))) (\<lambda>(rc, m).
           let s2 = s1\<lparr>mch := m\<rparr> in
           if rc < 0 then fbind (of_res (freeproc s2 np)) (\<lambda>s3. Done (-1, k\<lparr>k_sys := s3\<rparr>))
           else
             (let s3 = upd_proc np (\<lambda>q. q\<lparr>p_sz := p_sz (prc s2 p)\<rparr>) s2;
                  s4 = tf_write (copy_trapframe p np s3) np a0_off 0 in
              fbind (fork_files p np [0..<NOFILE] (k\<lparr>k_sys := s4\<rparr>)) (\<lambda>k1.
              fbind (my_cwd p k1) (\<lambda>cwd.
              let (c, fs) = idup cwd (k_fs k1);
                  s5 = upd_proc np (\<lambda>q. q\<lparr>p_cwd := Some c,
                         p_name := safestrcpy (p_name q) (char_at (p_name (prc (k_sys k1) p))) 16\<rparr>) (k_sys k1) in
              Done (p_pid (prc s5 np), k1\<lparr>k_sys := fork_link s5 np p, k_fs := fs\<rparr>))))))"

definition sys_fork :: "nat \<Rightarrow> kern \<Rightarrow> (int \<times> kern) fs" where
  "sys_fork p k = fork p k"

section \<open>Exit\<close>

fun exit_files :: "nat \<Rightarrow> nat list \<Rightarrow> kern \<Rightarrow> kern fs" where
  "exit_files p [] k = Done k"
| "exit_files p (fd # fds) k =
     (case p_ofile (prc (k_sys k) p) ! fd of
        None \<Rightarrow> exit_files p fds k
      | Some f \<Rightarrow> fbind (fileclose p f k) (\<lambda>k1. exit_files p fds (set_fd p fd None k1)))"

definition exit :: "nat \<Rightarrow> int \<Rightarrow> kern \<Rightarrow> kern fs" where
  "exit p status k =
     (if initproc (k_sys k) = Some p then Died ''init exiting''
      else
        fbind (exit_files p [0..<NOFILE] k) (\<lambda>k1.
        fbind (k_begin_op p k1) (\<lambda>k2.
        fbind (my_cwd p k2) (\<lambda>cwd.
        fbind (on_fs (iput cwd) k2) (\<lambda>k3.
        fbind (k_end_op p k3) (\<lambda>k4.
        let s = upd_proc p (\<lambda>q. q\<lparr>p_cwd := None\<rparr>) (k_sys k4) in
        Done (k4\<lparr>k_sys := exit_tail s p status\<rparr>)))))))"

definition sys_exit :: "nat \<Rightarrow> int \<Rightarrow> kern \<Rightarrow> kern fs" where
  "sys_exit p n0 k = fbind (of_res (argint (k_sys k) p 0 n0)) (\<lambda>(_, n). exit p n k)"

end
