(* ===== verification/Exec.thy ===== *)
theory Exec
  imports Proc_Life
begin

text \<open>
  \<^verbatim>\<open>kernel/exec.c\<close> and \<^verbatim>\<open>sys_exec\<close> of \<^verbatim>\<open>kernel/sysfile.c\<close>. The ELF structures of \<^verbatim>\<open>kernel/elf.h\<close> are read
  from the bytes that \<^verbatim>\<open>readi\<close> puts into them, at the offsets of their members. An argument string
  is the bytes in its page; the pages hold them as well.
\<close>

definition MAXARG :: nat where "MAXARG = 32"
definition USERSTACK :: u64 where "USERSTACK = 1"
definition ELF_MAGIC :: nat where "ELF_MAGIC = 0x464C457F"
definition ELF_PROG_LOAD :: nat where "ELF_PROG_LOAD = 1"

record elfhdr =
  e_magic :: nat
  e_entry :: u64
  e_phoff :: u64
  e_phnum :: nat

record proghdr =
  ph_type :: nat
  ph_flags :: nat
  ph_off :: u64
  ph_vaddr :: u64
  ph_filesz :: u64
  ph_memsz :: u64

definition sizeof_elfhdr :: nat where "sizeof_elfhdr = 64"
definition sizeof_proghdr :: nat where "sizeof_proghdr = 56"

definition elfhdr_of :: "u8 list \<Rightarrow> elfhdr" where
  "elfhdr_of bs = \<lparr>e_magic = rd 4 0 bs, e_entry = of_nat (rd 8 24 bs), e_phoff = of_nat (rd 8 32 bs), e_phnum = rd 2 56 bs\<rparr>"

definition proghdr_of :: "u8 list \<Rightarrow> proghdr" where
  "proghdr_of bs =
     \<lparr>ph_type = rd 4 0 bs, ph_flags = rd 4 4 bs, ph_off = of_nat (rd 8 8 bs), ph_vaddr = of_nat (rd 8 16 bs),
      ph_filesz = of_nat (rd 8 32 bs), ph_memsz = of_nat (rd 8 40 bs)\<rparr>"

definition flags2perm :: "nat \<Rightarrow> u64" where
  "flags2perm flags =
     (let perm = (if odd flags then PTE_X else 0) in if odd (flags div 2) then perm OR PTE_W else perm)"

section \<open>Segments\<close>

text \<open>Physical memory as a destination of \<^verbatim>\<open>readi\<close>: \<^verbatim>\<open>either_copyout\<close> to a kernel address.\<close>

definition page_out :: "u64 \<Rightarrow> machine \<Rightarrow> nat \<Rightarrow> u8 list \<Rightarrow> (int \<times> machine) res" where
  "page_out pa m t bs = Ok (0, m\<lparr>pm := write_bytes (pm m) (pa + of_nat t) bs\<rparr>)"

function loadseg_from :: "u64 \<Rightarrow> u64 \<Rightarrow> nat \<Rightarrow> nat \<Rightarrow> nat \<Rightarrow> nat \<Rightarrow> machine \<Rightarrow> fsys \<Rightarrow> (int \<times> machine \<times> fsys) fs" where
  "loadseg_from pt va ip offset sz i m s =
     (if i < sz then
        fbind (of_res (walkaddr m pt (va + of_nat i))) (\<lambda>pa.
          if pa = 0 then Died ''loadseg: address should exist''
          else
            (let n = (if sz - i < unat PGSIZE then sz - i else unat PGSIZE) in
             fbind (readi (page_out pa) ip ((offset + i) mod 2 ^ 32) n m s) (\<lambda>(r, m1, s1).
               if r \<noteq> int n then Done (-1, m1, s1)
               else loadseg_from pt va ip offset sz (i + unat PGSIZE) m1 s1)))
      else Done (0, m, s))"
  by auto
termination
  by (relation "measure (\<lambda>(pt, va, ip, offset, sz, i, m, s). sz - i)") (auto simp: PGSIZE_def)

declare loadseg_from.simps [simp del]

definition loadseg :: "u64 \<Rightarrow> u64 \<Rightarrow> nat \<Rightarrow> nat \<Rightarrow> nat \<Rightarrow> machine \<Rightarrow> fsys \<Rightarrow> (int \<times> machine \<times> fsys) fs" where
  "loadseg pt va ip offset sz m s = loadseg_from pt va ip offset sz 0 m s"

text \<open>
  The loop over the program headers, from the \<open>left\<close>-th last one at \<open>off\<close>. The result is whether
  it ran to its end and the size of the image so far; otherwise the code goes to \<^verbatim>\<open>bad\<close>.
\<close>

fun exec_segments :: "u64 \<Rightarrow> nat \<Rightarrow> nat \<Rightarrow> nat \<Rightarrow> u64 \<Rightarrow> machine \<Rightarrow> fsys \<Rightarrow> (bool \<times> u64 \<times> machine \<times> fsys) fs" where
  "exec_segments pt ip off 0 sz m s = Done (True, sz, m, s)"
| "exec_segments pt ip off (Suc left) sz m s =
     fbind (readi kbuf_out ip off sizeof_proghdr (replicate sizeof_proghdr 0) s) (\<lambda>(r, bs, s1).
       let ph = proghdr_of bs; next_off = (off + sizeof_proghdr) mod 2 ^ 32 in
       if r \<noteq> int sizeof_proghdr then Done (False, sz, m, s1)
       else if ph_type ph \<noteq> ELF_PROG_LOAD then exec_segments pt ip next_off left sz m s1
       else if ph_memsz ph < ph_filesz ph then Done (False, sz, m, s1)
       else if ph_vaddr ph + ph_memsz ph < ph_vaddr ph then Done (False, sz, m, s1)
       else if ph_vaddr ph mod PGSIZE \<noteq> 0 then Done (False, sz, m, s1)
       else
         fbind (of_res (uvmalloc m pt sz (ph_vaddr ph + ph_memsz ph) (flags2perm (ph_flags ph)))) (\<lambda>(sz1, m1).
           if sz1 = 0 then Done (False, sz, m1, s1)
           else
             fbind (loadseg pt (ph_vaddr ph) ip (unat (ph_off ph) mod 2 ^ 32) (unat (ph_filesz ph) mod 2 ^ 32) m1 s1) (\<lambda>(r2, m2, s2).
               if r2 < 0 then Done (False, sz1, m2, s2)
               else exec_segments pt ip next_off left sz1 m2 s2)))"

section \<open>Arguments\<close>

text \<open>
  The loop that pushes the strings, from argument \<open>argc\<close>; \<open>None\<close> when the code goes to \<^verbatim>\<open>bad\<close>,
  otherwise the stack pointer and \<^verbatim>\<open>ustack\<close> up to the last argument.
\<close>

fun push_args :: "u64 \<Rightarrow> u64 \<Rightarrow> nat \<Rightarrow> u64 \<Rightarrow> u64 list \<Rightarrow> u8 list list \<Rightarrow> machine \<Rightarrow> ((u64 \<times> u64 list) option \<times> machine) res" where
  "push_args pt stackbase argc sp ustack [] m = Ok (Some (sp, ustack), m)"
| "push_args pt stackbase argc sp ustack (a # argv) m =
     (let bs = takeWhile (\<lambda>c. c \<noteq> 0) a @ [0]; sp1 = sp - of_nat (length bs); sp2 = sp1 - sp1 mod 16 in
      if argc \<ge> MAXARG then Ok (None, m)
      else if sp2 < stackbase then Ok (None, m)
      else and_then (copyout m pt sp2 bs) (\<lambda>(r, m1).
        if r < 0 then Ok (None, m1)
        else push_args pt stackbase (argc + 1) sp2 (ustack @ [sp2]) argv m1))"

definition push_argv :: "u64 \<Rightarrow> u64 \<Rightarrow> u64 \<Rightarrow> u8 list list \<Rightarrow> machine \<Rightarrow> (u64 option \<times> machine) res" where
  "push_argv pt stackbase sp argv m =
     and_then (push_args pt stackbase 0 sp [] argv m) (\<lambda>(r, m1).
       case r of
         None \<Rightarrow> Ok (None, m1)
       | Some (sp1, ustack) \<Rightarrow>
           (let words = ustack @ [0]; sp2 = sp1 - of_nat (8 * length words); sp3 = sp2 - sp2 mod 16 in
            if sp3 < stackbase then Ok (None, m1)
            else and_then (copyout m1 pt sp3 (concat (map bytes64 words))) (\<lambda>(r2, m2).
              Ok (if r2 < 0 then None else Some sp3, m2))))"

fun after_slash :: "u8 list \<Rightarrow> u8 list \<Rightarrow> u8 list" where
  "after_slash lst [] = lst"
| "after_slash lst (c # s) = (if c = 0 then lst else after_slash (if c = 47 then s else lst) s)"

section \<open>Exec\<close>

text \<open>
  \<open>exec_image\<close> is the code from the check of the header to the end of the segments, with the inode
  locked: the page table, whether the segments are loaded, and the size.
\<close>

definition exec_image :: "nat \<Rightarrow> nat \<Rightarrow> kern \<Rightarrow> ((elfhdr \<times> u64 \<times> bool \<times> u64) \<times> kern) fs" where
  "exec_image me ip k =
     fbind (readi kbuf_out ip 0 sizeof_elfhdr (replicate sizeof_elfhdr 0) (k_fs k)) (\<lambda>(r, bs, s1).
       let elf = elfhdr_of bs; k1 = k\<lparr>k_fs := s1\<rparr> in
       if r \<noteq> int sizeof_elfhdr \<or> e_magic elf \<noteq> ELF_MAGIC then Done ((elf, 0, False, 0), k1)
       else
         fbind (of_res (proc_pagetable (k_sys k1) me)) (\<lambda>(pt, s2).
           if pt = 0 then Done ((elf, 0, False, 0), k1\<lparr>k_sys := s2\<rparr>)
           else
             fbind (exec_segments pt ip (unat (e_phoff elf) mod 2 ^ 32) (e_phnum elf) 0 (mch s2) (k_fs k1)) (\<lambda>(ok, sz, m, s3).
               Done ((elf, pt, ok, sz), k1\<lparr>k_sys := s2\<lparr>mch := m\<rparr>, k_fs := s3\<rparr>))))"

definition exec_bad :: "u64 \<Rightarrow> u64 \<Rightarrow> kern \<Rightarrow> kern fs" where
  "exec_bad pt sz k =
     (if pt \<noteq> 0
      then fbind (of_res (proc_freepagetable (mch (k_sys k)) pt sz)) (\<lambda>m. Done (k\<lparr>k_sys := (k_sys k)\<lparr>mch := m\<rparr>\<rparr>))
      else Done k)"

text \<open>The code from the commit to the new image to the return.\<close>

definition exec_commit :: "nat \<Rightarrow> u8 list \<Rightarrow> elfhdr \<Rightarrow> u64 \<Rightarrow> u64 \<Rightarrow> u64 \<Rightarrow> kern \<Rightarrow> kern fs" where
  "exec_commit me pth elf pt sz sp k =
     (let s = k_sys k; oldsz = p_sz (prc s me); oldpt = p_pagetable (prc s me);
          s1 = tf_write s me 120 sp;
          s2 = upd_proc me (\<lambda>q. q\<lparr>p_name := safestrcpy (p_name q) (char_at (after_slash pth pth)) 16,
                 p_pagetable := pt, p_sz := sz\<rparr>) s1;
          s3 = tf_write (tf_write s2 me epc_off (e_entry elf)) me sp_off sp in
      fbind (of_res (proc_freepagetable (mch s3) oldpt oldsz)) (\<lambda>m. Done (k\<lparr>k_sys := s3\<lparr>mch := m\<rparr>\<rparr>)))"

definition exec_stack :: "nat \<Rightarrow> u8 list \<Rightarrow> u8 list list \<Rightarrow> elfhdr \<Rightarrow> u64 \<Rightarrow> u64 \<Rightarrow> kern \<Rightarrow> (int \<times> kern) fs" where
  "exec_stack me pth argv elf pt sz0 k =
     (let sz = PGROUNDUP sz0; put = (\<lambda>m. k\<lparr>k_sys := (k_sys k)\<lparr>mch := m\<rparr>\<rparr>) in
      fbind (of_res (uvmalloc (mch (k_sys k)) pt sz (sz + (USERSTACK + 1) * PGSIZE) PTE_W)) (\<lambda>(sz1, m1).
        if sz1 = 0 then fbind (exec_bad pt sz (put m1)) (\<lambda>k1. Done (-1, k1))
        else
          fbind (of_res (uvmclear m1 pt (sz1 - (USERSTACK + 1) * PGSIZE))) (\<lambda>m2.
          fbind (of_res (push_argv pt (sz1 - USERSTACK * PGSIZE) sz1 argv m2)) (\<lambda>(r, m3).
            case r of
              None \<Rightarrow> fbind (exec_bad pt sz1 (put m3)) (\<lambda>k1. Done (-1, k1))
            | Some sp \<Rightarrow> fbind (exec_commit me pth elf pt sz1 sp (put m3)) (\<lambda>k1. Done (int (length argv), k1))))))"

definition exec :: "nat \<Rightarrow> u8 list \<Rightarrow> u8 list \<Rightarrow> u8 list list \<Rightarrow> kern \<Rightarrow> (int \<times> kern) fs" where
  "exec me junk pth argv k =
     (let pid = my_pid me k in
      fbind (my_cwd me k) (\<lambda>cwd.
      fbind (k_begin_op me k) (\<lambda>k1.
      fbind (on_fs2 (namei pid cwd junk pth) k1) (\<lambda>(r, k2).
        case r of
          None \<Rightarrow> fbind (k_end_op me k2) (\<lambda>k3. Done (-1, k3))
        | Some ip \<Rightarrow>
            fbind (on_fs (ilock pid ip) k2) (\<lambda>k3.
            fbind (exec_image me ip k3) (\<lambda>((elf, pt, ok, sz), k4).
              if ok
              then
                fbind (on_fs (iunlockput pid ip) k4) (\<lambda>k5.
                fbind (k_end_op me k5) (\<lambda>k6. exec_stack me pth argv elf pt sz k6))
              else
                fbind (exec_bad pt sz k4) (\<lambda>k5.
                fbind (on_fs (iunlockput pid ip) k5) (\<lambda>k6.
                fbind (k_end_op me k6) (\<lambda>k7. Done (-1, k7))))))))))"

section \<open>The system call\<close>

text \<open>
  The loop that fetches the arguments, from argument \<open>i\<close>; the result is whether it ran to its
  end, the pages it has allocated, and the strings in them. \<open>uarg0\<close> is \<^verbatim>\<open>uarg\<close> before the call.
\<close>

fun fetch_args :: "nat \<Rightarrow> u64 \<Rightarrow> u64 \<Rightarrow> nat \<Rightarrow> nat \<Rightarrow> sys \<Rightarrow> ((bool \<times> u64 list \<times> u8 list list) \<times> sys) res" where
  "fetch_args me uargv uarg0 i 0 s = Ok ((False, [], []), s)"
| "fetch_args me uargv uarg0 i (Suc left) s =
     and_then (fetchaddr s me (uargv + of_nat (8 * i)) uarg0) (\<lambda>(r, uarg).
       if r < 0 then Ok ((False, [], []), s)
       else if uarg = 0 then Ok ((True, [], []), s)
       else
         (let (page, m) = kalloc (mch s); s1 = s\<lparr>mch := m\<rparr> in
          if page = 0 then Ok ((False, [], []), s1)
          else
            and_then (fetchstr s1 me uarg (unat PGSIZE)) (\<lambda>(n, bs).
              let s2 = s1\<lparr>mch := m\<lparr>pm := write_bytes (pm m) page bs\<rparr>\<rparr> in
              if n < 0 then Ok ((False, [page], [bs]), s2)
              else and_then (fetch_args me uargv uarg (i + 1) left s2) (\<lambda>((ok, pages, strs), s3).
                Ok ((ok, page # pages, bs # strs), s3)))))"

fun free_args :: "u64 list \<Rightarrow> machine \<Rightarrow> machine res" where
  "free_args [] m = Ok m"
| "free_args (p # ps) m = and_then (kfree m p) (free_args ps)"

definition sys_exec :: "nat \<Rightarrow> u8 list \<Rightarrow> u64 \<Rightarrow> kern \<Rightarrow> (int \<times> kern) fs" where
  "sys_exec me junk uarg0 k =
     fbind (of_res (argaddr (k_sys k) me 1)) (\<lambda>uargv.
     fbind (of_res (argstr (k_sys k) me 0 MAXPATH)) (\<lambda>(n, pth).
       if n < 0 then Done (-1, k)
       else
         fbind (of_res (fetch_args me uargv uarg0 0 MAXARG (k_sys k))) (\<lambda>((ok, pages, strs), s).
         fbind (if ok then exec me junk pth strs (k\<lparr>k_sys := s\<rparr>) else Done (-1, k\<lparr>k_sys := s\<rparr>)) (\<lambda>(ret, k1).
         fbind (of_res (free_args pages (mch (k_sys k1)))) (\<lambda>m.
           Done (ret, k1\<lparr>k_sys := (k_sys k1)\<lparr>mch := m\<rparr>\<rparr>))))))"

end
