(* ===== verification/File_Inv.thy ===== *)
theory File_Inv
  imports Exec
begin

text \<open>
  Descriptors and the file table. Whatever system calls the processes make, a descriptor always
  names an open file, and the reference count of a file is the number of descriptors that name it,
  in all processes together. The argument is made on two lists: what each process has open and
  whether its slot is out of use, and the count of each file and whether it has a type.
\<close>

section \<open>Counting\<close>

lemma count_list_update:
  "i < length xs \<Longrightarrow> count_list (xs[i := y]) a + (if xs ! i = a then 1 else 0) = count_list xs a + (if y = a then 1 else 0)"
  by (induction xs arbitrary: i) (fastforce simp: nth_Cons split: nat.splits)+

lemma nth_update_if: "xs[i := y] ! j = (if i = j \<and> i < length xs then y else xs ! j)"
  by (cases "i < length xs") (auto simp: not_less list_update_beyond)

lemma count_list_concat_update:
  "i < length xss \<Longrightarrow> count_list (concat (xss[i := ys])) a + count_list (xss ! i) a = count_list (concat xss) a + count_list ys a"
  by (induction xss arbitrary: i) (auto split: nat.split)

lemma count_list_concat_ge: "i < length xss \<Longrightarrow> count_list (xss ! i) a \<le> count_list (concat xss) a"
  by (induction xss arbitrary: i) (auto simp: nth_Cons split: nat.split intro: trans_le_add2)

type_synonym fdview = "(nat option list \<times> bool) list"
type_synonym refview = "(int \<times> bool) list"

definition uses :: "fdview \<Rightarrow> nat \<Rightarrow> nat" where
  "uses vs f = count_list (concat (map fst vs)) (Some f)"

lemma uses_update:
  assumes "p < length vs"
  shows "uses (vs[p := (os, d)]) f + count_list (fst (vs ! p)) (Some f) = uses vs f + count_list os (Some f)"
  using count_list_concat_update [of p "map fst vs" os "Some f"] assms by (simp add: uses_def map_update)

lemma uses_ge:
  assumes "p < length vs" "Some f \<in> set (fst (vs ! p))"
  shows "0 < uses vs f"
proof -
  have "0 < count_list (fst (vs ! p)) (Some f)" using assms(2) by (metis count_list_0_iff gr0I)
  with count_list_concat_ge [of p "map fst vs" "Some f"] assms(1) show ?thesis by (simp add: uses_def)
qed

text \<open>\<open>ts\<close> are the references that the running call holds in local variables.\<close>

definition slot_ok :: "refview \<Rightarrow> nat option list \<times> bool \<Rightarrow> bool" where
  "slot_ok rs v \<longleftrightarrow> length (fst v) = NOFILE \<and> (snd v \<longrightarrow> set (fst v) \<subseteq> {None}) \<and>
     (\<forall>f. Some f \<in> set (fst v) \<longrightarrow> f < length rs \<and> snd (rs ! f))"

definition fds_ok :: "fdview \<Rightarrow> refview \<Rightarrow> nat list \<Rightarrow> bool" where
  "fds_ok vs rs ts \<longleftrightarrow> (\<forall>p < length vs. slot_ok rs (vs ! p)) \<and> (\<forall>f \<in> set ts. f < length rs) \<and>
     (\<forall>f < length rs. fst (rs ! f) = int (uses vs f) + int (count_list ts f) \<and> (fst (rs ! f) = 0 \<longrightarrow> \<not> snd (rs ! f)))"

lemma fds_okD:
  assumes "fds_ok vs rs ts"
  shows "p < length vs \<Longrightarrow> slot_ok rs (vs ! p)" "f \<in> set ts \<Longrightarrow> f < length rs"
    "f < length rs \<Longrightarrow> fst (rs ! f) = int (uses vs f) + int (count_list ts f)"
    "f < length rs \<Longrightarrow> fst (rs ! f) = 0 \<Longrightarrow> \<not> snd (rs ! f)"
  using assms by (auto simp: fds_ok_def)

lemma slot_okD:
  assumes "slot_ok rs v"
  shows "length (fst v) = NOFILE" "snd v \<Longrightarrow> x \<in> set (fst v) \<Longrightarrow> x = None"
    "Some f \<in> set (fst v) \<Longrightarrow> f < length rs" "Some f \<in> set (fst v) \<Longrightarrow> snd (rs ! f)"
  using assms by (auto simp: slot_ok_def)

lemma open_fd_ok:
  assumes "fds_ok vs rs ts" "p < length vs" "fd < NOFILE" "fst (vs ! p) ! fd = Some f"
  shows "f < length rs" "0 < fst (rs ! f)" "snd (rs ! f)" "Some f \<in> set (fst (vs ! p))"
proof -
  show m: "Some f \<in> set (fst (vs ! p))"
    using assms(3,4) slot_okD(1) [OF fds_okD(1) [OF assms(1,2)]] by (metis nth_mem)
  from slot_okD(3,4) [OF fds_okD(1) [OF assms(1,2)] this] show f: "f < length rs" "snd (rs ! f)" .
  show "0 < fst (rs ! f)" using fds_okD(3) [OF assms(1) f(1)] uses_ge [OF assms(2) m] by simp
qed

lemma fds_ok_ref_pos:
  assumes "fds_ok vs rs (f # ts)"
  shows "0 < fst (rs ! f)" "f < length rs"
  using assms by (auto simp: fds_ok_def)

lemma fds_ok_set:
  assumes "fds_ok vs rs (f # ts)" "p < length vs" "vs ! p = (os, False)" "fd < NOFILE" "os ! fd = None" "snd (rs ! f)"
  shows "fds_ok (vs[p := (os[fd := Some f], False)]) rs ts"
proof -
  have os: "length os = NOFILE" using slot_okD(1) [OF fds_okD(1) [OF assms(1,2)]] assms(3) by simp
  have "uses (vs[p := (os[fd := Some f], False)]) g = uses vs g + (if f = g then 1 else 0)" for g
    using uses_update [OF assms(2), of "os[fd := Some f]" False g] count_list_update [of fd os "Some f" "Some g"] os assms(3-5)
    by (auto split: if_splits)
  moreover have "slot_ok rs (os[fd := Some f], False)"
    using fds_okD(1) [OF assms(1,2)] fds_okD(2) [OF assms(1), of f] assms(3,6) set_update_subset_insert [of os fd "Some f"]
    by (auto simp: slot_ok_def)
  ultimately show ?thesis using assms(1) by (auto simp: fds_ok_def nth_update_if)
qed

lemma fds_ok_clear:
  assumes "fds_ok vs rs ts" "p < length vs" "vs ! p = (os, d)" "fd < NOFILE" "os ! fd = Some f"
  shows "fds_ok (vs[p := (os[fd := None], d)]) rs (f # ts)"
proof -
  have os: "length os = NOFILE" using slot_okD(1) [OF fds_okD(1) [OF assms(1,2)]] assms(3) by simp
  have u: "uses (vs[p := (os[fd := None], d)]) g + (if f = g then 1 else 0) = uses vs g" for g
    using uses_update [OF assms(2), of "os[fd := None]" d g] count_list_update [of fd os None "Some g"] os assms(3-5)
    by (auto split: if_splits)
  have "slot_ok rs (os[fd := None], d)"
    using fds_okD(1) [OF assms(1,2)] assms(3) set_update_subset_insert [of os fd None] by (auto simp: slot_ok_def)
  moreover have "f < length rs" using open_fd_ok(1) [OF assms(1,2,4)] assms(3,5) by simp
  moreover have "fst (rs ! g) = int (uses (vs[p := (os[fd := None], d)]) g) + int (count_list (f # ts) g)"
    if "g < length rs" for g
    using u [of g] fds_okD(3) [OF assms(1) that] by (auto split: if_splits)
  ultimately show ?thesis using assms(1) by (auto simp: fds_ok_def nth_update_if)
qed

lemma slot_ok_refs:
  assumes "slot_ok rs v" "length rs' = length rs" "\<And>f. f < length rs \<Longrightarrow> snd (rs ! f) \<Longrightarrow> Some f \<in> set (fst v) \<Longrightarrow> snd (rs' ! f)"
  shows "slot_ok rs' v"
  using assms by (auto simp: slot_ok_def)

lemma fds_ok_alloc:
  assumes "fds_ok vs rs ts" "f < length rs" "fst (rs ! f) = 0"
  shows "fds_ok vs (rs[f := (1, b)]) (f # ts)"
proof -
  have "uses vs f = 0" "count_list ts f = 0" using fds_okD(3) [OF assms(1,2)] assms(3) by auto
  moreover have "slot_ok (rs[f := (1, b)]) (vs ! p)" if "p < length vs" for p
    using fds_okD(1) [OF assms(1) that] slot_okD(4) [OF fds_okD(1) [OF assms(1) that], of f] fds_okD(4) [OF assms(1,2,3)]
    by (intro slot_ok_refs [OF fds_okD(1) [OF assms(1) that]]) (auto simp: nth_update_if)
  ultimately show ?thesis using assms by (auto simp: fds_ok_def nth_update_if)
qed

lemma fds_ok_dup:
  assumes "fds_ok vs rs ts" "f < length rs" "0 < fst (rs ! f)"
  shows "fds_ok vs (rs[f := (fst (rs ! f) + 1, snd (rs ! f))]) (f # ts)"
proof -
  have "slot_ok (rs[f := (fst (rs ! f) + 1, snd (rs ! f))]) (vs ! p)" if "p < length vs" for p
    by (rule slot_ok_refs [OF fds_okD(1) [OF assms(1) that]]) (auto simp: nth_update_if)
  then show ?thesis using assms by (auto simp: fds_ok_def nth_update_if)
qed

text \<open>The type may be set at any time, and is lost when the last reference goes.\<close>

lemma fds_ok_type:
  assumes "fds_ok vs rs ts" "f < length rs" "0 < fst (rs ! f)"
  shows "fds_ok vs (rs[f := (fst (rs ! f), True)]) ts"
proof -
  have "slot_ok (rs[f := (fst (rs ! f), True)]) (vs ! p)" if "p < length vs" for p
    by (rule slot_ok_refs [OF fds_okD(1) [OF assms(1) that]]) (auto simp: nth_update_if)
  then show ?thesis using assms by (auto simp: fds_ok_def nth_update_if)
qed

definition drop_ref :: "nat \<Rightarrow> refview \<Rightarrow> refview" where
  "drop_ref f rs = rs[f := (fst (rs ! f) - 1, snd (rs ! f) \<and> fst (rs ! f) > 1)]"

lemma fds_ok_close:
  assumes "fds_ok vs rs (f # ts)"
  shows "fds_ok vs (drop_ref f rs) ts"
proof -
  note f = fds_ok_ref_pos(2) [OF assms]
  have u: "fst (rs ! f) = int (uses vs f) + int (count_list ts f) + 1" using fds_okD(3) [OF assms f] by simp
  have "slot_ok (drop_ref f rs) (vs ! p)" if "p < length vs" for p
  proof (rule slot_ok_refs [OF fds_okD(1) [OF assms that]])
    fix g assume "g < length rs" "snd (rs ! g)" "Some g \<in> set (fst (vs ! p))"
    with uses_ge [OF that, of g] u show "snd (drop_ref f rs ! g)"
      by (cases "g = f") (auto simp: drop_ref_def)
  qed (simp add: drop_ref_def)
  then show ?thesis using assms u by (auto simp: fds_ok_def drop_ref_def nth_update_if)
qed

text \<open>A slot comes into use or goes out of use with nothing open.\<close>

lemma fds_ok_flag:
  assumes "fds_ok vs rs ts" "p < length vs" "vs ! p = (os, d)" "d' \<Longrightarrow> set os \<subseteq> {None}"
  shows "fds_ok (vs[p := (os, d')]) rs ts"
proof -
  have "uses (vs[p := (os, d')]) g = uses vs g" for g
    using uses_update [OF assms(2), of os d' g] assms(3) by simp
  moreover have "slot_ok rs (os, d')"
    using fds_okD(1) [OF assms(1,2)] assms(3,4) by (auto simp: slot_ok_def)
  ultimately show ?thesis using assms(1) by (auto simp: fds_ok_def nth_update_if)
qed

section \<open>The two lists in the kernel\<close>

definition dead :: "proc \<Rightarrow> bool" where
  "dead q \<longleftrightarrow> p_state q = UNUSED \<or> p_state q = ZOMBIE"

definition fdv :: "kern \<Rightarrow> fdview" where
  "fdv k = map (\<lambda>q. (p_ofile q, dead q)) (procs (k_sys k))"

definition frv :: "kern \<Rightarrow> refview" where
  "frv k = map (\<lambda>f. (f_ref f, f_type f \<noteq> FD_NONE)) (k_files k)"

lemma map_wakeup [simp]: "map (\<lambda>q. (p_ofile q, dead q)) (wakeup me c ps) = map (\<lambda>q. (p_ofile q, dead q)) ps"
  by (rule nth_equalityI) (auto simp: wakeup_def dead_def)

lemma map_upd_proc [simp]:
  assumes "\<And>q. p_ofile (f q) = p_ofile q" "\<And>q. dead (f q) = dead q"
  shows "map (\<lambda>q. (p_ofile q, dead q)) (procs (upd_proc i f s)) = map (\<lambda>q. (p_ofile q, dead q)) (procs s)"
  by (rule nth_equalityI) (use assms in \<open>auto simp: upd_proc_def nth_update_if\<close>)

lemma fdv_simps [simp]:
  "fdv (k\<lparr>k_fs := x\<rparr>) = fdv k" "fdv (k\<lparr>k_pipes := y\<rparr>) = fdv k" "fdv (k\<lparr>k_files := z\<rparr>) = fdv k"
  "fdv (k\<lparr>k_sys := s\<lparr>mch := m\<rparr>\<rparr>) = fdv (k\<lparr>k_sys := s\<rparr>)" "fdv (k\<lparr>k_sys := k_sys k\<rparr>) = fdv k" "fdv (upd_file i g k) = fdv k"
  by (simp_all add: fdv_def upd_file_def)

lemma frv_simps [simp]:
  "frv (k\<lparr>k_fs := x\<rparr>) = frv k" "frv (k\<lparr>k_pipes := y\<rparr>) = frv k" "frv (k\<lparr>k_sys := s\<rparr>) = frv k"
  by (simp_all add: frv_def)

lemma frv_upd_file [simp]:
  assumes "\<And>x. f_ref (g x) = f_ref x" "\<And>x. f_type (g x) = f_type x"
  shows "frv (upd_file i g k) = frv k"
  by (rule nth_equalityI) (use assms in \<open>auto simp: upd_file_def frv_def nth_update_if\<close>)

text \<open>What leaves both lists alone.\<close>

definition keeps :: "kern \<Rightarrow> kern \<Rightarrow> bool" where
  "keeps k k' \<longleftrightarrow> fdv k' = fdv k \<and> frv k' = frv k"

lemma keeps_refl [simp]: "keeps k k"
  by (simp add: keeps_def)

lemma keeps_trans [trans]: "keeps k k1 \<Longrightarrow> keeps k1 k2 \<Longrightarrow> keeps k k2"
  by (simp add: keeps_def)

lemma keeps_mch [simp]: "keeps k (k1\<lparr>k_sys := (k_sys k1)\<lparr>mch := m\<rparr>\<rparr>) = keeps k k1"
  by (simp add: keeps_def)

lemma keeps_set_mch [simp]: "keeps k (set_procs (\<lambda>s. s\<lparr>mch := m\<rparr>) k1) = keeps k k1"
  by (simp add: set_procs_def)

lemma keeps_sys:
  assumes "map (\<lambda>q. (p_ofile q, dead q)) (procs s) = map (\<lambda>q. (p_ofile q, dead q)) (procs (k_sys k))"
  shows "keeps k (k\<lparr>k_sys := s\<rparr>)"
  using assms by (simp add: keeps_def fdv_def frv_def)

lemma on_fs_keeps: "on_fs f k = Done k' \<Longrightarrow> keeps k k'"
  by (auto simp: on_fs_def keeps_def)

lemma on_fs2_keeps: "on_fs2 f k = Done (x, k') \<Longrightarrow> keeps k k'"
  by (auto simp: on_fs2_def keeps_def)

lemma begin_op_keeps: "k_begin_op me k = Done k' \<Longrightarrow> keeps k k'"
  by (auto simp: k_begin_op_def begin_op_def keeps_def fdv_def split: if_splits)

lemma end_op_keeps: "k_end_op me k = Done k' \<Longrightarrow> keeps k k'"
  by (auto simp: k_end_op_def end_op_start_def end_op_finish_def Let_def keeps_def fdv_def frv_def split: if_splits prod.splits)

lemmas call_keeps = on_fs_keeps on_fs2_keeps begin_op_keeps end_op_keeps

section \<open>The file table\<close>

lemma filealloc_view:
  assumes "filealloc k = (r, k')"
  shows "(r = None \<and> k' = k) \<or>
    (\<exists>f. r = Some f \<and> f < length (frv k) \<and> fst (frv k ! f) = 0 \<and> fdv k' = fdv k \<and> frv k' = (frv k)[f := (1, snd (frv k ! f))])"
  using assms
  by (auto simp: filealloc_def upd_file_def fdv_def frv_def map_update find_Some_iff nth_update_if split: option.splits)

lemma filedup_view:
  assumes "filedup f k = Done k'" "f < length (frv k)"
  shows "fdv k' = fdv k" "frv k' = (frv k)[f := (fst (frv k ! f) + 1, snd (frv k ! f))]"
  using assms by (auto simp: filedup_def upd_file_def fdv_def frv_def map_update split: if_splits)

lemma close_pipe_keeps: "close_pipe me pi w k = Done k' \<Longrightarrow> keeps k k'"
  by (auto simp: close_pipe_def pipeclose_def keeps_def fdv_def frv_def split: if_splits option.splits)

lemma fileclose_view:
  assumes "fileclose me f k = Done k'" "f < length (frv k)"
  shows "fdv k' = fdv k" "frv k' = drop_ref f (frv k)"
proof -
  let ?k1 = "upd_file f (\<lambda>x. x\<lparr>f_ref := f_ref x - 1\<rparr>) k"
  let ?k2 = "upd_file f (\<lambda>x. x\<lparr>f_ref := 0, f_type := FD_NONE\<rparr>) ?k1"
  have f: "f < length (k_files k)" using assms(2) by (simp add: frv_def)
  have v: "fdv ?k1 = fdv k" "fdv ?k2 = fdv k" by (simp_all add: upd_file_def fdv_def)
  have r1: "frv ?k1 = drop_ref f (frv k)" if "1 < f_ref (fil k f)"
    using f that by (simp add: upd_file_def frv_def drop_ref_def map_update)
  have r2: "frv ?k2 = drop_ref f (frv k)" if "f_ref (fil k f) = 1"
    using f that by (simp add: upd_file_def frv_def drop_ref_def map_update)
  have "fdv k' = fdv k \<and> frv k' = drop_ref f (frv k)"
  proof (cases "f_ref (fil k f) = 1")
    case True
    then have "keeps ?k2 k'"
      using assms(1) f
      by (auto simp: fileclose_def Let_def upd_file_def keeps_def split: fdtype.splits
          dest!: close_pipe_keeps call_keeps)
    with r2 [OF True] v show ?thesis by (simp add: keeps_def)
  next
    case False
    then have "k' = ?k1 \<and> 1 < f_ref (fil k f)"
      using assms(1) f by (auto simp: fileclose_def Let_def upd_file_def split: if_splits)
    with r1 v show ?thesis by simp
  qed
  then show "fdv k' = fdv k" "frv k' = drop_ref f (frv k)" by simp_all
qed

lemma set_fd_view:
  assumes "me < length (fdv k)"
  shows "fdv (set_fd me fd x k) = (fdv k)[me := ((fst (fdv k ! me))[fd := x], snd (fdv k ! me))]"
    "frv (set_fd me fd x k) = frv k"
  using assms by (simp_all add: set_fd_def set_procs_def upd_proc_def fdv_def frv_def map_update dead_def)

lemma fdalloc_view:
  assumes "fdalloc me f k = (r, k')" "me < length (fdv k)"
  shows "(r = None \<and> k' = k) \<or>
    (\<exists>fd. r = Some fd \<and> fd < NOFILE \<and> fst (fdv k ! me) ! fd = None \<and> k' = set_fd me fd (Some f) k)"
  using assms by (auto simp: fdalloc_def find_Some_iff fdv_def split: option.splits)

lemma argfd_view:
  assumes "argfd me fd0 n k = Ok (Some (fd, f))" "me < length (fdv k)"
  shows "fd < NOFILE" "fst (fdv k ! me) ! fd = Some f"
  using assms by (auto simp: argfd_def fdv_def split: if_splits option.splits)

section \<open>The calls that change descriptors\<close>

abbreviation fok :: "kern \<Rightarrow> nat list \<Rightarrow> bool" where
  "fok k ts \<equiv> fds_ok (fdv k) (frv k) ts"

definition alive :: "kern \<Rightarrow> nat \<Rightarrow> bool" where
  "alive k me \<longleftrightarrow> me < length (fdv k) \<and> \<not> snd (fdv k ! me)"

lemma keeps_fok: "keeps k k' \<Longrightarrow> fok k' ts = fok k ts" "keeps k k' \<Longrightarrow> alive k' me = alive k me"
  by (simp_all add: keeps_def alive_def)

lemma alive_set_fd [simp]: "alive (set_fd me fd x k) p = alive k p"
  by (cases "me < length (fdv k)")
    (auto simp: alive_def set_fd_view nth_update_if, auto simp: set_fd_def set_procs_def upd_proc_def fdv_def list_update_beyond not_less)

lemma filealloc_fok:
  assumes "filealloc k = (Some f, k1)" "fok k ts"
  shows "fok k1 (f # ts)" "alive k1 me = alive k me" "\<not> snd (frv k1 ! f)" "f < length (frv k1)"
  using filealloc_view [OF assms(1)] fds_ok_alloc [OF assms(2)] fds_okD(4) [OF assms(2)] by (auto simp: alive_def)

lemma filealloc_None: "filealloc k = (None, k1) \<Longrightarrow> k1 = k"
  using filealloc_view by blast

lemma fileclose_fok:
  assumes "fileclose me f k = Done k1" "fok k (f # ts)"
  shows "fok k1 ts" "alive k1 p = alive k p"
  using fileclose_view [OF assms(1)] fds_ok_ref_pos(2) [OF assms(2)] fds_ok_close [OF assms(2)] by (auto simp: alive_def)

lemma set_fd_fok:
  assumes "fok k (f # ts)" "alive k me" "fd < NOFILE" "fst (fdv k ! me) ! fd = None" "snd (frv k ! f)"
  shows "fok (set_fd me fd (Some f) k) ts"
  using fds_ok_set [OF assms(1), of me "fst (fdv k ! me)" fd] assms(2-) by (cases "fdv k ! me") (auto simp: alive_def set_fd_view)

lemma clear_fd_fok:
  assumes "fok k ts" "me < length (fdv k)" "fd < NOFILE" "fst (fdv k ! me) ! fd = Some f"
  shows "fok (set_fd me fd None k) (f # ts)"
  using fds_ok_clear [OF assms(1,2), of "fst (fdv k ! me)" "snd (fdv k ! me)" fd f] assms(2-) by (simp add: set_fd_view)

lemma fdalloc_None: "fdalloc me f k = (None, k1) \<Longrightarrow> k1 = k"
  by (auto simp: fdalloc_def split: option.splits)

lemma fdalloc_Some:
  assumes "fdalloc me f k = (Some fd, k1)" "alive k me"
  shows "fd < NOFILE" "fst (fdv k ! me) ! fd = None" "k1 = set_fd me fd (Some f) k"
  using fdalloc_view [OF assms(1)] assms(2) by (auto simp: alive_def)

lemma fil_set_fd [simp]: "k_files (set_fd me fd x k) = k_files k"
  by (simp add: set_fd_def set_procs_def)

lemma upd_file_set_fd: "upd_file f g (set_fd me fd x k) = set_fd me fd x (upd_file f g k)"
  by (simp add: upd_file_def set_fd_def set_procs_def)

lemma filedup_set_fd: "filedup f (set_fd me fd x k) = fbind (filedup f k) (\<lambda>k1. Done (set_fd me fd x k1))"
  by (simp add: filedup_def upd_file_set_fd)

text \<open>A file that is held gets its type.\<close>

lemma upd_type_fok:
  assumes "fok k (f # ts)" "\<And>x. f_ref (g x) = f_ref x" "\<And>x. f_type (g x) \<noteq> FD_NONE"
  shows "fok (upd_file f g k) (f # ts)" "fdv (upd_file f g k) = fdv k" "snd (frv (upd_file f g k) ! f)"
    "\<And>f'. snd (frv k ! f') \<Longrightarrow> f' < length (frv k) \<Longrightarrow> snd (frv (upd_file f g k) ! f')"
proof -
  have f: "f < length (frv k)" "0 < fst (frv k ! f)" using fds_ok_ref_pos [OF assms(1)] by simp_all
  have r: "frv (upd_file f g k) = (frv k)[f := (fst (frv k ! f), True)]"
    using f assms(2,3) by (simp add: upd_file_def frv_def map_update)
  show v: "fdv (upd_file f g k) = fdv k" by (simp add: upd_file_def fdv_def)
  show "fok (upd_file f g k) (f # ts)" using fds_ok_type [OF assms(1) f] r v by simp
  show "snd (frv (upd_file f g k) ! f)" "\<And>f'. snd (frv k ! f') \<Longrightarrow> f' < length (frv k) \<Longrightarrow> snd (frv (upd_file f g k) ! f')"
    using r f by (auto simp: nth_update_if)
qed

lemma fok_swap: "fds_ok vs rs (f # g # ts) = fds_ok vs rs (g # f # ts)"
  by (auto simp: fds_ok_def)

lemma sys_dup_fok:
  assumes "sys_dup me fd0 k = Done (r, k')" "fok k []" "alive k me"
  shows "fok k' []"
proof -
  note me = assms(3) [unfolded alive_def]
  obtain a where a: "argfd me fd0 0 k = Ok a" using assms(1) by (auto simp: sys_dup_def)
  show ?thesis
  proof (cases "\<exists>fd f nfd k1. a = Some (fd, f) \<and> fdalloc me f k = (Some nfd, k1)")
    case True
    then obtain fd f nfd k1 where s: "a = Some (fd, f)" "fdalloc me f k = (Some nfd, k1)" by blast
    note al = fdalloc_Some [OF s(2) assms(3)]
    have fd: "fd < NOFILE" "fst (fdv k ! me) ! fd = Some f" using argfd_view a s(1) me by auto
    note op = open_fd_ok [OF assms(2) conjunct1 [OF me] fd]
    obtain k2 where k2: "filedup f k = Done k2" "k' = set_fd me nfd (Some f) k2"
      using assms(1) a s al(3) by (auto simp: sys_dup_def filedup_set_fd)
    note v = filedup_view [OF k2(1) op(1)]
    have "fok k2 [f]" using fds_ok_dup [OF assms(2) op(1,2)] v by simp
    moreover have "alive k2 me" using assms(3) v by (simp add: alive_def)
    moreover have "snd (frv k2 ! f)" using v(2) op(1,3) by simp
    ultimately show ?thesis using al(1,2) v(1) k2(2) set_fd_fok by simp
  next
    case False
    then have "k' = k"
      using assms(1) a by (auto simp: sys_dup_def dest: fdalloc_None split: option.splits prod.splits)
    with assms(2) show ?thesis by simp
  qed
qed

lemma sys_close_fok:
  assumes "sys_close me fd0 k = Done (r, k')" "fok k []" "alive k me"
  shows "fok k' []"
proof -
  obtain a where a: "argfd me fd0 0 k = Ok a" using assms(1) by (auto simp: sys_close_def)
  show ?thesis
  proof (cases a)
    case None
    with assms a show ?thesis by (auto simp: sys_close_def)
  next
    case (Some b)
    then obtain fd f where s: "a = Some (fd, f)" by (cases b) auto
    then have fd: "fd < NOFILE" "fst (fdv k ! me) ! fd = Some f"
      using argfd_view a assms(3) by (auto simp: alive_def)
    from clear_fd_fok [OF assms(2) _ fd] assms(1,3) a s show ?thesis
      by (auto simp: sys_close_def alive_def dest: fileclose_fok(1))
  qed
qed

lemma open_file_fok:
  assumes "open_file me omode ip k = Done (r, k')" "fok k []" "alive k me"
  shows "fok k' []"
proof (cases "filealloc k")
  case (Pair a k1)
  show ?thesis
  proof (cases a)
    case None
    with Pair assms show ?thesis
      by (auto simp: open_file_def Let_def keeps_fok dest!: on_fs_keeps filealloc_None split: if_splits)
  next
    case (Some f)
    note fa = filealloc_fok [OF Pair [unfolded Some] assms(2)]
    obtain b k2 where fd: "fdalloc me f k1 = (b, k2)" by (cases "fdalloc me f k1")
    show ?thesis
    proof (cases b)
      case None
      with fd Pair Some fa(1) assms show ?thesis
        by (auto simp: open_file_def Let_def keeps_fok dest!: on_fs_keeps fdalloc_None dest: fileclose_fok(1) split: if_splits)
    next
      case (Some nfd)
      define g where "g = (\<lambda>x::file_struct. if i_type (ino (k_fs k) ip) = T_DEVICE then x\<lparr>f_type := FD_DEVICE, f_major := i_major (ino (k_fs k) ip)\<rparr>
                                           else x\<lparr>f_type := FD_INODE, f_off := 0\<rparr>)"
      define h where "h = (\<lambda>x::file_struct. x\<lparr>f_ip := ip, f_readable := (omode AND O_WRONLY) = 0,
                             f_writable := (omode AND O_WRONLY) \<noteq> 0 \<or> (omode AND O_RDWR) \<noteq> 0\<rparr>)"
      have al: "alive k1 me" using fa(2) assms(3) by simp
      note fdo = fdalloc_Some [OF fd [unfolded Some] al]
      have "fok (upd_file f g k1) [f]" "fdv (upd_file f g k1) = fdv k1" "snd (frv (upd_file f g k1) ! f)"
        using upd_type_fok [OF fa(1), of g] by (simp_all add: g_def)
      moreover have "keeps (upd_file f g k1) (upd_file f h (upd_file f g k1))" by (simp add: keeps_def h_def)
      ultimately have "fok (upd_file f h (upd_file f g k1)) [f]" "snd (frv (upd_file f h (upd_file f g k1)) ! f)"
        "fdv (upd_file f h (upd_file f g k1)) = fdv k1"
        by (simp_all add: keeps_def)
      then have new: "fok (upd_file f h (upd_file f g k2)) []"
        using set_fd_fok [of "upd_file f h (upd_file f g k1)" f "[]" me nfd] al fdo by (simp add: alive_def upd_file_set_fd)
      have "keeps (upd_file f h (upd_file f g k2)) k' \<or> keeps k k'"
        using assms(1) [unfolded open_file_def Let_def, folded g_def h_def] Pair \<open>a = Some f\<close> fd Some
        by (auto dest!: on_fs_keeps split: if_splits intro: keeps_trans)
      with new assms(2) show ?thesis by (auto simp: keeps_fok)
    qed
  qed
qed

lemma sys_open_fok:
  assumes "sys_open me junk omode0 k = Done (r, k')" "fok k []" "alive k me"
  shows "fok k' []"
  using assms
  by (auto simp: sys_open_def keeps_fok dest!: call_keeps split: if_splits option.splits) (metis open_file_fok keeps_fok)

lemma close_both_fok:
  assumes "close_both me f g k = Done (r, k')" "fok k [f, g]"
  shows "fok k' []"
  using assms by (auto simp: close_both_def dest: fileclose_fok(1))

lemma pipealloc_fok:
  assumes "pipealloc me k = Done (r, k')" "fok k []" "alive k me"
  shows "case r of None \<Rightarrow> fok k' []
    | Some (f, g) \<Rightarrow> fok k' [f, g] \<and> alive k' me \<and> snd (frv k' ! f) \<and> snd (frv k' ! g)"
proof (cases "filealloc k")
  case (Pair a k1)
  show ?thesis
  proof (cases a)
    case None
    with Pair assms show ?thesis by (auto simp: pipealloc_def dest: filealloc_None)
  next
    case (Some f)
    note fa = filealloc_fok [OF Pair [unfolded Some] assms(2)]
    obtain b k2 where b: "filealloc k1 = (b, k2)" by (cases "filealloc k1")
    show ?thesis
    proof (cases b)
      case None
      with b Pair Some fa(1) assms(1) show ?thesis
        by (auto simp: pipealloc_def dest!: filealloc_None dest: fileclose_fok(1))
    next
      case (Some g)
      note ga = filealloc_fok [OF b [unfolded Some] fa(1)]
      obtain pi m where km: "kalloc (mch (k_sys k2)) = (pi, m)" by (cases "kalloc (mch (k_sys k2))")
      define k3 where "k3 = k2\<lparr>k_sys := (k_sys k2)\<lparr>mch := m\<rparr>\<rparr>"
      have "keeps k2 k3" by (simp add: k3_def)
      then have k3: "fok k3 [f, g]" "alive k3 me"
        using ga(1) ga(2) [of me] fa(2) [of me] assms(3) fok_swap [of _ _ f g] by (simp_all add: keeps_fok)
      show ?thesis
      proof (cases "pi = 0")
        case True
        with b Pair \<open>a = Some f\<close> \<open>b = Some g\<close> km assms(1)
        obtain x where "fileclose me f k3 = Done x" "fileclose me g x = Done k'" "r = None"
          by (auto simp: pipealloc_def Let_def k3_def)
        with k3(1) show ?thesis by (auto dest: fileclose_fok(1))
      next
        case False
        define e where "e = \<lparr>pi_data = replicate PIPESIZE (5::u8), pi_nread = 0, pi_nwrite = 0, pi_readopen = True, pi_writeopen = True\<rparr>"
        define k4 where "k4 = k3\<lparr>k_pipes := (k_pipes k3)(pi := e)\<rparr>"
        define rf where "rf = (\<lambda>x::file_struct. x\<lparr>f_type := FD_PIPE, f_readable := True, f_writable := False, f_pipe := pi\<rparr>)"
        define wf where "wf = (\<lambda>x::file_struct. x\<lparr>f_type := FD_PIPE, f_readable := False, f_writable := True, f_pipe := pi\<rparr>)"
        have "keeps k3 k4" by (simp add: k4_def keeps_def)
        with k3 have k4: "fok k4 [f, g]" "alive k4 me" by (simp_all add: keeps_fok)
        let ?k5 = "upd_file f rf k4"
        have k5: "fok ?k5 [f, g]" "fdv ?k5 = fdv k4" "snd (frv ?k5 ! f)"
          using upd_type_fok [OF k4(1), of rf] by (simp_all add: rf_def)
        then have "fok ?k5 [g, f]" using fok_swap by blast
        moreover have "f < length (frv ?k5)" using fds_ok_ref_pos(2) [OF k5(1)] .
        ultimately have "fok (upd_file g wf ?k5) [f, g]" "fdv (upd_file g wf ?k5) = fdv ?k5"
          "snd (frv (upd_file g wf ?k5) ! g)" "snd (frv (upd_file g wf ?k5) ! f)"
          using upd_type_fok [of ?k5 g "[f]" wf] k5(3) fok_swap by (auto simp: wf_def)
        moreover have "r = Some (f, g)" "k' = upd_file g wf ?k5"
          using assms(1) Pair \<open>a = Some f\<close> b \<open>b = Some g\<close> km False
          by (auto simp: pipealloc_def Let_def k3_def k4_def e_def rf_def wf_def)
        ultimately show ?thesis using k5(2) k4(2) by (simp add: alive_def)
      qed
    qed
  qed
qed

lemma sys_pipe_fok:
  assumes "sys_pipe me k = Done (r, k')" "fok k []" "alive k me"
  shows "fok k' []"
proof -
  obtain a k1 where pa: "pipealloc me k = Done (a, k1)" using assms(1) by (auto simp: sys_pipe_def)
  note po = pipealloc_fok [OF pa assms(2,3)]
  show ?thesis
  proof (cases a)
    case None
    with pa po assms(1) show ?thesis by (auto simp: sys_pipe_def)
  next
    case (Some fg)
    then obtain f g where a: "a = Some (f, g)" by (cases fg) auto
    with po have k1: "fok k1 [f, g]" "alive k1 me" "snd (frv k1 ! f)" "snd (frv k1 ! g)" by simp_all
    obtain b k2 where fd: "fdalloc me f k1 = (b, k2)" by (cases "fdalloc me f k1")
    show ?thesis
    proof (cases b)
      case None
      with pa a fd k1 assms(1) show ?thesis by (auto simp: sys_pipe_def dest!: fdalloc_None dest: close_both_fok)
    next
      case (Some fd0)
      note d0 = fdalloc_Some [OF fd [unfolded Some] k1(2)]
      have k2: "fok k2 [g]" "alive k2 me" using set_fd_fok [OF k1(1,2) d0(1,2) k1(3)] d0(3) k1(2) by simp_all
      have me: "me < length (fdv k1)" "me < length (fdv k2)" using k1(2) k2(2) by (simp_all add: alive_def)
      have fd0: "fst (fdv k2 ! me) ! fd0 = Some f"
        using d0 me slot_okD(1) [OF fds_okD(1) [OF k1(1) me(1)]] by (simp add: set_fd_view)
      obtain c k3 where fd': "fdalloc me g k2 = (c, k3)" by (cases "fdalloc me g k2")
      show ?thesis
      proof (cases c)
        case None
        with pa a fd fd' \<open>b = Some fd0\<close> assms(1) clear_fd_fok [OF k2(1) me(2) d0(1) fd0] show ?thesis
          by (auto simp: sys_pipe_def dest!: fdalloc_None dest: close_both_fok)
      next
        case (Some fd1)
        note d1 = fdalloc_Some [OF fd' [unfolded Some] k2(2)]
        have "snd (frv k2 ! g)" using k1(4) d0(3) me(1) by (simp add: set_fd_view)
        from set_fd_fok [OF k2(1,2) d1(1,2) this] d1(3) k2(2) have k3: "fok k3 []" "alive k3 me" by simp_all
        have ne: "fd0 \<noteq> fd1" using d1(2) fd0 by auto
        have len: "length (fst (fdv k2 ! me)) = NOFILE" using slot_okD(1) [OF fds_okD(1) [OF k2(1) me(2)]] .
        have of: "fst (fdv k3 ! me) ! fd0 = Some f" "fst (fdv k3 ! me) ! fd1 = Some g"
          using d1(1,3) me(2) fd0 ne len by (simp_all add: set_fd_view)
        have undo: "fok (set_fd me fd1 None (set_fd me fd0 None k5)) [f, g]" if "keeps k3 k5" for k5
        proof -
          have k5: "fok k5 []" "fdv k5 = fdv k3" "me < length (fdv k5)" using that k3 by (simp_all add: keeps_fok alive_def) (simp_all add: keeps_def)
          then have "fok (set_fd me fd0 None k5) [f]" using clear_fd_fok [OF k5(1,3) d0(1)] of(1) by simp
          moreover have "me < length (fdv (set_fd me fd0 None k5))" using k5(3) by (simp add: set_fd_view)
          moreover have "fst (fdv (set_fd me fd0 None k5) ! me) ! fd1 = Some g" using k5(2,3) of(2) ne by (simp add: set_fd_view)
          ultimately show ?thesis using clear_fd_fok [OF _ _ d1(1)] fok_swap by blast
        qed
        have "\<exists>k5. keeps k3 k5 \<and>
          (k' = k5 \<or> (\<exists>v. close_both me f g (set_fd me fd1 None (set_fd me fd0 None k5)) = Done (v, k')))"
          using assms(1) pa a fd fd' \<open>b = Some fd0\<close> Some
          by (auto simp: sys_pipe_def Let_def split: if_splits) (metis keeps_set_mch keeps_refl)+
        then show ?thesis using undo k3(1) close_both_fok keeps_fok(1) by blast
      qed
    qed
  qed
qed

section \<open>The calls that leave descriptors alone\<close>

lemma upd_proc_keeps:
  assumes "\<And>q. p_ofile (f q) = p_ofile q" "\<And>q. p_state (f q) = p_state q"
  shows "keeps k (k\<lparr>k_sys := upd_proc i f (k_sys k)\<rparr>)"
  by (rule keeps_sys, rule map_upd_proc) (simp_all add: assms dead_def)

text \<open>The functions in \<^verbatim>\<open>devsw\<close>, as far as descriptors go.\<close>

definition devs_keep :: "(u16 \<Rightarrow> devfun option) \<Rightarrow> bool" where
  "devs_keep d \<longleftrightarrow> (\<forall>mj g k me a n r k'. d mj = Some g \<longrightarrow> g k me a n = Done (r, k') \<longrightarrow> keeps k k')"

lemma piperead_ofiles:
  assumes "piperead s q pi me b a n = Ok (Returns r, s', q')"
  shows "map (\<lambda>q. (p_ofile q, dead q)) (procs s') = map (\<lambda>q. (p_ofile q, dead q)) (procs s)"
  using assms by (auto simp: piperead_def split: if_splits)

lemma pipewrite_ofiles:
  assumes "pipewrite s q pi me b a n i = Ok (Returns r, s', q')"
  shows "map (\<lambda>q. (p_ofile q, dead q)) (procs s') = map (\<lambda>q. (p_ofile q, dead q)) (procs s)"
  using assms
proof (induction s q pi me b a n i arbitrary: r s' q' rule: pipewrite.induct)
  case (1 s q pi me k addr n i)
  show ?case
  proof (cases "copyin (mch s) (p_pagetable (prc s me)) (addr + of_nat i) 1")
    case (Ok x)
    obtain v bs where x: "x = (v, bs)" by (cases x)
    show ?thesis
    proof (cases "int i < n \<and> \<not> (\<not> pi_readopen q \<or> k i) \<and> \<not> pipe_full q \<and> v \<noteq> -1")
      case True
      with 1(2) Ok x have "pipewrite s (pipe_put q (hd bs)) pi me k addr n (i + 1) = Ok (Returns r, s', q')"
        by (subst (asm) pipewrite.simps) simp
      from 1(1) [OF _ _ _ Ok x [symmetric] _ this] True show ?thesis by simp
    next
      case False
      with 1(2) Ok x show ?thesis
        by (subst (asm) pipewrite.simps) (auto split: if_splits)
    qed
  next
    case (Panic e)
    with 1(2) show ?thesis by (subst (asm) pipewrite.simps) (auto split: if_splits)
  qed
qed

lemma fileread_keeps:
  assumes "fileread d me i a n k = Done (r, k')" "devs_keep d"
  shows "keeps k k'"
proof (cases "f_type (fil k i)")
  case FD_PIPE
  then obtain x s q where p: "\<not> f_readable (fil k i) \<and> k' = k \<or>
    piperead (k_sys k) (k_pipes k (f_pipe (fil k i))) (f_pipe (fil k i)) me (killed (procs (k_sys k)) me) a n = Ok (x, s, q) \<and>
    (case x of Returns v \<Rightarrow> k' = k\<lparr>k_sys := s, k_pipes := (k_pipes k)(f_pipe (fil k i) := q)\<rparr> | Sleeps _ \<Rightarrow> False)"
    using assms(1) by (fastforce simp: fileread_def Let_def split: if_splits run.splits)
  then show ?thesis by (cases x) (auto simp: keeps_def fdv_def dest!: piperead_ofiles)
next
  case FD_DEVICE
  with assms show ?thesis
    by (auto simp: fileread_def Let_def devs_keep_def split: if_splits option.splits)
next
  case FD_INODE
  with assms(1) show ?thesis
    by (auto simp: fileread_def Let_def dest!: on_fs_keeps split: if_splits) (auto simp: keeps_def)
qed (use assms in \<open>auto simp: fileread_def Let_def split: if_splits\<close>)

lemma filewrite_loop_keeps:
  assumes "filewrite_loop me i a n t k = Done (r, k')"
  shows "keeps k k'"
  using assms
proof (induction me i a n t k arbitrary: r k' rule: filewrite_loop.induct)
  case (1 me i addr n t k)
  show ?case
  proof (cases "t < n")
    case True
    define n1 where "n1 = min (n - t) max_write"
    obtain k1 k2 v k3 k5 k6 where s: "k_begin_op me k = Done k1" "on_fs (ilock (my_pid me k) (f_ip (fil k i))) k1 = Done k2"
      "on_fs2 (writei (user_in (mch (k_sys k2)) (p_pagetable (prc (k_sys k2) me)) (addr + of_int t))
                  (f_ip (fil k i)) (f_off (fil k i)) (to_uint n1)) k2 = Done (v, k3)"
      "on_fs (iunlock (my_pid me k) (f_ip (fil k i)))
         (if v > 0 then upd_file i (\<lambda>f. f\<lparr>f_off := f_off f + nat v\<rparr>) k3 else k3) = Done k5"
      "k_end_op me k5 = Done k6" "(if v \<noteq> n1 then Done (t, k6) else filewrite_loop me i addr n (t + n1) k6) = Done (r, k')"
      using 1(2) [unfolded filewrite_loop.simps [of me i addr n t k]] True
      by (auto simp: Let_def simp flip: n1_def split del: if_split)
    have "keeps k k6"
      using s(1-5) by (auto simp: keeps_def dest!: call_keeps split: if_splits)
    moreover have "keeps k6 k'"
      using s(6) 1(1) [OF True n1_def refl refl refl] by (auto split: if_splits)
    ultimately show ?thesis by (rule keeps_trans)
  next
    case False
    with 1(2) show ?thesis by (subst (asm) filewrite_loop.simps) simp
  qed
qed

lemma filewrite_keeps:
  assumes "filewrite d me i a n k = Done (r, k')" "devs_keep d"
  shows "keeps k k'"
proof (cases "f_type (fil k i)")
  case FD_PIPE
  then obtain x s q where p: "\<not> f_writable (fil k i) \<and> k' = k \<or>
    pipewrite (k_sys k) (k_pipes k (f_pipe (fil k i))) (f_pipe (fil k i)) me (\<lambda>_. killed (procs (k_sys k)) me) a n 0 = Ok (x, s, q) \<and>
    (case x of Returns v \<Rightarrow> k' = k\<lparr>k_sys := s, k_pipes := (k_pipes k)(f_pipe (fil k i) := q)\<rparr> | Sleeps _ \<Rightarrow> False)"
    using assms(1) by (fastforce simp: filewrite_def Let_def split: if_splits run.splits)
  then show ?thesis by (cases x) (auto simp: keeps_def fdv_def dest!: pipewrite_ofiles)
next
  case FD_DEVICE
  with assms show ?thesis
    by (auto simp: filewrite_def Let_def devs_keep_def split: if_splits option.splits)
next
  case FD_INODE
  with assms(1) show ?thesis
    by (auto simp: filewrite_def Let_def dest!: filewrite_loop_keeps split: if_splits)
qed (use assms in \<open>auto simp: filewrite_def Let_def split: if_splits\<close>)

lemma sys_read_keeps: "sys_read d me fd0 n0 k = Done (r, k') \<Longrightarrow> devs_keep d \<Longrightarrow> keeps k k'"
  by (auto simp: sys_read_def dest: fileread_keeps split: option.splits)

lemma sys_write_keeps: "sys_write d me fd0 n0 k = Done (r, k') \<Longrightarrow> devs_keep d \<Longrightarrow> keeps k k'"
  by (auto simp: sys_write_def dest: filewrite_keeps split: option.splits)

lemma filestat_keeps: "filestat me pad f a k = Done (r, k') \<Longrightarrow> keeps k k'"
  by (auto simp: filestat_def Let_def keeps_def dest!: on_fs_keeps split: if_splits)

lemma sys_fstat_keeps: "sys_fstat me pad fd0 k = Done (r, k') \<Longrightarrow> keeps k k'"
  by (auto simp: sys_fstat_def dest: filestat_keeps split: option.splits)

lemma sys_link_keeps: "sys_link me junk k = Done (r, k') \<Longrightarrow> keeps k k'"
  by (auto simp: sys_link_def keeps_def dest!: call_keeps split: if_splits)

lemma sys_unlink_keeps: "sys_unlink me junk k = Done (r, k') \<Longrightarrow> keeps k k'"
  by (auto simp: sys_unlink_def keeps_def dest!: call_keeps split: if_splits)

lemma sys_mkdir_keeps: "sys_mkdir me junk k = Done (r, k') \<Longrightarrow> keeps k k'"
  by (auto simp: sys_mkdir_def keeps_def dest!: call_keeps split: if_splits option.splits)

lemma sys_mknod_keeps: "sys_mknod me junk mj mn k = Done (r, k') \<Longrightarrow> keeps k k'"
  by (auto simp: sys_mknod_def keeps_def dest!: call_keeps split: if_splits option.splits)

lemma sys_chdir_keeps:
  assumes "sys_chdir me junk k = Done (r, k')"
  shows "keeps k k'"
proof -
  have *: "keeps k1 (set_procs (upd_proc me (\<lambda>p. p\<lparr>p_cwd := Some ip\<rparr>)) k1)" for k1 ip
    unfolding set_procs_def by (rule upd_proc_keeps) simp_all
  have "\<exists>k1. keeps k k1 \<and> (k' = k1 \<or> (\<exists>ip. k' = set_procs (upd_proc me (\<lambda>p. p\<lparr>p_cwd := Some ip\<rparr>)) k1))"
    using assms
    by (auto simp: sys_chdir_def dest!: call_keeps split: if_splits option.splits) (metis keeps_trans)+
  then show ?thesis using * keeps_trans by blast
qed

lemma proc_pagetable_mch: "proc_pagetable s p = Ok (pt, s') \<Longrightarrow> \<exists>m. s' = s\<lparr>mch := m\<rparr>"
  by (auto simp: proc_pagetable_def Let_def split: if_splits prod.splits)

lemma tf_write_procs [simp]: "procs (tf_write s p off v) = procs s"
  by (simp add: tf_write_def)

lemma exec_image_keeps: "exec_image me ip k = Done (x, k') \<Longrightarrow> keeps k k'"
  by (auto simp: exec_image_def Let_def keeps_def dest!: proc_pagetable_mch split: if_splits)

lemma exec_bad_keeps: "exec_bad pt sz k = Done k' \<Longrightarrow> keeps k k'"
  by (auto simp: exec_bad_def split: if_splits)

lemma exec_commit_keeps:
  assumes "exec_commit me pth elf pt sz sp k = Done k'"
  shows "keeps k k'"
proof -
  obtain m s f where k': "k' = k\<lparr>k_sys := s\<lparr>mch := m\<rparr>\<rparr>" "procs s = procs (upd_proc me f (k_sys k))"
    "\<And>q. p_ofile (f q) = p_ofile q" "\<And>q. p_state (f q) = p_state q"
    using assms by (auto simp: exec_commit_def Let_def upd_proc_def)
  then have "map (\<lambda>q. (p_ofile q, dead q)) (procs s) = map (\<lambda>q. (p_ofile q, dead q)) (procs (k_sys k))"
    using map_upd_proc [of f me "k_sys k"] by (simp add: dead_def)
  with k'(1) show ?thesis by (simp add: keeps_def fdv_def)
qed

lemma exec_stack_keeps: "exec_stack me pth argv elf pt sz k = Done (r, k') \<Longrightarrow> keeps k k'"
  by (auto simp: exec_stack_def Let_def keeps_def dest!: exec_bad_keeps exec_commit_keeps split: if_splits option.splits)

lemma exec_keeps: "exec me junk pth argv k = Done (r, k') \<Longrightarrow> keeps k k'"
  by (auto simp: exec_def Let_def keeps_def
      dest!: call_keeps exec_image_keeps exec_bad_keeps exec_stack_keeps split: if_splits option.splits)

lemma same_mch [simp]: "\<exists>m. (s::sys) = s\<lparr>mch := m\<rparr>"
  by (rule exI [of _ "mch s"]) simp

lemma fetch_args_mch: "fetch_args me uargv u i n s = Ok (x, s') \<Longrightarrow> \<exists>m. s' = s\<lparr>mch := m\<rparr>"
proof (induction me uargv u i n s arbitrary: x s' rule: fetch_args.induct)
  case (2 me uargv uarg0 i left s)
  obtain r uarg where f: "fetchaddr s me (uargv + of_nat (8 * i)) uarg0 = Ok (r, uarg)" using 2(2) by auto
  obtain page m where k: "kalloc (mch s) = (page, m)" by (cases "kalloc (mch s)")
  show ?case
  proof (cases "r < 0 \<or> uarg = 0 \<or> page = 0")
    case True
    with 2(2) f k show ?thesis by (auto split: if_splits)
  next
    case False
    with 2(2) f k obtain n bs where b: "fetchstr (s\<lparr>mch := m\<rparr>) me uarg (unat PGSIZE) = Ok (n, bs)"
      "n < 0 \<and> s' = s\<lparr>mch := m\<lparr>pm := write_bytes (pm m) page bs\<rparr>\<rparr> \<or>
       \<not> n < 0 \<and> (\<exists>y. fetch_args me uargv uarg (i + 1) left (s\<lparr>mch := m\<lparr>pm := write_bytes (pm m) page bs\<rparr>\<rparr>) = Ok (y, s'))"
      by (fastforce simp: Let_def split: if_splits)
    then show ?thesis using 2(1) [of r uarg, OF _ _ refl k [symmetric] refl _ refl, of n bs] False by fastforce
  qed
qed auto

lemma sys_exec_keeps:
  assumes "sys_exec me junk u k = Done (r, k')"
  shows "keeps k k'"
  using assms
  by (auto simp: sys_exec_def keeps_def dest!: fetch_args_mch exec_keeps split: if_splits)

section \<open>Birth and death of processes\<close>

text \<open>The list of slots in a system state.\<close>

definition slots :: "sys \<Rightarrow> fdview" where
  "slots s = map (\<lambda>q. (p_ofile q, dead q)) (procs s)"

lemma length_slots: "length (slots s) = length (procs s)"
  by (simp add: slots_def)

lemma slots_simps [simp]:
  "slots (s\<lparr>mch := m\<rparr>) = slots s" "slots (s\<lparr>nextpid := i\<rparr>) = slots s" "slots (s\<lparr>initproc := j\<rparr>) = slots s"
  "slots (tf_write s p off v) = slots s" "slots (s\<lparr>procs := wakeup me c (procs s)\<rparr>) = slots s"
  by (simp_all add: slots_def)

lemma slots_upd [simp]:
  assumes "\<And>q. p_ofile (f q) = p_ofile q" "\<And>q. p_state (f q) = p_state q"
  shows "slots (upd_proc i f s) = slots s"
  unfolding slots_def by (rule map_upd_proc) (simp_all add: assms dead_def)

lemma slots_state:
  assumes "\<And>q. p_ofile (f q) = p_ofile q" "\<And>q. p_state (f q) = x" "i < length (slots s)"
  shows "slots (upd_proc i f s) = (slots s)[i := (fst (slots s ! i), x = UNUSED \<or> x = ZOMBIE)]"
  using assms by (simp add: slots_def upd_proc_def map_update dead_def)

lemma fdv_slots: "fdv (k\<lparr>k_sys := s\<rparr>) = slots s" "fdv k = slots (k_sys k)"
  by (simp_all add: fdv_def slots_def)

lemma freeproc_slots:
  assumes "freeproc s p = Ok s'" "p < length (slots s)"
  shows "slots s' = (slots s)[p := (fst (slots s ! p), True)]"
  using assms by (auto simp: freeproc_def slots_state [where x = UNUSED])

lemma allocproc_slots:
  assumes "allocproc s = Ok (r, s')"
  shows "case r of None \<Rightarrow> slots s' = slots s
    | Some p \<Rightarrow> p < length (slots s) \<and> snd (slots s ! p) \<and> slots s' = (slots s)[p := (fst (slots s ! p), False)]"
proof (cases "find_unused (procs s)")
  case None
  with assms show ?thesis by (auto simp: allocproc_def)
next
  case (Some p)
  then have p: "p < length (slots s)" "snd (slots s ! p)"
    by (auto simp: find_unused_def find_Some_iff slots_def dead_def)
  then have e: "(slots s)[p := (fst (slots s ! p), True)] = slots s"
    by (metis list_update_id prod.collapse)
  obtain pid s1 where a: "allocpid s = (pid, s1)" "slots s1 = slots s" by (auto simp: allocpid_def)
  define s2 where "s2 = upd_proc p (\<lambda>q. q\<lparr>p_pid := pid, p_state := USED\<rparr>) s1"
  have s2: "slots s2 = (slots s)[p := (fst (slots s ! p), False)]"
    using p(1) a(2) slots_state [where x = USED and i = p and s = s1] by (simp add: s2_def)
  obtain tf m where k: "kalloc (mch s2) = (tf, m)" by (cases "kalloc (mch s2)")
  define s3 where "s3 = upd_proc p (\<lambda>q. q\<lparr>p_trapframe := tf\<rparr>) (s2\<lparr>mch := m\<rparr>)"
  have s3: "slots s3 = slots s2" by (simp add: s3_def)
  have fr: "slots s6 = slots s" if "freeproc s5 p = Ok s6" "slots s5 = slots s2" for s5 s6
    using freeproc_slots [OF that(1)] that(2) s2 p(1) e by simp
  have "if tf = 0 then r = None \<and> freeproc s3 p = Ok s'
    else (\<exists>pt m. let s5 = upd_proc p (\<lambda>q. q\<lparr>p_pagetable := pt\<rparr>) (s3\<lparr>mch := m\<rparr>) in
      if pt = 0 then r = None \<and> freeproc s5 p = Ok s'
      else r = Some p \<and> s' = upd_proc p (\<lambda>q. q\<lparr>p_context := \<lparr>ctx_ra = forkret_addr s5, ctx_sp = p_kstack q + PGSIZE\<rparr>\<rparr>) s5)"
    using assms Some a k
    by (auto simp: allocproc_def Let_def s2_def s3_def dest!: proc_pagetable_mch split: if_splits)
  then show ?thesis using fr s2 s3 p by (auto simp: Let_def split: if_splits)
qed

lemma filedup_sys: "filedup f k = Done k' \<Longrightarrow> k_sys k' = k_sys k"
  by (auto simp: filedup_def upd_file_def split: if_splits)

lemma fork_files_fok:
  assumes "fork_files p np is k = Done k'" "fok k []" "alive k p" "alive k np" "p \<noteq> np" "distinct is" "set is \<subseteq> {..<NOFILE}"
    "\<forall>i \<in> set is. fst (fdv k ! np) ! i = None"
  shows "fok k' [] \<and> (\<forall>q. alive k' q = alive k q)"
  using assms
proof (induction "is" arbitrary: k)
  case (Cons i "is")
  have np: "p < length (fdv k)" "np < length (fdv k)" using Cons.prems(3,4) by (simp_all add: alive_def)
  have o: "p_ofile (prc (k_sys k) p) = fst (fdv k ! p)" using np by (simp add: fdv_def)
  show ?case
  proof (cases "fst (fdv k ! p) ! i")
    case None
    with Cons o show ?thesis by simp
  next
    case (Some f)
    with Cons.prems(1) o obtain k1 where k1: "filedup f k = Done k1" "fork_files p np is (set_fd np i (Some f) k1) = Done k'"
      by auto
    have i: "i < NOFILE" using Cons.prems(7) by simp
    note op = open_fd_ok [OF Cons.prems(2) np(1) i Some]
    note v = filedup_view [OF k1(1) op(1)]
    have "fok k1 [f]" using fds_ok_dup [OF Cons.prems(2) op(1,2)] v by simp
    moreover have al: "alive k1 q = alive k q" for q using v by (simp add: alive_def)
    moreover have "snd (frv k1 ! f)" using v(2) op(1,3) by simp
    moreover have "fst (fdv k1 ! np) ! i = None" using Cons.prems(8) v by simp
    ultimately have "fok (set_fd np i (Some f) k1) []" using set_fd_fok Cons.prems(4) i by blast
    moreover have "fst (fdv (set_fd np i (Some f) k1) ! np) ! j = None" if "j \<in> set is" for j
      using that Cons.prems(6,8) np v by (auto simp: set_fd_view nth_update_if)
    ultimately show ?thesis
      using Cons.IH [OF k1(2)] Cons.prems al by auto
  qed
qed simp

lemma fork_fok:
  assumes "fork p k = Done (r, k')" "fok k []" "alive k p"
  shows "fok k' []"
proof -
  obtain a s1 where a: "allocproc (k_sys k) = Ok (a, s1)" using assms(1) by (auto simp: fork_def)
  note al = allocproc_slots [OF a]
  show ?thesis
  proof (cases a)
    case None
    with a al assms(1,2) show ?thesis by (auto simp: fork_def fdv_slots)
  next
    case (Some np)
    let ?S = "slots (k_sys k)"
    have np: "np < length ?S" "snd (?S ! np)" "slots s1 = ?S[np := (fst (?S ! np), False)]" using al Some by simp_all
    have ne: "p \<noteq> np" using np(2) assms(3) by (auto simp: alive_def fdv_slots)
    have emp: "set (fst (?S ! np)) \<subseteq> {None}" "length (fst (?S ! np)) = NOFILE"
      using fds_okD(1) [OF assms(2), of np] np(1,2) by (auto simp: fdv_slots slot_ok_def)
    have new: "fds_ok (slots s1) (frv k) []"
      using fds_ok_flag [OF assms(2), of np "fst (?S ! np)" True False] np by (simp add: fdv_slots) (metis prod.collapse)
    obtain rc m where u: "uvmcopy (mch s1) (p_pagetable (prc s1 p)) (p_pagetable (prc s1 np)) (p_sz (prc s1 p)) = Ok (rc, m)"
      using assms(1) a Some by (auto simp: fork_def)
    show ?thesis
    proof (cases "rc < 0")
      case True
      with assms(1) a Some u obtain s3 where s3: "freeproc (s1\<lparr>mch := m\<rparr>) np = Ok s3" "k' = k\<lparr>k_sys := s3\<rparr>"
        by (auto simp: fork_def Let_def)
      have "slots s3 = ?S" using freeproc_slots [OF s3(1)] np by simp (metis list_update_id prod.collapse)
      with s3(2) assms(2) show ?thesis by (simp add: fdv_slots)
    next
      case False
      define s3 where "s3 = upd_proc np (\<lambda>q. q\<lparr>p_sz := p_sz (prc (s1\<lparr>mch := m\<rparr>) p)\<rparr>) (s1\<lparr>mch := m\<rparr>)"
      define k0 where "k0 = k\<lparr>k_sys := tf_write (copy_trapframe p np s3) np a0_off 0\<rparr>"
      have v: "fdv k0 = slots s1" "frv k0 = frv k" by (simp_all add: k0_def s3_def copy_trapframe_def fdv_slots)
      obtain k1 c fs where k1: "fork_files p np [0..<NOFILE] k0 = Done k1"
        "k' = k1\<lparr>k_sys := fork_link (upd_proc np (\<lambda>q. q\<lparr>p_cwd := Some c,
           p_name := safestrcpy (p_name q) (char_at (p_name (prc (k_sys k1) p))) 16\<rparr>) (k_sys k1)) np p, k_fs := fs\<rparr>"
        using assms(1) a Some u False by (auto simp: fork_def Let_def k0_def s3_def idup_def)
      have "alive k0 p" "alive k0 np" using assms(3) np ne v by (auto simp: alive_def fdv_slots)
      moreover have "fst (fdv k0 ! np) ! i = None" if "i < NOFILE" for i
        using emp np v(1) that by (simp add: subset_iff)
      ultimately have f1: "fok k1 []" "alive k1 np"
        using fork_files_fok [OF k1(1)] new v ne by (auto simp: lessThan_atLeast0)
      then have n1: "np < length (slots (k_sys k1))" "slots (k_sys k1) ! np = (fst (slots (k_sys k1) ! np), False)"
        by (auto simp: alive_def fdv_slots prod_eq_iff)
      have "slots (fork_link (upd_proc np f (k_sys k1)) np p) = slots (k_sys k1)"
        if "\<And>q. p_ofile (f q) = p_ofile q" "\<And>q. p_state (f q) = p_state q" for f
        using n1 slots_state [where x = RUNNABLE and i = np and s = "upd_proc np f (k_sys k1)"] that
        by (simp add: fork_link_def)
      with k1(2) f1(1) show ?thesis by (simp add: fdv_slots)
    qed
  qed
qed

lemma exit_files_fok:
  assumes "exit_files p fds k = Done k'" "fok k []" "p < length (fdv k)" "set fds \<subseteq> {..<NOFILE}"
  shows "fok k' [] \<and> p < length (fdv k') \<and>
    (\<forall>i < NOFILE. i \<in> set fds \<or> fst (fdv k ! p) ! i = None \<longrightarrow> fst (fdv k' ! p) ! i = None)"
  using assms
proof (induction fds arbitrary: k)
  case (Cons fd fds)
  have o: "p_ofile (prc (k_sys k) p) = fst (fdv k ! p)" using Cons.prems(3) by (simp add: fdv_def)
  show ?case
  proof (cases "fst (fdv k ! p) ! fd")
    case None
    with Cons o show ?thesis by auto
  next
    case (Some f)
    with Cons.prems(1) o obtain k1 where k1: "fileclose p f k = Done k1" "exit_files p fds (set_fd p fd None k1) = Done k'"
      by auto
    have fd: "fd < NOFILE" using Cons.prems(4) by simp
    note v = fileclose_view [OF k1(1) open_fd_ok(1) [OF Cons.prems(2,3) fd Some]]
    have len: "length (fst (fdv k ! p)) = NOFILE" using slot_okD(1) [OF fds_okD(1) [OF Cons.prems(2,3)]] .
    have view: "fdv (set_fd p fd None k1) = (fdv k)[p := ((fst (fdv k ! p))[fd := None], snd (fdv k ! p))]"
      "frv (set_fd p fd None k1) = drop_ref f (frv k)"
      using v Cons.prems(3) by (simp_all add: set_fd_view)
    have "fok (set_fd p fd None k1) []"
      using fds_ok_close [OF fds_ok_clear [OF Cons.prems(2,3) prod.collapse [symmetric] fd Some]] view by simp
    from Cons.IH [OF k1(2) this] Cons.prems(3,4) view len fd show ?thesis by (auto simp: nth_update_if)
  qed
qed simp

lemma reparent_slots [simp]: "slots (reparent me p s) = slots s"
proof -
  have "slots (fold (reparent_step me p) is s) = slots s" for "is"
    by (induction "is" arbitrary: s) (auto simp: reparent_step_def Let_def)
  then show ?thesis by (simp add: reparent_def)
qed

lemma exit_fok:
  assumes "exit p status k = Done k'" "fok k []" "p < length (fdv k)"
  shows "fok k' []"
proof -
  obtain k1 k4 where k1: "exit_files p [0..<NOFILE] k = Done k1" "keeps k1 k4"
    "k' = k4\<lparr>k_sys := exit_tail (upd_proc p (\<lambda>q. q\<lparr>p_cwd := None\<rparr>) (k_sys k4)) p status\<rparr>"
    using assms(1) by (auto simp: exit_def Let_def dest!: call_keeps split: if_splits) (metis keeps_trans)
  have f: "fok k1 []" "p < length (fdv k1)" "\<And>i. i < NOFILE \<Longrightarrow> fst (fdv k1 ! p) ! i = None"
    using exit_files_fok [OF k1(1) assms(2,3)] by (auto simp: lessThan_atLeast0)
  have "set (fst (fdv k1 ! p)) \<subseteq> {None}"
    using f(3) slot_okD(1) [OF fds_okD(1) [OF f(1,2)]] by (auto simp: in_set_conv_nth)
  with fds_ok_flag [OF f(1,2) prod.collapse [symmetric], of True]
  have "fds_ok ((fdv k1)[p := (fst (fdv k1 ! p), True)]) (frv k1) []" by simp
  moreover have "fdv k' = (fdv k1)[p := (fst (fdv k1 ! p), True)]" "frv k' = frv k1"
    using k1(2,3) f(2) by (simp_all add: exit_tail_def Let_def fdv_slots keeps_def slots_state [where x = ZOMBIE])
  ultimately show ?thesis by simp
qed

lemma reap_slots:
  assumes "reap s p addr i = Ok (r, s')" "i < length (slots s)" "p_state (prc s i) = ZOMBIE"
  shows "slots s' = slots s"
proof -
  have e: "(slots s)[i := (fst (slots s ! i), True)] = slots s"
    using assms(2,3) by (intro nth_equalityI) (auto simp: nth_update_if slots_def dead_def)
  show ?thesis
    using assms(1) e freeproc_slots assms(2) by (auto simp: reap_def Let_def split: if_splits)
qed

lemma go_to_sleep_slots:
  assumes "p < length (slots s)" "\<not> snd (slots s ! p)"
  shows "slots (s\<lparr>procs := go_to_sleep p c (procs s)\<rparr>) = slots s"
  using assms by (intro nth_equalityI) (auto simp: slots_def go_to_sleep_def nth_update_if dead_def)

lemma wait_loop_slots:
  assumes "wait_loop s p addr h is = Ok (r, s')" "set is \<subseteq> {..<length (slots s)}" "p < length (slots s)" "\<not> snd (slots s ! p)"
  shows "slots s' = slots s"
  using assms by (induction s p addr h "is" rule: wait_loop.induct) (auto dest: reap_slots simp: go_to_sleep_slots split: if_splits)

lemma waitpid_loop_slots:
  assumes "waitpid_loop s p pid addr opt is = Ok (r, s')" "set is \<subseteq> {..<length (slots s)}" "p < length (slots s)" "\<not> snd (slots s ! p)"
  shows "slots s' = slots s"
  using assms by (induction s p pid addr opt "is" rule: waitpid_loop.induct) (auto dest: reap_slots simp: go_to_sleep_slots split: if_splits)

lemma sys_wait_keeps:
  assumes "sys_wait (k_sys k) me = Ok (r, s)" "alive k me"
  shows "keeps k (k\<lparr>k_sys := s\<rparr>)"
  using assms length_slots [of "k_sys k"]
  by (auto simp: sys_wait_def wait_def alive_def keeps_def fdv_slots lessThan_atLeast0 dest!: wait_loop_slots)

lemma sys_waitpid_keeps:
  assumes "sys_waitpid (k_sys k) me pid0 opt0 = Ok (r, s)" "alive k me"
  shows "keeps k (k\<lparr>k_sys := s\<rparr>)"
  using assms length_slots [of "k_sys k"]
  by (auto simp: sys_waitpid_def waitpid_def alive_def keeps_def fdv_slots lessThan_atLeast0 dest!: waitpid_loop_slots)

section \<open>All calls together\<close>

definition runs :: "kern \<Rightarrow> nat \<Rightarrow> bool" where
  "runs k me \<longleftrightarrow> me < length (procs (k_sys k)) \<and> p_state (prc (k_sys k) me) = RUNNING"

text \<open>
  What happens between two moments at which no file system call is under way: a call by a running
  process \<open>me\<close> that runs to its end without having to sleep, with any contents of its uninitialised
  variables and any device functions that leave descriptors alone; or \<open>other\<close>, anything else that
  changes neither descriptors nor reference counts nor which slots are in use.
\<close>

inductive fd_step :: "kern \<Rightarrow> kern \<Rightarrow> bool" where
  dup: "runs k me \<Longrightarrow> sys_dup me fd0 k = Done (r, k') \<Longrightarrow> fd_step k k'"
| close: "runs k me \<Longrightarrow> sys_close me fd0 k = Done (r, k') \<Longrightarrow> fd_step k k'"
| open_f: "runs k me \<Longrightarrow> sys_open me junk omode0 k = Done (r, k') \<Longrightarrow> fd_step k k'"
| pipe_f: "runs k me \<Longrightarrow> sys_pipe me k = Done (r, k') \<Longrightarrow> fd_step k k'"
| fork_p: "runs k me \<Longrightarrow> sys_fork me k = Done (r, k') \<Longrightarrow> fd_step k k'"
| exit_p: "runs k me \<Longrightarrow> sys_exit me n0 k = Done k' \<Longrightarrow> fd_step k k'"
| wait_p: "runs k me \<Longrightarrow> sys_wait (k_sys k) me = Ok (w, s) \<Longrightarrow> fd_step k (k\<lparr>k_sys := s\<rparr>)"
| waitpid_p: "runs k me \<Longrightarrow> sys_waitpid (k_sys k) me n0 n1 = Ok (w, s) \<Longrightarrow> fd_step k (k\<lparr>k_sys := s\<rparr>)"
| exec_p: "runs k me \<Longrightarrow> sys_exec me junk u k = Done (r, k') \<Longrightarrow> fd_step k k'"
| read_f: "runs k me \<Longrightarrow> devs_keep d \<Longrightarrow> sys_read d me fd0 n0 k = Done (r, k') \<Longrightarrow> fd_step k k'"
| write_f: "runs k me \<Longrightarrow> devs_keep d \<Longrightarrow> sys_write d me fd0 n0 k = Done (r, k') \<Longrightarrow> fd_step k k'"
| fstat_f: "runs k me \<Longrightarrow> sys_fstat me pad fd0 k = Done (r, k') \<Longrightarrow> fd_step k k'"
| link_f: "runs k me \<Longrightarrow> sys_link me junk k = Done (r, k') \<Longrightarrow> fd_step k k'"
| unlink_f: "runs k me \<Longrightarrow> sys_unlink me junk k = Done (r, k') \<Longrightarrow> fd_step k k'"
| mkdir_f: "runs k me \<Longrightarrow> sys_mkdir me junk k = Done (r, k') \<Longrightarrow> fd_step k k'"
| mknod_f: "runs k me \<Longrightarrow> sys_mknod me junk n0 n1 k = Done (r, k') \<Longrightarrow> fd_step k k'"
| chdir_f: "runs k me \<Longrightarrow> sys_chdir me junk k = Done (r, k') \<Longrightarrow> fd_step k k'"
| other: "keeps k k' \<Longrightarrow> fd_step k k'"

lemma runs_alive: "runs k me \<Longrightarrow> alive k me"
  by (auto simp: runs_def alive_def fdv_def dead_def)

lemma sys_exit_fok:
  assumes "sys_exit me n0 k = Done k'" "fok k []" "alive k me"
  shows "fok k' []"
  using assms exit_fok by (auto simp: sys_exit_def alive_def)

lemmas calls_keep = sys_exec_keeps sys_read_keeps sys_write_keeps sys_fstat_keeps sys_link_keeps sys_unlink_keeps
  sys_mkdir_keeps sys_mknod_keeps sys_chdir_keeps sys_wait_keeps sys_waitpid_keeps

lemma fd_step_fok:
  assumes "fd_step k k'" "fok k []"
  shows "fok k' []"
  using assms
proof (induction rule: fd_step.induct)
  case (dup k me fd0 r k')
  then show ?case using sys_dup_fok runs_alive by blast
next
  case (close k me fd0 r k')
  then show ?case using sys_close_fok runs_alive by blast
next
  case (open_f k me junk omode0 r k')
  then show ?case using sys_open_fok runs_alive by blast
next
  case (pipe_f k me r k')
  then show ?case using sys_pipe_fok runs_alive by blast
next
  case (fork_p k me r k')
  then show ?case using fork_fok runs_alive by (metis sys_fork_def)
next
  case (exit_p k me n0 k')
  then show ?case using sys_exit_fok runs_alive by blast
qed (metis keeps_fok(1) calls_keep runs_alive)+

text \<open>When the system starts nothing is open.\<close>

lemma boot_fok:
  assumes "\<And>p. p < length (procs (k_sys k)) \<Longrightarrow> p_ofile (prc (k_sys k) p) = replicate NOFILE None"
    "\<And>f. f < length (k_files k) \<Longrightarrow> f_ref (fil k f) = 0 \<and> f_type (fil k f) = FD_NONE"
  shows "fok k []"
proof -
  have "set (concat (map fst (fdv k))) \<subseteq> {None}"
    using assms(1) by (fastforce simp: fdv_def in_set_conv_nth [of _ "procs (k_sys k)"])
  then have "Some f \<notin> set (concat (map fst (fdv k)))" for f by blast
  then have "uses (fdv k) f = 0" for f unfolding uses_def by (metis count_notin)
  then show ?thesis using assms by (auto simp: fds_ok_def slot_ok_def fdv_def frv_def)
qed

section \<open>Descriptors name open files\<close>

lemma count_list_concat_sum: "count_list (concat xss) a = (\<Sum>q < length xss. count_list (xss ! q) a)"
  by (induction xss rule: rev_induct) (auto simp: nth_append)

lemma uses_card:
  assumes "\<And>q. q < length vs \<Longrightarrow> length (fst (vs ! q)) = n"
  shows "uses vs f = card {(q, d). q < length vs \<and> d < n \<and> fst (vs ! q) ! d = Some f}"
proof -
  have "{(q, d). q < length vs \<and> d < n \<and> fst (vs ! q) ! d = Some f} =
    Sigma {..<length vs} (\<lambda>q. {d. d < n \<and> fst (vs ! q) ! d = Some f})" by auto
  moreover have "count_list (fst (vs ! q)) (Some f) = card {d. d < n \<and> fst (vs ! q) ! d = Some f}" if "q < length vs" for q
    using assms [OF that] by (simp add: count_list_eq_length_filter length_filter_conv_card eq_commute)
  ultimately show ?thesis by (simp add: uses_def count_list_concat_sum)
qed

text \<open>C0: A descriptor always names an open file. From a state in which the reference counts are right,
  such as the one in which nothing is open, and under every sequence of calls of the processes, forks and
  exits included: whatever a descriptor of any process names is an entry of the file table that has
  a type, so that reading and writing it do not panic, and its reference count is the number of the
  descriptors of all processes that name it, so that \<^verbatim>\<open>filedup\<close> does not panic either. An entry that no
  descriptor names has the count 0 and no type.\<close>

theorem descriptors_name_open_files:
  assumes "fd_step\<^sup>*\<^sup>* k0 k" "fds_ok (fdv k0) (frv k0) []"
  shows "(\<forall>p < length (procs (k_sys k)). \<forall>fd < NOFILE. \<forall>f. p_ofile (prc (k_sys k) p) ! fd = Some f \<longrightarrow>
      f < length (k_files k) \<and> f_type (fil k f) \<noteq> FD_NONE \<and> (\<exists>k'. filedup f k = Done k')) \<and>
    (\<forall>f < length (k_files k). f_ref (fil k f) =
      int (card {(p, fd). p < length (procs (k_sys k)) \<and> fd < NOFILE \<and> p_ofile (prc (k_sys k) p) ! fd = Some f}) \<and>
      (f_ref (fil k f) = 0 \<longrightarrow> f_type (fil k f) = FD_NONE))"
proof -
  have ok: "fok k []" using assms by (induction rule: rtranclp_induct) (auto intro: fd_step_fok)
  have len: "\<And>p. p < length (fdv k) \<Longrightarrow> length (fst (fdv k ! p)) = NOFILE" using slot_okD(1) [OF fds_okD(1) [OF ok]] .
  have "f < length (k_files k) \<and> f_type (fil k f) \<noteq> FD_NONE \<and> (\<exists>k'. filedup f k = Done k')"
    if "p < length (procs (k_sys k))" "fd < NOFILE" "p_ofile (prc (k_sys k) p) ! fd = Some f" for p fd f
    using open_fd_ok(1-3) [OF ok, of p fd f] that by (simp add: fdv_def) (simp add: frv_def filedup_def)
  moreover have "{(p, fd). p < length (fdv k) \<and> fd < NOFILE \<and> fst (fdv k ! p) ! fd = Some f} =
    {(p, fd). p < length (procs (k_sys k)) \<and> fd < NOFILE \<and> p_ofile (prc (k_sys k) p) ! fd = Some f}" for f
    by (auto simp: fdv_def)
  ultimately show ?thesis
    using fds_okD(3,4) [OF ok] uses_card [OF len] by (simp add: frv_def)
qed

text \<open>A process with one file open on descriptor 0 that duplicates it.\<close>

definition fd_demo :: kern where
  "fd_demo = \<lparr>k_sys = family\<lparr>procs := [blank_proc\<lparr>p_state := RUNNING, p_pid := 1, p_ofile := Some 1 # replicate 15 None\<rparr>]\<rparr>,
     k_fs = demo_fs, k_pipes = (\<lambda>_. \<lparr>pi_data = [], pi_nread = 0, pi_nwrite = 0, pi_readopen = False, pi_writeopen = False\<rparr>),
     k_files = [\<lparr>f_type = FD_NONE, f_ref = 0, f_readable = False, f_writable = False, f_pipe = 0, f_ip = 0, f_off = 0, f_major = 0\<rparr>,
       \<lparr>f_type = FD_INODE, f_ref = 1, f_readable = True, f_writable = False, f_pipe = 0, f_ip = 0, f_off = 0, f_major = 0\<rparr>]\<rparr>"

lemma fd_demo_arg: "tf_read (k_sys fd_demo) 0 a0_off = 0"
  using one_page_ld [of 0 14] by (simp add: tf_read_def a0_off_def ea_def aligned_def fd_demo_def demo_simps)

lemma fd_demo_dup: "sys_dup 0 0 fd_demo = Done (1, upd_file 1 (\<lambda>f. f\<lparr>f_ref := 2\<rparr>) (set_fd 0 1 (Some 1) fd_demo))"
proof -
  have "argfd 0 0 0 fd_demo = Ok (Some (0, 1))"
    by (simp add: argfd_def argint_def argraw_def fd_demo_arg to_int_def) (simp add: fd_demo_def NOFILE_def)
  moreover have "fdalloc 0 1 fd_demo = (Some 1, set_fd 0 1 (Some 1) fd_demo)"
    by (simp add: fdalloc_def) (simp add: fd_demo_def NOFILE_def upt_rec)
  moreover have "filedup 1 (set_fd 0 1 (Some 1) fd_demo) = Done (upd_file 1 (\<lambda>f. f\<lparr>f_ref := 2\<rparr>) (set_fd 0 1 (Some 1) fd_demo))"
    by (simp add: filedup_def upd_file_def) (simp add: fd_demo_def)
  ultimately show ?thesis by (simp add: sys_dup_def)
qed

theorem descriptors_name_open_files_witness:
  "f_ref (fil (upd_file 1 (\<lambda>f. f\<lparr>f_ref := 2\<rparr>) (set_fd 0 1 (Some 1) fd_demo)) 1) =
     int (card {(p, fd). p < 1 \<and> fd < NOFILE \<and>
       p_ofile (prc (k_sys (upd_file 1 (\<lambda>f. f\<lparr>f_ref := 2\<rparr>) (set_fd 0 1 (Some 1) fd_demo))) p) ! fd = Some 1})"
proof -
  let ?k = "upd_file 1 (\<lambda>f. f\<lparr>f_ref := 2\<rparr>) (set_fd 0 1 (Some 1) fd_demo)"
  have "runs fd_demo 0" by (simp add: runs_def fd_demo_def)
  then have run: "fd_step\<^sup>*\<^sup>* fd_demo ?k" using fd_step.dup [OF _ fd_demo_dup] by blast
  have "count_list (replicate 15 None) (Some f) = 0" for f :: nat by (rule count_notin) simp
  then have "fds_ok (fdv fd_demo) (frv fd_demo) []"
    by (auto simp: fd_demo_def fds_ok_def slot_ok_def fdv_def frv_def dead_def uses_def NOFILE_def All_less_Suc numeral_2_eq_2)
  note d = descriptors_name_open_files [OF run this]
  have l: "length (procs (k_sys ?k)) = 1" "1 < length (k_files ?k)"
    by (simp_all add: upd_file_def set_fd_def set_procs_def upd_proc_def fd_demo_def)
  from mp [OF spec [OF conjunct2 [OF d], of 1] l(2)] show ?thesis unfolding l(1) by (rule conjunct1)
qed

end
