(* ===== verification/Spec2Isabelle.thy ===== *)
theory Spec2Isabelle
  imports Proc_Inv File_Inv
begin

text \<open>
  A verification of the xv6 kernel for RISC-V of this repository, with its additions
  (\<^verbatim>\<open>sysinfo\<close>, \<^verbatim>\<open>waitpid\<close>, signals, semaphores, shared memory).
\<close>

end
